(* ===== verification/Ordmap.thy ===== *)
theory Ordmap
  imports Prelude
begin

text \<open>
  \<open>std::collections::BTreeMap\<close> as an association list kept in strictly increasing key order:
  \<open>insert\<close> replaces or adds, \<open>get_mut\<close> updates in place, \<open>into_values\<close> walks in key order.
  The locale \<open>sorted_map\<close> is the contract that the projections of the event log rely on; it is
  interpreted on these functions.
\<close>

section \<open>Operations\<close>

fun bt_insert :: "'k::linorder \<Rightarrow> 'v \<Rightarrow> ('k \<times> 'v) list \<Rightarrow> ('k \<times> 'v) list" where
  "bt_insert k v [] = [(k, v)]"
| "bt_insert k v ((k', v') # m) =
     (if k = k' then (k, v) # m
      else if k < k' then (k, v) # (k', v') # m
      else (k', v') # bt_insert k v m)"

fun bt_modify :: "'k \<Rightarrow> ('v \<Rightarrow> 'v) \<Rightarrow> ('k \<times> 'v) list \<Rightarrow> ('k \<times> 'v) list" where
  "bt_modify k f [] = []"
| "bt_modify k f ((k', v) # m) =
     (if k = k' then (k', f v) # m else (k', v) # bt_modify k f m)"

definition bt_values :: "('k \<times> 'v) list \<Rightarrow> 'v list" where
  "bt_values m = map snd m"

definition bt_ok :: "('k::linorder \<times> 'v) list \<Rightarrow> bool" where
  "bt_ok m \<longleftrightarrow> sorted_wrt (<) (map fst m)"

section \<open>Laws\<close>

lemma bt_ok_Nil [simp]: "bt_ok []"
  by (simp add: bt_ok_def)

lemma bt_ok_Cons: "bt_ok ((k, v) # m) \<longleftrightarrow> (\<forall>k' \<in> fst ` set m. k < k') \<and> bt_ok m"
  by (simp add: bt_ok_def)

lemma fst_set_bt_insert: "fst ` set (bt_insert k v m) = insert k (fst ` set m)"
  by (induction k v m rule: bt_insert.induct) (simp_all add: insert_commute)

lemma bt_ok_insert [intro, simp]: "bt_ok m \<Longrightarrow> bt_ok (bt_insert k v m)"
proof (induction m)
  case Nil
  then show ?case by (simp add: bt_ok_Cons)
next
  case (Cons p m)
  then show ?case
    by (cases p) (fastforce simp: bt_ok_Cons fst_set_bt_insert dest: bspec)
qed

lemma map_fst_bt_modify: "map fst (bt_modify k f m) = map fst m"
  by (induction m) auto

lemma bt_ok_modify [intro, simp]: "bt_ok m \<Longrightarrow> bt_ok (bt_modify k f m)"
  by (simp add: bt_ok_def map_fst_bt_modify)

lemma bt_get_insert [simp]: "bt_ok m \<Longrightarrow> map_of (bt_insert k v m) = (map_of m)(k \<mapsto> v)"
proof (induction m)
  case Nil
  then show ?case by simp
next
  case (Cons p m)
  obtain k' v' where p: "p = (k', v')" by (cases p)
  have ok: "bt_ok m" using Cons.prems by (simp add: p bt_ok_Cons)
  show ?case
  proof (cases "k < k'")
    case True
    then show ?thesis by (auto simp: p fun_eq_iff)
  next
    case False
    then show ?thesis using Cons.IH ok by (auto simp: p fun_eq_iff)
  qed
qed

lemma bt_get_modify [simp]:
  "map_of (bt_modify k f m) = (map_of m)(k := map_option f (map_of m k))"
  by (induction m) (auto simp: fun_eq_iff)

lemma bt_ok_distinct: "bt_ok m \<Longrightarrow> distinct (map fst m)"
  by (simp add: bt_ok_def strict_sorted_iff)

lemma bt_ok_get: "bt_ok m \<Longrightarrow> (k, v) \<in> set m \<longleftrightarrow> map_of m k = Some v"
  using bt_ok_distinct map_of_eq_Some_iff by metis

lemma bt_values_iff: "bt_ok m \<Longrightarrow> v \<in> set (bt_values m) \<longleftrightarrow> (\<exists>k. map_of m k = Some v)"
  by (force simp: bt_values_def bt_ok_get [symmetric])

lemma bt_values_keyed:
  assumes "bt_ok m" "\<And>k v. map_of m k = Some v \<Longrightarrow> key v = k"
  shows "(\<exists>v\<in>set (bt_values m). key v = i \<and> P v) \<longleftrightarrow> (\<exists>v. map_of m i = Some v \<and> P v)"
  using assms(2) by (metis bt_values_iff [OF assms(1)])

text \<open>The representation is canonical: equal lookups, equal maps.\<close>

lemma bt_ext:
  assumes "bt_ok m1" "bt_ok m2" "map_of m1 = map_of m2"
  shows "m1 = m2"
proof -
  have sets: "set m1 = set m2"
    using bt_ok_get [OF assms(1)] bt_ok_get [OF assms(2)] assms(3) by auto
  have "inj_on fst (set m1)"
    using bt_ok_distinct [OF assms(1)] by (simp add: distinct_map)
  with sets have "inj_on fst (set m1 \<union> set m2)"
    by simp
  moreover have "sorted (map fst m1)" "distinct (map fst m1)"
    "sorted (map fst m2)" "distinct (map fst m2)"
    using assms by (simp_all add: bt_ok_def strict_sorted_iff)
  ultimately show ?thesis
    using sets by (metis map_sorted_distinct_set_unique)
qed

section \<open>The interface\<close>

text \<open>
  What a client of an ordered map may rely on: the abstraction \<open>get\<close>, and that every operation
  keeps the representation invariant.
\<close>

locale sorted_map =
  fixes empty :: "'m"
    and ins :: "'k \<Rightarrow> 'v \<Rightarrow> 'm \<Rightarrow> 'm"
    and modify :: "'k \<Rightarrow> ('v \<Rightarrow> 'v) \<Rightarrow> 'm \<Rightarrow> 'm"
    and get :: "'m \<Rightarrow> 'k \<Rightarrow> 'v option"
    and vals :: "'m \<Rightarrow> 'v list"
    and ok :: "'m \<Rightarrow> bool"
  assumes ok_empty: "ok empty"
    and ok_ins: "ok m \<Longrightarrow> ok (ins k v m)"
    and ok_modify: "ok m \<Longrightarrow> ok (modify k f m)"
    and get_empty: "get empty k = None"
    and get_ins: "ok m \<Longrightarrow> get (ins k v m) = (get m)(k \<mapsto> v)"
    and get_modify: "ok m \<Longrightarrow> get (modify k f m) = (get m)(k := map_option f (get m k))"
    and vals_iff: "ok m \<Longrightarrow> v \<in> set (vals m) \<longleftrightarrow> (\<exists>k. get m k = Some v)"
begin

lemma ok_fold:
  assumes "ok m" and "\<And>m x. ok m \<Longrightarrow> ok (step x m)"
  shows "ok (fold step xs m)"
  using assms(1) by (induction xs arbitrary: m) (auto intro: assms(2))

text \<open>A fold that inserts a key for some elements and leaves the map alone for the others keeps,
  for each key, the last one inserted.\<close>

definition upsert :: "('x \<Rightarrow> ('k \<times> 'v) option) \<Rightarrow> 'x \<Rightarrow> 'm \<Rightarrow> 'm" where
  "upsert f x m = (case f x of None \<Rightarrow> m | Some (k, v) \<Rightarrow> ins k v m)"

lemma ok_upsert: "ok m \<Longrightarrow> ok (upsert f x m)"
  by (auto simp: upsert_def ok_ins split: option.splits)

lemma ok_fold_upsert: "ok m \<Longrightarrow> ok (fold (upsert f) xs m)"
  by (rule ok_fold) (auto intro: ok_upsert)

definition keyed :: "('x \<Rightarrow> ('k \<times> 'v) option) \<Rightarrow> 'k \<Rightarrow> 'x \<Rightarrow> bool" where
  "keyed f k x \<longleftrightarrow> (\<exists>v. f x = Some (k, v))"

lemma get_fold_upsert:
  "get (fold (upsert f) xs empty) k =
     map_option (\<lambda>x. snd (the (f x))) (find_last (keyed f k) xs)"
proof (induction xs rule: rev_induct)
  case Nil
  then show ?case by (simp add: get_empty)
next
  case (snoc x xs)
  have ok: "ok (fold (upsert f) xs empty)"
    by (rule ok_fold_upsert [OF ok_empty])
  show ?case
  proof (cases "f x")
    case None
    then show ?thesis using snoc by (simp add: upsert_def [of f x] keyed_def [of f k x])
  next
    case (Some p)
    then obtain k' v where p: "f x = Some (k', v)" by (cases p) auto
    show ?thesis
      using snoc by (simp add: upsert_def [of f x] keyed_def [of f k x] p get_ins [OF ok])
  qed
qed

end

interpretation bt: sorted_map "[]" bt_insert bt_modify map_of bt_values bt_ok
  by unfold_locales (auto simp: bt_values_iff)

end
