(* ===== verification/Json.thy ===== *)
theory Json
  imports Ordmap
begin

text \<open>
  \<open>serde_json::Value\<close> as far as the program reads it: the accessors \<open>get\<close>, \<open>as_str\<close>,
  \<open>as_i64\<close>, \<open>as_u64\<close>, \<open>as_array\<close>, \<open>as_object\<close>, the \<open>json!\<close> object literal, and the
  recursive string rewriting of \<open>nfc_normalize\<close> in \<open>event.rs\<close>.  An object is a sorted
  association list, the \<open>BTreeMap\<close> that serde_json uses by default.  A number that is not an
  integer is kept as its literal text, since no accessor reads it.
\<close>

section \<open>Values and accessors\<close>

datatype json =
    JNull
  | JBool bool
  | JNum int
  | JReal string
  | JStr string
  | JArr "json list"
  | JObj "(string \<times> json) list"

fun json_get :: "json \<Rightarrow> string \<Rightarrow> json option" where
  "json_get (JObj kvs) k = map_of kvs k"
| "json_get _ k = None"

fun as_str :: "json \<Rightarrow> string option" where
  "as_str (JStr s) = Some s"
| "as_str _ = None"

fun as_i64 :: "json \<Rightarrow> int option" where
  "as_i64 (JNum n) = (if in_i64 n then Some n else None)"
| "as_i64 _ = None"

fun as_u64 :: "json \<Rightarrow> int option" where
  "as_u64 (JNum n) = (if in_u64 n then Some n else None)"
| "as_u64 _ = None"

fun as_bool :: "json \<Rightarrow> bool option" where
  "as_bool (JBool b) = Some b"
| "as_bool _ = None"

fun as_array :: "json \<Rightarrow> json list option" where
  "as_array (JArr xs) = Some xs"
| "as_array _ = None"

fun as_object :: "json \<Rightarrow> (string \<times> json) list option" where
  "as_object (JObj kvs) = Some kvs"
| "as_object _ = None"

text \<open>\<open>v.get(k).and_then(|x| x.as_str())\<close> and its integer kin.\<close>

definition get_str :: "json \<Rightarrow> string \<Rightarrow> string option" where
  "get_str v k = Option.bind (json_get v k) as_str"

definition get_i64 :: "json \<Rightarrow> string \<Rightarrow> int option" where
  "get_i64 v k = Option.bind (json_get v k) as_i64"

definition get_u64 :: "json \<Rightarrow> string \<Rightarrow> int option" where
  "get_u64 v k = Option.bind (json_get v k) as_u64"

section \<open>Object literals and updates\<close>

text \<open>\<open>json!({k: v, ..})\<close>: the pairs are inserted in order, so a repeated key keeps the last.\<close>

definition jobj :: "(string \<times> json) list \<Rightarrow> json" where
  "jobj kvs = JObj (fold (\<lambda>(k, v). bt_insert k v) kvs [])"

fun obj_insert :: "string \<Rightarrow> json \<Rightarrow> json \<Rightarrow> json" where
  "obj_insert k v (JObj kvs) = JObj (bt_insert k v kvs)"
| "obj_insert k v x = x"

fun obj_remove :: "string \<Rightarrow> json \<Rightarrow> json" where
  "obj_remove k (JObj kvs) = JObj (filter (\<lambda>p. fst p \<noteq> k) kvs)"
| "obj_remove k x = x"

definition is_object :: "json \<Rightarrow> bool" where
  "is_object v = (as_object v \<noteq> None)"

text \<open>The keys of a well-formed object are sorted, at every depth that matters here.\<close>

fun json_ok :: "json \<Rightarrow> bool" where
  "json_ok (JObj kvs) = bt_ok kvs"
| "json_ok _ = True"

section \<open>Laws\<close>

lemma bt_ok_fold_insert: "bt_ok m \<Longrightarrow> bt_ok (fold (\<lambda>(k, v). bt_insert k v) kvs m)"
  by (induction kvs arbitrary: m) auto

lemma json_ok_jobj [simp]: "json_ok (jobj kvs)"
  by (simp add: jobj_def bt_ok_fold_insert)

lemma map_of_fold_insert:
  "bt_ok m \<Longrightarrow> map_of (fold (\<lambda>(k, v). bt_insert k v) kvs m) k =
     (case map_of (rev kvs) k of None \<Rightarrow> map_of m k | Some v \<Rightarrow> Some v)"
proof (induction kvs arbitrary: m)
  case Nil
  then show ?case by simp
next
  case (Cons p kvs)
  obtain a b where p: "p = (a, b)" by (cases p)
  show ?case
    using Cons.prems by (simp add: p Cons.IH map_add_def split: option.splits)
qed

lemma json_get_jobj [simp]: "json_get (jobj kvs) k = map_of (rev kvs) k"
  by (simp add: jobj_def map_of_fold_insert split: option.splits)

lemma get_str_jobj [simp]: "get_str (jobj kvs) k = Option.bind (map_of (rev kvs) k) as_str"
  by (simp add: get_str_def)

lemma get_u64_jobj [simp]: "get_u64 (jobj kvs) k = Option.bind (map_of (rev kvs) k) as_u64"
  by (simp add: get_u64_def)

lemma get_i64_jobj [simp]: "get_i64 (jobj kvs) k = Option.bind (map_of (rev kvs) k) as_i64"
  by (simp add: get_i64_def)

lemma is_object_jobj [simp]: "is_object (jobj kvs)"
  by (simp add: jobj_def is_object_def)

lemma is_object_iff: "is_object v \<longleftrightarrow> (\<exists>kvs. v = JObj kvs)"
  by (cases v) (simp_all add: is_object_def)

lemma is_object_insert [simp]: "is_object (obj_insert k v x) = is_object x"
  by (cases x) (simp_all add: is_object_def)

lemma json_ok_obj_insert [simp]: "json_ok v \<Longrightarrow> json_ok (obj_insert k x v)"
  by (cases v) auto

lemma map_of_bt_insert_same [simp]: "map_of (bt_insert k v m) k = Some v"
  by (induction k v m rule: bt_insert.induct) auto

lemma map_of_bt_insert_other [simp]: "k' \<noteq> k \<Longrightarrow> map_of (bt_insert k v m) k' = map_of m k'"
  by (induction k v m rule: bt_insert.induct) auto

lemma json_get_obj_insert:
  "json_get (obj_insert k v x) k' =
     (if is_object x \<and> k' = k then Some v else json_get x k')"
  by (cases x) (auto simp: is_object_def)

lemma get_str_obj_insert:
  "get_str (obj_insert k v x) k' =
     (if is_object x \<and> k' = k then as_str v else get_str x k')"
  by (simp add: get_str_def json_get_obj_insert)

lemma json_get_obj_remove:
  "json_get (obj_remove k x) k' = (if k' = k then None else json_get x k')"
proof (cases x)
  case (JObj kvs)
  have "map_of (filter (\<lambda>p. fst p \<noteq> k) kvs) k' = (if k' = k then None else map_of kvs k')"
    by (induction kvs) auto
  then show ?thesis by (simp add: JObj)
qed simp_all

lemma json_ok_obj_remove [simp]: "json_ok v \<Longrightarrow> json_ok (obj_remove k v)"
  by (cases v) (simp_all add: bt_ok_def sorted_wrt_map sorted_wrt_filter)

lemma is_object_remove [simp]: "is_object (obj_remove k v) = is_object v"
  by (cases v) (simp_all add: is_object_def)

lemma json_obj_ext:
  assumes "json_ok x" "json_ok y" "is_object x" "is_object y"
    and "\<And>k. json_get x k = json_get y k"
  shows "x = y"
  using assms by (auto simp: is_object_iff fun_eq_iff intro: bt_ext)

section \<open>Unicode normalisation of every string\<close>

text \<open>
  \<open>nfc_normalize\<close> of \<open>event.rs\<close> (and of \<open>signing.rs\<close>, \<open>seal.rs\<close>): every string value is
  rewritten, object keys are not.  The rewriting itself is the \<open>unicode-normalization\<close> crate,
  the parameter \<open>n\<close>.
\<close>

primrec nfc_normalize :: "(string \<Rightarrow> string) \<Rightarrow> json \<Rightarrow> json" where
  "nfc_normalize n JNull = JNull"
| "nfc_normalize n (JBool b) = JBool b"
| "nfc_normalize n (JNum i) = JNum i"
| "nfc_normalize n (JReal r) = JReal r"
| "nfc_normalize n (JStr s) = JStr (n s)"
| "nfc_normalize n (JArr xs) = JArr (map (nfc_normalize n) xs)"
| "nfc_normalize n (JObj kvs) = JObj (map (map_prod id (nfc_normalize n)) kvs)"

lemma nfc_normalize_idem:
  assumes "\<And>s. n (n s) = n s"
  shows "nfc_normalize n (nfc_normalize n v) = nfc_normalize n v"
proof (induction v)
  case (JObj kvs)
  then show ?case by (fastforce simp: map_prod_def)
qed (simp_all add: assms)

lemma json_get_nfc: "json_get (nfc_normalize n v) k = map_option (nfc_normalize n) (json_get v k)"
proof (cases v)
  case (JObj kvs)
  have "map_of (map (map_prod id (nfc_normalize n)) kvs) k =
      map_option (nfc_normalize n) (map_of kvs k)"
    by (induction kvs) auto
  then show ?thesis by (simp add: JObj)
qed simp_all

end
