(* ===== verification/Event.thy ===== *)
theory Event
  imports Json
begin

text \<open>
  \<open>event.rs\<close>, \<open>sign.rs\<close> and \<open>error.rs\<close> of \<open>bossclaw-core\<close>: the signed event, its canonical
  bytes, its chain hash and its signature.

  The cryptographic and encoding crates (SHA-256, \<open>hex\<close>, \<open>ed25519-dalek\<close>, \<open>multibase\<close>,
  \<open>serde_jcs\<close>, \<open>unicode-normalization\<close>) are not part of the repository; they are the fields of
  \<open>crypto\<close>, an argument of the definitions that call them.  What the code relies on is stated by
  \<open>crypto_ok\<close>.
\<close>

section \<open>Errors\<close>

text \<open>\<open>BossclawError\<close>; a message keeps the constant part of its text.\<close>

datatype boss_error =
    Canonical
  | SignatureErr string
  | MultibaseErr
  | ChainErr string
  | Truncation
  | StoreErr
  | SerdeErr
  | IoErr string
  | InvalidInput string
  | EmbedErr
  | ReasonerErr

section \<open>Events\<close>

record model_meta =
  model_id :: string
  prompt_hash :: string
  source_event_ids :: "string list"

record event =
  ev_id :: string
  ev_ts :: string
  ev_valid_time :: "string option"
  ev_type :: string
  ev_content :: json
  ev_meta :: "model_meta option"
  ev_prev_hash :: string
  ev_hash :: "string option"
  ev_did :: string
  ev_sig :: "string option"

text \<open>The event type tags of \<open>graph.rs\<close>.\<close>

abbreviation "MEMORY_T \<equiv> ''memory''"
abbreviation "CONFIG_T \<equiv> ''config''"
abbreviation "ENTITY_T \<equiv> ''entity''"
abbreviation "PAGE_T \<equiv> ''page''"
abbreviation "SUPERSEDE_T \<equiv> ''supersede''"
abbreviation "SESSION_CAPTURED_T \<equiv> ''session_captured''"
abbreviation "SESSION_DELETED_T \<equiv> ''session_deleted''"
abbreviation "NOTE_RETIRED_T \<equiv> ''note_retired''"
abbreviation "PASSAGE_RETIRED_T \<equiv> ''passage_retired''"
abbreviation "UNRETIRE_T \<equiv> ''unretire''"
abbreviation "FILE_INGESTED_T \<equiv> ''file_ingested''"
abbreviation "GRANT_T \<equiv> ''grant''"
abbreviation "REVOKE_T \<equiv> ''revoke''"
abbreviation "WRITE_GRANT_T \<equiv> ''write_grant''"
abbreviation "WRITE_REVOKE_T \<equiv> ''write_revoke''"
abbreviation "FILE_WRITTEN_T \<equiv> ''file_written''"
abbreviation "WRITE_PROPOSAL_T \<equiv> ''write_proposal''"
abbreviation "WRITE_REJECTED_T \<equiv> ''write_rejected''"
abbreviation "WRITE_DECLINED_T \<equiv> ''write_declined''"
abbreviation "CONFLICT_PROPOSAL_T \<equiv> ''conflict_proposal''"
abbreviation "CONFLICT_RESOLVED_T \<equiv> ''conflict_resolved''"
abbreviation "COEXIST_ALLOWED_T \<equiv> ''coexist_allowed''"
abbreviation "DISMISSED_T \<equiv> ''dismissed''"
abbreviation "MANDATE_GRANT_T \<equiv> ''mandate_grant''"
abbreviation "MANDATE_REVOKE_T \<equiv> ''mandate_revoke''"
abbreviation "EXTERNAL_ORIGIN \<equiv> ''external''"
abbreviation "ENGINE_SIGNER_DID \<equiv> ''did:wba:bossclaw-engine''"

text \<open>An event as its builders write it: the chokepoint fills the id, the time, the link, the hash
  and the signature.\<close>

definition draft_event :: "string \<Rightarrow> json \<Rightarrow> model_meta option \<Rightarrow> event" where
  "draft_event t c m =
     \<lparr>ev_id = [], ev_ts = [], ev_valid_time = None, ev_type = t, ev_content = c, ev_meta = m,
      ev_prev_hash = [], ev_hash = None, ev_did = ENGINE_SIGNER_DID, ev_sig = None\<rparr>"

lemma draft_event_sel [simp]:
  "ev_type (draft_event t c m) = t"
  "ev_content (draft_event t c m) = c"
  "ev_meta (draft_event t c m) = m"
  "ev_valid_time (draft_event t c m) = None"
  by (simp_all add: draft_event_def)

text \<open>\<open>is_external\<close> of \<open>ingest.rs\<close>: the taint stamp.\<close>

definition is_external :: "event \<Rightarrow> bool" where
  "is_external ev \<longleftrightarrow> get_str (ev_content ev) ''origin'' = Some EXTERNAL_ORIGIN"

section \<open>Canonical bytes\<close>

record crypto =
  sha256 :: "bytes \<Rightarrow> bytes"
  hex_encode :: "bytes \<Rightarrow> string"
  hex_decode :: "string \<Rightarrow> bytes option"
  nfc :: "string \<Rightarrow> string"
  jcs :: "json \<Rightarrow> bytes option"
  ed_public :: "bytes \<Rightarrow> bytes"
  ed_sign :: "bytes \<Rightarrow> bytes \<Rightarrow> bytes"
  ed_verify :: "bytes \<Rightarrow> bytes \<Rightarrow> bytes \<Rightarrow> bool"
  mb_encode :: "bytes \<Rightarrow> string"
  mb_decode :: "string \<Rightarrow> bytes option"

definition opt_field :: "string \<Rightarrow> json option \<Rightarrow> (string \<times> json) list" where
  "opt_field k x = (case x of None \<Rightarrow> [] | Some v \<Rightarrow> [(k, v)])"

definition meta_to_value :: "model_meta \<Rightarrow> json" where
  "meta_to_value m = jobj
     [(''model_id'', JStr (model_id m)),
      (''prompt_hash'', JStr (prompt_hash m)),
      (''source_event_ids'', JArr (map JStr (source_event_ids m)))]"

text \<open>\<open>serde_json::to_value\<close> on the derived \<open>Serialize\<close>: \<open>type\<close> is the renamed field, and an
  absent optional field is skipped.\<close>

definition event_to_value :: "event \<Rightarrow> json" where
  "event_to_value ev = jobj
     ([(''id'', JStr (ev_id ev)), (''ts'', JStr (ev_ts ev))]
      @ opt_field ''valid_time'' (map_option JStr (ev_valid_time ev))
      @ [(''type'', JStr (ev_type ev)), (''content'', ev_content ev)]
      @ opt_field ''model_meta'' (map_option meta_to_value (ev_meta ev))
      @ [(''prev_hash'', JStr (ev_prev_hash ev))]
      @ opt_field ''hash'' (map_option JStr (ev_hash ev))
      @ [(''signed_by_did'', JStr (ev_did ev))]
      @ opt_field ''signature'' (map_option JStr (ev_sig ev)))"

definition canonical_value :: "crypto \<Rightarrow> event \<Rightarrow> json" where
  "canonical_value c ev =
     nfc_normalize (nfc c) (obj_remove ''signature'' (obj_remove ''hash'' (event_to_value ev)))"

definition canonical_bytes :: "crypto \<Rightarrow> event \<Rightarrow> (boss_error, bytes) result" where
  "canonical_bytes c ev = ok_or Canonical (jcs c (canonical_value c ev))"

text \<open>\<open>hash\<close> and \<open>signature\<close> do not enter the canonical bytes, so filling them in after hashing
  does not change the hash.\<close>

lemma map_of_opt_field: "map_of (rev (opt_field k x)) k' = (if k' = k then x else None)"
  by (simp add: opt_field_def split: option.splits)

lemma canonical_value_hash_sig [simp]:
  "canonical_value c (ev\<lparr>ev_hash := h, ev_sig := s\<rparr>) = canonical_value c ev"
proof -
  let ?v = "\<lambda>e. obj_remove ''signature'' (obj_remove ''hash'' (event_to_value e))"
  have "?v (ev\<lparr>ev_hash := h, ev_sig := s\<rparr>) = ?v ev"
  proof (rule json_obj_ext)
    fix k
    show "json_get (?v (ev\<lparr>ev_hash := h, ev_sig := s\<rparr>)) k = json_get (?v ev) k"
      by (simp add: json_get_obj_remove event_to_value_def map_of_opt_field map_add_def
          split: option.splits)
  qed (simp_all add: event_to_value_def)
  then show ?thesis by (simp add: canonical_value_def)
qed

section \<open>The chain hash\<close>

text \<open>\<open>compute_hash\<close>: SHA-256 of the 32 bytes of the previous hash and the canonical bytes.\<close>

definition compute_hash :: "crypto \<Rightarrow> event \<Rightarrow> (boss_error, bytes) result" where
  "compute_hash c ev =
     rbind (ok_or (ChainErr ''prev_hash not hex'') (hex_decode c (ev_prev_hash ev)))
       (\<lambda>prev. if length prev \<noteq> 32 then Inl (ChainErr ''prev_hash must be 32 bytes'')
         else rbind (canonical_bytes c ev) (\<lambda>canon. Inr (sha256 c (prev @ canon))))"

lemma compute_hash_hash_sig [simp]:
  "compute_hash c (ev\<lparr>ev_hash := h, ev_sig := s\<rparr>) = compute_hash c ev"
  by (simp add: compute_hash_def canonical_bytes_def cong: if_cong)

lemma compute_hash_InrD:
  assumes "compute_hash c ev = Inr h"
  obtains prev canon where "hex_decode c (ev_prev_hash ev) = Some prev" "length prev = 32"
    "canonical_bytes c ev = Inr canon" "h = sha256 c (prev @ canon)"
  using assms by (auto simp: compute_hash_def rbind_eq_Inr split: if_splits)

section \<open>Signatures\<close>

text \<open>\<open>sign_hash\<close> and \<open>verify_hash\<close> of \<open>sign.rs\<close>.  The secret key is a byte string; the verifying key
  is derived from it.\<close>

definition sign_hash :: "crypto \<Rightarrow> bytes \<Rightarrow> bytes \<Rightarrow> string" where
  "sign_hash c hash key = mb_encode c (ed_sign c key hash)"

definition verify_hash :: "crypto \<Rightarrow> bytes \<Rightarrow> string \<Rightarrow> bytes \<Rightarrow> (boss_error, unit) result" where
  "verify_hash c hash signature_mb pub =
     rbind (ok_or MultibaseErr (mb_decode c signature_mb))
       (\<lambda>raw. if length raw \<noteq> 64 then Inl (SignatureErr ''sig must be 64 bytes'')
         else if ed_verify c pub hash raw then Inr ()
         else Inl (SignatureErr ''verification mismatch''))"

text \<open>The documented behaviour of the crates for one key: encodings round-trip, a signature has 64
  bytes and verifies under the public key, a SHA-256 digest has 32 bytes, and the 64 zero digits of
  the genesis link decode to 32 bytes.\<close>

definition GENESIS :: string where
  "GENESIS = replicate 64 CHR ''0''"

definition crypto_ok :: "crypto \<Rightarrow> bytes \<Rightarrow> bool" where
  "crypto_ok c key \<longleftrightarrow>
     (\<forall>b. hex_decode c (hex_encode c b) = Some b)
     \<and> (\<exists>z. hex_decode c GENESIS = Some z \<and> length z = 32)
     \<and> (\<forall>b. length (sha256 c b) = 32)
     \<and> (\<forall>b. mb_decode c (mb_encode c b) = Some b)
     \<and> (\<forall>m. length (ed_sign c key m) = 64 \<and> ed_verify c (ed_public c key) m (ed_sign c key m))"

lemma verify_sign_hash:
  "crypto_ok c key \<Longrightarrow> verify_hash c h (sign_hash c h key) (ed_public c key) = Inr ()"
  by (simp add: crypto_ok_def verify_hash_def sign_hash_def)

text \<open>Concrete stand-ins, used only to show that the hypotheses above can hold together: a
  "hash" that keeps 32 bytes of the canonical part, which here is the event id.\<close>

definition demo_zeros :: bytes where
  "demo_zeros = replicate 32 CHR ''0''"

definition demo_crypto :: crypto where
  "demo_crypto =
     \<lparr>sha256 = (\<lambda>b. take 32 (drop 32 b @ replicate 32 CHR ''.'')),
      hex_encode = (\<lambda>b. if b = demo_zeros then GENESIS else CHR ''h'' # b),
      hex_decode = (\<lambda>s. if s = GENESIS then Some demo_zeros
        else (case s of [] \<Rightarrow> None | _ # b \<Rightarrow> Some b)),
      nfc = (\<lambda>s. s),
      jcs = (\<lambda>v. get_str v ''id''),
      ed_public = (\<lambda>k. k),
      ed_sign = (\<lambda>k m. replicate 64 CHR ''s''),
      ed_verify = (\<lambda>p m s. s = replicate 64 CHR ''s''),
      mb_encode = (\<lambda>b. CHR ''z'' # b),
      mb_decode = (\<lambda>s. case s of [] \<Rightarrow> None | _ # b \<Rightarrow> Some b)\<rparr>"

lemma demo_crypto_ok: "crypto_ok demo_crypto k"
proof -
  have "CHR ''h'' # b \<noteq> GENESIS" for b
    by (simp add: GENESIS_def numeral_eq_Suc)
  then show ?thesis
    by (auto simp: crypto_ok_def demo_crypto_def demo_zeros_def min_def)
qed

end
