(* ===== verification/EventLog.thy ===== *)
theory EventLog
  imports Event
begin

text \<open>
  The append-only event log of \<open>log.rs\<close>: the append chokepoint with its taint stamp, the chain
  verifier, the readers, and the high-water mark of \<open>highwater.rs\<close>.

  The \<open>events\<close> table is the list of its rows in \<open>seq\<close> order; the code never updates or deletes a
  row.  A row keeps the indexed columns beside the payload; the payload column is the event that
  serde reads from it, or \<open>None\<close> when the text does not parse.  \<open>Ulid::new()\<close> and \<open>Utc::now()\<close>
  are the argument \<open>stamp\<close> of the operations that append.
\<close>

section \<open>State\<close>

record row =
  r_id :: string
  r_ts :: string
  r_type :: string
  r_payload :: "event option"
  r_prev :: string
  r_hash :: string

type_synonym log = "row list"
type_synonym stamp = "string \<times> string"

section \<open>Readers\<close>

definition lookup_row :: "log \<Rightarrow> string \<Rightarrow> row option" where
  "lookup_row log i = List.find (\<lambda>r. r_id r = i) log"

definition event_by_id :: "log \<Rightarrow> string \<Rightarrow> (boss_error, event option) result" where
  "event_by_id log i =
     (case lookup_row log i of None \<Rightarrow> Inr None
      | Some r \<Rightarrow> (case r_payload r of None \<Rightarrow> Inl SerdeErr | Some ev \<Rightarrow> Inr (Some ev)))"

fun seq_from :: "nat \<Rightarrow> log \<Rightarrow> string \<Rightarrow> nat option" where
  "seq_from n [] i = None"
| "seq_from n (r # rs) i = (if r_id r = i then Some n else seq_from (Suc n) rs i)"

definition seq_of_event :: "log \<Rightarrow> string \<Rightarrow> nat option" where
  "seq_of_event log i = seq_from 1 log i"

fun payloads :: "log \<Rightarrow> (boss_error, event list) result" where
  "payloads [] = Inr []"
| "payloads (r # rs) =
     (case r_payload r of None \<Rightarrow> Inl SerdeErr
      | Some ev \<Rightarrow> rbind (payloads rs) (\<lambda>evs. Inr (ev # evs)))"

definition stream_all :: "log \<Rightarrow> (boss_error, event list) result" where
  "stream_all log = payloads log"

definition events_of_types :: "string list \<Rightarrow> log \<Rightarrow> (boss_error, event list) result" where
  "events_of_types types log =
     (if types = [] then Inr []
      else payloads (filter (\<lambda>r. r_type r \<in> set types) log))"

definition last_hash :: "log \<Rightarrow> string" where
  "last_hash log = (if log = [] then GENESIS else r_hash (last log))"

section \<open>The append chokepoint\<close>

definition reject_empty_tier_b :: "event \<Rightarrow> (boss_error, unit) result" where
  "reject_empty_tier_b ev =
     (case ev_meta ev of None \<Rightarrow> Inr ()
      | Some m \<Rightarrow> if source_event_ids m = []
          then Inl (ChainErr ''Tier-B event requires non-empty source_event_ids'')
          else Inr ())"

text \<open>A cited source that is missing or does not parse counts as external.\<close>

definition source_is_external_in_tx :: "log \<Rightarrow> string \<Rightarrow> bool" where
  "source_is_external_in_tx log i =
     (case lookup_row log i of None \<Rightarrow> True
      | Some r \<Rightarrow> (case r_payload r of None \<Rightarrow> True | Some ev \<Rightarrow> is_external ev))"

definition tainted :: "log \<Rightarrow> event \<Rightarrow> bool" where
  "tainted log ev =
     (case ev_meta ev of None \<Rightarrow> False
      | Some m \<Rightarrow> list_ex (source_is_external_in_tx log) (source_event_ids m))"

definition stamp_origin :: "log \<Rightarrow> event \<Rightarrow> event" where
  "stamp_origin log ev =
     (if tainted log ev
      then ev\<lparr>ev_content := obj_insert ''origin'' (JStr EXTERNAL_ORIGIN) (ev_content ev)\<rparr>
      else ev)"

definition prepare_event :: "stamp \<Rightarrow> log \<Rightarrow> event \<Rightarrow> event" where
  "prepare_event stamp log ev =
     (stamp_origin log ev)\<lparr>ev_id := fst stamp, ev_ts := snd stamp, ev_prev_hash := last_hash log,
       ev_hash := None, ev_sig := None\<rparr>"

definition append_event_in_tx ::
    "crypto \<Rightarrow> bytes \<Rightarrow> stamp \<Rightarrow> event \<Rightarrow> log \<Rightarrow> (boss_error, string \<times> log) result" where
  "append_event_in_tx c key stamp event log =
     (let ev = prepare_event stamp log event in
      rbind (compute_hash c ev) (\<lambda>hash.
        let hash_hex = hex_encode c hash;
            ev' = ev\<lparr>ev_hash := Some hash_hex, ev_sig := Some (sign_hash c hash key)\<rparr>
        in if \<exists>r\<in>set log. r_id r = ev_id ev \<or> r_hash r = hash_hex
           then Inl StoreErr
           else Inr (ev_id ev,
             log @ [\<lparr>r_id = ev_id ev, r_ts = ev_ts ev, r_type = ev_type ev,
                     r_payload = Some ev', r_prev = ev_prev_hash ev, r_hash = hash_hex\<rparr>])))"

definition append ::
    "crypto \<Rightarrow> bytes \<Rightarrow> stamp \<Rightarrow> event \<Rightarrow> log \<Rightarrow> (boss_error, string \<times> log) result" where
  "append c key stamp ev log =
     rbind (reject_empty_tier_b ev) (\<lambda>_. append_event_in_tx c key stamp ev log)"

text \<open>\<open>append_pair\<close>: both rows in one transaction, so an error leaves the log as it was.\<close>

definition append_pair ::
    "crypto \<Rightarrow> bytes \<Rightarrow> stamp \<Rightarrow> event \<Rightarrow> stamp \<Rightarrow> event \<Rightarrow> log
     \<Rightarrow> (boss_error, (string \<times> string) \<times> log) result" where
  "append_pair c key s1 first s2 second log =
     rbind (reject_empty_tier_b first) (\<lambda>_.
     rbind (reject_empty_tier_b second) (\<lambda>_.
     rbind (append_event_in_tx c key s1 first log) (\<lambda>(id1, log1).
     rbind (append_event_in_tx c key s2 second log1) (\<lambda>(id2, log2).
       Inr ((id1, id2), log2)))))"

section \<open>Verification\<close>

text \<open>The body of the loop of \<open>verify_rows\<close>, and the loop.\<close>

definition verify_row :: "crypto \<Rightarrow> bytes \<Rightarrow> string \<Rightarrow> row \<Rightarrow> (boss_error, unit) result" where
  "verify_row c pub expected_prev r =
     (if r_prev r \<noteq> expected_prev then Inl (ChainErr ''broken link'')
      else case r_payload r of None \<Rightarrow> Inl SerdeErr
      | Some ev \<Rightarrow>
        rbind (compute_hash c ev) (\<lambda>hash.
          if hex_encode c hash \<noteq> r_hash r then Inl (ChainErr ''hash mismatch'')
          else case ev_sig ev of None \<Rightarrow> Inl (ChainErr ''missing signature'')
          | Some sg \<Rightarrow> verify_hash c hash sg pub))"

fun verify_rows :: "crypto \<Rightarrow> bytes \<Rightarrow> string \<Rightarrow> log \<Rightarrow> (boss_error, unit) result" where
  "verify_rows c pub expected_prev [] = Inr ()"
| "verify_rows c pub expected_prev (r # rs) =
     rbind (verify_row c pub expected_prev r) (\<lambda>_. verify_rows c pub (r_hash r) rs)"

definition verify_chain :: "crypto \<Rightarrow> bytes \<Rightarrow> log \<Rightarrow> (boss_error, unit) result" where
  "verify_chain c key log = verify_rows c (ed_public c key) GENESIS log"

text \<open>\<open>WHERE seq > cursor\<close>: the rows after the cursor's row.\<close>

definition rows_after :: "string \<Rightarrow> log \<Rightarrow> log" where
  "rows_after i log = drop 1 (dropWhile (\<lambda>r. r_id r \<noteq> i) log)"

definition verify_chain_since ::
    "crypto \<Rightarrow> bytes \<Rightarrow> string option \<Rightarrow> log \<Rightarrow> (boss_error, unit) result" where
  "verify_chain_since c key from log =
     (case from of None \<Rightarrow> verify_chain c key log
      | Some i \<Rightarrow>
        (case lookup_row log i of
           None \<Rightarrow> Inl (ChainErr ''verify_chain_since: cursor event not found'')
         | Some r \<Rightarrow> verify_rows c (ed_public c key) (r_hash r) (rows_after i log)))"

section \<open>The high-water mark\<close>

record mark =
  mark_count :: int
  mark_tip_hash :: string

definition checkpoint_highwater :: "log \<Rightarrow> mark" where
  "checkpoint_highwater log = \<lparr>mark_count = int (length log), mark_tip_hash = last_hash log\<rparr>"

text \<open>\<open>open_with_highwater\<close>: the loaded mark, if any, against the live row count.\<close>

definition open_with_highwater :: "mark option \<Rightarrow> log \<Rightarrow> (boss_error, log) result" where
  "open_with_highwater m log =
     (case m of None \<Rightarrow> Inr log
      | Some mk \<Rightarrow> if int (length log) < mark_count mk then Inl Truncation else Inr log)"

section \<open>What an append does\<close>

lemma append_in_tx_InrD:
  assumes "append_event_in_tx c key st ev log = Inr (i, log')"
  obtains hash where
    "compute_hash c (prepare_event st log ev) = Inr hash" "i = fst st"
    "\<forall>r\<in>set log. r_id r \<noteq> i \<and> r_hash r \<noteq> hex_encode c hash"
    "log' = log @ [\<lparr>r_id = i, r_ts = snd st, r_type = ev_type ev,
       r_payload = Some ((prepare_event st log ev)\<lparr>ev_hash := Some (hex_encode c hash),
         ev_sig := Some (sign_hash c hash key)\<rparr>),
       r_prev = last_hash log, r_hash = hex_encode c hash\<rparr>]"
proof -
  have sel: "ev_id (prepare_event st log ev) = fst st" "ev_ts (prepare_event st log ev) = snd st"
    "ev_prev_hash (prepare_event st log ev) = last_hash log"
    "ev_type (prepare_event st log ev) = ev_type ev"
    by (simp_all add: prepare_event_def stamp_origin_def)
  show ?thesis
    using assms
    by (auto simp: append_event_in_tx_def Let_def rbind_eq_Inr sel split: if_splits intro!: that)
qed

lemma append_InrD:
  assumes "append c key st ev log = Inr (i, log')"
  shows "reject_empty_tier_b ev = Inr ()" "append_event_in_tx c key st ev log = Inr (i, log')"
  using assms by (auto simp: append_def rbind_eq_Inr)

lemma append_pair_InrD:
  assumes "append_pair c key s1 e1 s2 e2 log = Inr ((i1, i2), log2)"
  obtains log1 where "append c key s1 e1 log = Inr (i1, log1)" "append c key s2 e2 log1 = Inr (i2, log2)"
  using assms by (auto simp: append_pair_def append_def rbind_eq_Inr)

section \<open>How the readers see an appended row\<close>

lemma payloads_append:
  "payloads (xs @ ys) = rbind (payloads xs) (\<lambda>a. rbind (payloads ys) (\<lambda>b. Inr (a @ b)))"
  by (induction xs) (auto simp: rbind_assoc split: option.split intro!: arg_cong [where f = "rbind _"])

lemma events_of_types_snoc [log_simps]:
  "types \<noteq> [] \<Longrightarrow> r_payload r = Some ev \<Longrightarrow> events_of_types types (log @ [r]) =
     rbind (events_of_types types log) (\<lambda>evs. Inr (if r_type r \<in> set types then evs @ [ev] else evs))"
  by (cases "payloads (filter (\<lambda>r. r_type r \<in> set types) log)")
    (simp_all add: events_of_types_def payloads_append)

lemma append_row:
  assumes "append c key st ev log = Inr (i, log')"
  obtains r ev' where "log' = log @ [r]" "r_id r = i" "r_type r = ev_type ev" "r_payload r = Some ev'"
    "ev_id ev' = i" "ev_type ev' = ev_type ev" "ev_content ev' = ev_content (stamp_origin log ev)"
proof -
  obtain hash where h: "i = fst st" "log' = log @ [\<lparr>r_id = i, r_ts = snd st, r_type = ev_type ev,
       r_payload = Some ((prepare_event st log ev)\<lparr>ev_hash := Some (hex_encode c hash),
         ev_sig := Some (sign_hash c hash key)\<rparr>),
       r_prev = last_hash log, r_hash = hex_encode c hash\<rparr>]"
    using append_in_tx_InrD [OF append_InrD(2) [OF assms]] by metis
  show ?thesis
    using that [OF h(2)] h(1) by (simp add: prepare_event_def stamp_origin_def)
qed

lemma get_str_stamp:
  "f \<noteq> ''origin'' \<Longrightarrow> get_str (ev_content (stamp_origin log ev)) f = get_str (ev_content ev) f"
  by (simp add: stamp_origin_def get_str_obj_insert)

section \<open>Invariants of the log\<close>

text \<open>The columns repeat the payload, ids and hashes are unique, and the chain verifies.\<close>

definition row_ok :: "row \<Rightarrow> bool" where
  "row_ok r = (case r_payload r of None \<Rightarrow> False
     | Some ev \<Rightarrow> ev_id ev = r_id r \<and> ev_ts ev = r_ts r \<and> ev_type ev = r_type r
        \<and> ev_hash ev = Some (r_hash r) \<and> ev_prev_hash ev = r_prev r)"

lemma row_ok_iff: "row_ok r \<longleftrightarrow> (\<exists>ev. r_payload r = Some ev \<and> ev_id ev = r_id r \<and> ev_ts ev = r_ts r
      \<and> ev_type ev = r_type r \<and> ev_hash ev = Some (r_hash r) \<and> ev_prev_hash ev = r_prev r)"
  by (simp add: row_ok_def split: option.split)

definition log_ok :: "crypto \<Rightarrow> bytes \<Rightarrow> log \<Rightarrow> bool" where
  "log_ok c key log \<longleftrightarrow>
     (\<forall>r\<in>set log. row_ok r) \<and> distinct (map r_id log) \<and> distinct (map r_hash log)
     \<and> verify_chain c key log = Inr ()"

lemma verify_rows_append:
  "verify_rows c pub prev (xs @ ys) =
     rbind (verify_rows c pub prev xs)
       (\<lambda>_. verify_rows c pub (if xs = [] then prev else r_hash (last xs)) ys)"
  by (induction xs arbitrary: prev) (auto simp: rbind_assoc)

lemma log_ok_Nil [simp]: "log_ok c key []"
  by (simp add: log_ok_def verify_chain_def)

lemma append_in_tx_log_ok:
  assumes "crypto_ok c key" "log_ok c key log" "append_event_in_tx c key st ev log = Inr (i, log')"
  shows "log_ok c key log'"
proof -
  obtain hash where h: "compute_hash c (prepare_event st log ev) = Inr hash" "i = fst st"
    and fresh: "\<forall>r\<in>set log. r_id r \<noteq> i \<and> r_hash r \<noteq> hex_encode c hash"
    and log': "log' = log @ [\<lparr>r_id = i, r_ts = snd st, r_type = ev_type ev,
       r_payload = Some ((prepare_event st log ev)\<lparr>ev_hash := Some (hex_encode c hash),
         ev_sig := Some (sign_hash c hash key)\<rparr>),
       r_prev = last_hash log, r_hash = hex_encode c hash\<rparr>]"
    using assms(3) by (rule append_in_tx_InrD)
  have "verify_chain c key log' = Inr ()"
    using assms(1,2) h(1)
    by (auto simp: log_ok_def verify_chain_def log' verify_rows_append verify_row_def
        verify_sign_hash last_hash_def)
  then show ?thesis
    using assms(2) fresh h(2)
    by (auto simp: log_ok_def log' row_ok_iff prepare_event_def stamp_origin_def)
qed

lemma append_log_ok [inv_intros]:
  "crypto_ok c key \<Longrightarrow> log_ok c key log \<Longrightarrow> append c key st ev log = Inr (i, log') \<Longrightarrow> log_ok c key log'"
  by (blast dest: append_InrD append_in_tx_log_ok)

lemma append_pair_log_ok [inv_intros]:
  "crypto_ok c key \<Longrightarrow> log_ok c key log \<Longrightarrow>
   append_pair c key s1 e1 s2 e2 log = Inr (ids, log') \<Longrightarrow> log_ok c key log'"
  by (cases ids) (blast elim: append_pair_InrD dest: append_log_ok)

section \<open>Reachable logs\<close>

text \<open>The logs that the two append operations can build from the empty table.\<close>

inductive reachable_log :: "crypto \<Rightarrow> bytes \<Rightarrow> log \<Rightarrow> bool" for c key where
  start: "reachable_log c key []"
| one: "reachable_log c key log \<Longrightarrow> append c key st ev log = Inr (i, log') \<Longrightarrow>
     reachable_log c key log'"
| two: "reachable_log c key log \<Longrightarrow> append_pair c key s1 e1 s2 e2 log = Inr (ids, log') \<Longrightarrow>
     reachable_log c key log'"

text \<open>C5. Every log the engine can build verifies: the columns agree with the payloads, ids and
  hashes are unique, and \<open>verify_chain\<close> accepts it.\<close>

theorem reachable_log_ok:
  assumes "crypto_ok c key" "reachable_log c key log"
  shows "log_ok c key log"
  using assms(2) by (induction rule: reachable_log.induct) (auto intro: inv_intros assms(1))

section \<open>Taint\<close>

text \<open>A Tier-B row with an object payload cites only earlier, clean rows, or is stamped itself.\<close>

definition taint_inv :: "log \<Rightarrow> bool" where
  "taint_inv log \<longleftrightarrow>
     (\<forall>xs r ys ev m src. log = xs @ r # ys \<longrightarrow> r_payload r = Some ev \<longrightarrow> ev_meta ev = Some m \<longrightarrow>
        is_object (ev_content ev) \<longrightarrow> src \<in> set (source_event_ids m) \<longrightarrow>
        is_external ev \<or> \<not> source_is_external_in_tx xs src)"

lemma is_external_stamp:
  "tainted log ev \<Longrightarrow> is_object (ev_content ev) \<Longrightarrow> is_external (stamp_origin log ev)"
  by (simp add: stamp_origin_def is_external_def get_str_obj_insert)

lemma is_object_stamp: "is_object (ev_content (stamp_origin log ev)) = is_object (ev_content ev)"
  by (simp add: stamp_origin_def)

lemma ev_meta_stamp: "ev_meta (stamp_origin log ev) = ev_meta ev"
  by (simp add: stamp_origin_def)

lemma append_taint_inv:
  assumes inv: "taint_inv log" and app: "append c key st ev log = Inr (i, log')"
  shows "taint_inv log'"
  unfolding taint_inv_def
proof (intro allI impI)
  fix xs r ys e m src
  assume split: "log' = xs @ r # ys" and pl: "r_payload r = Some e" and m: "ev_meta e = Some m"
    and obj: "is_object (ev_content e)" and src: "src \<in> set (source_event_ids m)"
  obtain new where log': "log' = log @ [new]" and new:
      "\<exists>h s. r_payload new = Some ((prepare_event st log ev)\<lparr>ev_hash := h, ev_sig := s\<rparr>)"
    using append_in_tx_InrD [OF append_InrD(2) [OF app]] by (metis row.select_convs(4))
  show "is_external e \<or> \<not> source_is_external_in_tx xs src"
  proof (cases ys rule: rev_cases)
    case Nil
    with split log' have xs: "xs = log" and r: "r = new" by simp_all
    obtain h s where e: "e = (prepare_event st log ev)\<lparr>ev_hash := h, ev_sig := s\<rparr>"
      using new pl r by auto
    have cont: "ev_content e = ev_content (stamp_origin log ev)"
      and meta: "ev_meta ev = Some m"
      using m by (simp_all add: e prepare_event_def ev_meta_stamp)
    show ?thesis
    proof (cases "source_is_external_in_tx log src")
      case True
      then have "tainted log ev"
        using src by (auto simp: tainted_def meta list_ex_iff)
      moreover have "is_object (ev_content ev)"
        using obj by (simp add: cont is_object_stamp)
      ultimately show ?thesis
        using is_external_stamp by (simp add: is_external_def cont)
    qed (simp add: xs)
  next
    case (snoc ys' z)
    then have "log = xs @ r # ys'" using split log' by simp
    then show ?thesis
      using inv pl m obj src by (auto simp: taint_inv_def)
  qed
qed

lemma reachable_taint_inv: "reachable_log c key log \<Longrightarrow> taint_inv log"
proof (induction rule: reachable_log.induct)
  case start
  then show ?case by (simp add: taint_inv_def)
next
  case (one log st ev i log')
  then show ?case by (blast intro: append_taint_inv)
next
  case (two log s1 e1 s2 e2 ids log')
  then show ?case by (cases ids) (blast elim: append_pair_InrD intro: append_taint_inv)
qed

text \<open>
  The provenance walk: an id is externally influenced when no event has it, when its event is
  stamped, or when its event is a model-derived one (with an object payload, as every builder
  writes) that cites an externally influenced id.
\<close>

inductive influenced :: "log \<Rightarrow> string \<Rightarrow> bool" for log where
  missing: "lookup_row log i = None \<Longrightarrow> influenced log i"
| stamped: "lookup_row log i = Some r \<Longrightarrow> r_payload r = Some ev \<Longrightarrow> is_external ev \<Longrightarrow>
     influenced log i"
| derived: "lookup_row log i = Some r \<Longrightarrow> r_payload r = Some ev \<Longrightarrow> ev_meta ev = Some m \<Longrightarrow>
     is_object (ev_content ev) \<Longrightarrow> src \<in> set (source_event_ids m) \<Longrightarrow> influenced log src \<Longrightarrow>
     influenced log i"

lemma lookup_row_split:
  assumes "lookup_row log i = Some r"
  obtains xs ys where "log = xs @ r # ys" "r_id r = i"
  using assms find_SomeD [of "\<lambda>r. r_id r = i" log r] split_list [of r log]
  by (auto simp: lookup_row_def)

lemma lookup_row_append:
  "lookup_row (xs @ ys) i = (case lookup_row xs i of None \<Rightarrow> lookup_row ys i | Some r \<Rightarrow> Some r)"
  by (simp add: lookup_row_def find_append split: option.split)

text \<open>C1. Taint cannot be laundered through derivation: in every log the engine can build, whatever
  chain of citations leads from an event to an external or missing source, the event itself carries
  the external stamp.\<close>

theorem taint_not_laundered:
  assumes "reachable_log c key log" and "influenced log i"
    and "lookup_row log i = Some r" and "r_payload r = Some ev"
  shows "is_external ev"
  using assms(2-4)
proof (induction arbitrary: r ev rule: influenced.induct)
  case (missing i)
  then show ?case by simp
next
  case (stamped i r' ev')
  then show ?case by simp
next
  case (derived i r' ev' m src)
  have inv: "taint_inv log"
    using assms(1) by (rule reachable_taint_inv)
  obtain xs ys where split: "log = xs @ r' # ys"
    using derived.hyps(1) by (rule lookup_row_split)
  have "is_external ev' \<or> \<not> source_is_external_in_tx xs src"
    using inv split derived.hyps by (auto simp: taint_inv_def)
  moreover have "source_is_external_in_tx xs src"
  proof (cases "lookup_row xs src")
    case None
    then show ?thesis by (simp add: source_is_external_in_tx_def)
  next
    case (Some q)
    then have "lookup_row log src = Some q"
      by (simp add: split lookup_row_append)
    then show ?thesis
      using derived.IH Some by (auto simp: source_is_external_in_tx_def split: option.splits)
  qed
  ultimately show ?case using derived.hyps derived.prems by simp
qed

section \<open>Incremental verification\<close>

lemma rows_after_split:
  assumes "r_id r = i" "\<forall>q\<in>set xs. r_id q \<noteq> i"
  shows "rows_after i (xs @ r # ys) = ys"
  using assms by (induction xs) (auto simp: rows_after_def)

lemma lookup_row_first:
  assumes "lookup_row log i = Some r"
  obtains xs ys where "log = xs @ r # ys" "r_id r = i" "\<forall>q\<in>set xs. r_id q \<noteq> i"
proof -
  have "\<exists>xs ys. log = xs @ r # ys \<and> r_id r = i \<and> (\<forall>q\<in>set xs. r_id q \<noteq> i)"
    using assms
  proof (induction log)
    case Nil
    then show ?case by (simp add: lookup_row_def)
  next
    case (Cons q log)
    show ?case
    proof (cases "r_id q = i")
      case True
      then show ?thesis using Cons.prems by (intro exI [of _ "[]"] exI [of _ log]) (auto simp: lookup_row_def)
    next
      case False
      then obtain xs ys where "log = xs @ r # ys" "r_id r = i" "\<forall>q\<in>set xs. r_id q \<noteq> i"
        using Cons by (auto simp: lookup_row_def)
      then show ?thesis using False by (intro exI [of _ "q # xs"] exI [of _ ys]) simp
    qed
  qed
  then show ?thesis using that by blast
qed

text \<open>Resuming from a cursor is sound and complete: for any table content, tampered or not, the
  whole chain verifies exactly when the rows up to the cursor verify and the incremental check from
  the cursor succeeds.\<close>

lemma verify_chain_since_split:
  assumes "lookup_row log i = Some r"
  shows "verify_chain c key log = Inr () \<longleftrightarrow>
    verify_chain c key (takeWhile (\<lambda>q. r_id q \<noteq> i) log @ [r]) = Inr ()
    \<and> verify_chain_since c key (Some i) log = Inr ()"
proof -
  obtain xs ys where split: "log = xs @ r # ys" "r_id r = i" "\<forall>q\<in>set xs. r_id q \<noteq> i"
    using assms by (rule lookup_row_first)
  have "takeWhile (\<lambda>q. r_id q \<noteq> i) log = xs"
    using split by (simp add: takeWhile_append2)
  moreover have "rows_after i log = ys"
    using split rows_after_split by simp
  moreover have "verify_chain c key log = rbind (verify_chain c key (xs @ [r]))
      (\<lambda>_. verify_rows c (ed_public c key) (r_hash r) ys)"
    using verify_rows_append [of c "ed_public c key" GENESIS "xs @ [r]" ys]
    by (simp add: verify_chain_def split(1))
  ultimately show ?thesis
    by (auto simp: verify_chain_since_def assms rbind_eq_Inr)
qed

section \<open>What a verified chain pins down\<close>

lemma verify_row_InrD:
  assumes "verify_row c pub prev r = Inr ()"
  obtains ev hash where "r_prev r = prev" "r_payload r = Some ev" "compute_hash c ev = Inr hash"
    "hex_encode c hash = r_hash r"
  using assms that by (auto simp: verify_row_def rbind_eq_Inr split: if_splits option.splits)

text \<open>The byte string that is hashed for a row.\<close>

definition row_preimage :: "crypto \<Rightarrow> row \<Rightarrow> bytes" where
  "row_preimage c r =
     (case r_payload r of None \<Rightarrow> []
      | Some ev \<Rightarrow> (case (hex_decode c (ev_prev_hash ev), canonical_bytes c ev) of
          (Some prev, Inr canon) \<Rightarrow> prev @ canon | _ \<Rightarrow> []))"

definition row_canon :: "crypto \<Rightarrow> row \<Rightarrow> (boss_error, bytes) result" where
  "row_canon c r =
     (case r_payload r of None \<Rightarrow> Inl SerdeErr | Some ev \<Rightarrow> canonical_bytes c ev)"

lemma verify_rows_snoc:
  "verify_rows c pub prev (xs @ [r]) = Inr () \<longleftrightarrow> verify_rows c pub prev xs = Inr ()
     \<and> verify_row c pub (if xs = [] then prev else r_hash (last xs)) r = Inr ()"
  by (auto simp: verify_rows_append rbind_eq_Inr)

lemma verified_last_hash:
  assumes "verify_chain c key xs = Inr ()" "xs \<noteq> []"
  shows "\<exists>h. last_hash xs = hex_encode c h"
proof (cases xs rule: rev_cases)
  case Nil
  then show ?thesis using assms(2) by simp
next
  case (snoc ys r)
  then obtain prev where "verify_row c (ed_public c key) prev r = Inr ()"
    using assms(1) by (auto simp: verify_chain_def verify_rows_snoc)
  then have "\<exists>h. hex_encode c h = r_hash r"
    by (rule verify_row_InrD) blast
  then show ?thesis
    by (auto simp: snoc last_hash_def intro: sym)
qed

text \<open>The signed payload names the same predecessor as the unsigned column; the verifier does not check it.\<close>

definition signed_link :: "row \<Rightarrow> bool" where
  "signed_link r = (case r_payload r of None \<Rightarrow> False | Some ev \<Rightarrow> ev_prev_hash ev = r_prev r)"

lemma row_ok_signed_link: "row_ok r \<Longrightarrow> signed_link r"
  by (auto simp: row_ok_iff signed_link_def)

lemma verified_row_facts:
  assumes "crypto_ok c key" "verify_row c pub prev r = Inr ()" "signed_link r"
  obtains p canon where "hex_decode c prev = Some p" "length p = 32" "row_canon c r = Inr canon"
    "row_preimage c r = p @ canon" "r_hash r = hex_encode c (sha256 c (p @ canon))"
proof -
  obtain ev hash where v: "r_prev r = prev" "r_payload r = Some ev" "compute_hash c ev = Inr hash"
    "hex_encode c hash = r_hash r"
    using assms(2) by (rule verify_row_InrD)
  obtain p canon where h: "hex_decode c (ev_prev_hash ev) = Some p" "length p = 32"
    "canonical_bytes c ev = Inr canon" "hash = sha256 c (p @ canon)"
    using v(3) by (rule compute_hash_InrD)
  have "ev_prev_hash ev = prev"
    using assms(3) v by (simp add: signed_link_def)
  then show ?thesis
    using v h that [of p canon] by (simp add: row_canon_def row_preimage_def)
qed

text \<open>C7. A verified tip pins the history: two verified logs of the same length whose last hashes agree have the
  same canonical bytes and the same hashes, row by row.  Two conditions are needed that the verifier does not
  check: in every row the signed \<open>prev_hash\<close> of the payload is the one of the column (true of every log that
  append builds, and false of the rewritten logs of the finding below), and the digest has no collision among
  the byte strings that the two logs hash.  Columns outside the canonical bytes, such as \<open>ts\<close>, are not pinned.\<close>

theorem verified_tip_pins_history:
  assumes "crypto_ok c key"
    and "verify_chain c key l1 = Inr ()" and "verify_chain c key l2 = Inr ()"
    and "\<forall>r\<in>set l1 \<union> set l2. signed_link r"
    and "inj_on (sha256 c) (row_preimage c ` (set l1 \<union> set l2))"
    and "length l1 = length l2" and "last_hash l1 = last_hash l2"
  shows "map (row_canon c) l1 = map (row_canon c) l2 \<and> map r_hash l1 = map r_hash l2"
  using assms(2-)
proof (induction l1 arbitrary: l2 rule: rev_induct)
  case Nil
  then show ?case by simp
next
  case (snoc r1 xs)
  obtain r2 ys where l2: "l2 = ys @ [r2]"
    using snoc.prems(5) by (cases l2 rule: rev_cases) auto
  have rt: "hex_decode c (hex_encode c b) = Some b" for b
    using assms(1) by (simp add: crypto_ok_def)
  have len: "length xs = length ys"
    using snoc.prems(5) l2 by simp
  have v1: "verify_chain c key xs = Inr ()" and r1: "verify_row c (ed_public c key) (last_hash xs) r1 = Inr ()"
    using snoc.prems(1) by (simp_all add: verify_chain_def verify_rows_snoc last_hash_def)
  have v2: "verify_chain c key ys = Inr ()" and r2: "verify_row c (ed_public c key) (last_hash ys) r2 = Inr ()"
    using snoc.prems(2) by (simp_all add: l2 verify_chain_def verify_rows_snoc last_hash_def)
  obtain p1 c1 where f1: "hex_decode c (last_hash xs) = Some p1" "length p1 = 32"
    "row_canon c r1 = Inr c1" "row_preimage c r1 = p1 @ c1" "r_hash r1 = hex_encode c (sha256 c (p1 @ c1))"
    using verified_row_facts [OF assms(1) r1] snoc.prems(3) by auto
  obtain p2 c2 where f2: "hex_decode c (last_hash ys) = Some p2" "length p2 = 32"
    "row_canon c r2 = Inr c2" "row_preimage c r2 = p2 @ c2" "r_hash r2 = hex_encode c (sha256 c (p2 @ c2))"
    using verified_row_facts [OF assms(1) r2] snoc.prems(3) by (auto simp: l2)
  have hash: "r_hash r1 = r_hash r2"
    using snoc.prems(6) by (simp add: l2 last_hash_def)
  then have "hex_decode c (hex_encode c (sha256 c (p1 @ c1))) = hex_decode c (hex_encode c (sha256 c (p2 @ c2)))"
    by (simp only: f1(5) f2(5))
  then have "sha256 c (row_preimage c r1) = sha256 c (row_preimage c r2)"
    by (simp add: rt f1(4) f2(4))
  then have "row_preimage c r1 = row_preimage c r2"
    by (rule inj_onD [OF snoc.prems(4)]) (simp_all add: l2)
  then have "p1 @ c1 = p2 @ c2"
    by (simp only: f1(4) f2(4))
  then have eq: "p1 = p2" "c1 = c2"
    using f1(2) f2(2) by simp_all
  have "last_hash xs = last_hash ys"
  proof (cases "xs = []")
    case True
    then show ?thesis using len by simp
  next
    case False
    then have ne: "ys \<noteq> []" using len by auto
    obtain h1 where h1: "last_hash xs = hex_encode c h1"
      using verified_last_hash [OF v1 False] by blast
    obtain h2 where h2: "last_hash ys = hex_encode c h2"
      using verified_last_hash [OF v2 ne] by blast
    have "h1 = p1"
      using f1(1) unfolding h1 rt by simp
    moreover have "h2 = p2"
      using f2(1) unfolding h2 rt by simp
    ultimately have "h1 = h2"
      using eq(1) by simp
    then show ?thesis
      unfolding h1 h2 by simp
  qed
  moreover have "\<forall>r\<in>set xs \<union> set ys. signed_link r"
    using snoc.prems(3) by (auto simp: l2)
  moreover have "inj_on (sha256 c) (row_preimage c ` (set xs \<union> set ys))"
    using snoc.prems(4) by (rule inj_on_subset) (auto simp: l2)
  ultimately have "map (row_canon c) xs = map (row_canon c) ys \<and> map r_hash xs = map r_hash ys"
    using snoc.IH [OF v1 v2] len by blast
  then show ?case
    using f1(3) f2(3) eq(2) hash by (simp add: l2)
qed

text \<open>A changed payload is caught where it sits: replacing the payload of one row by an event with
  another chain hash makes verification fail.\<close>

lemma payload_tamper_detected:
  assumes "crypto_ok c key" and "verify_chain c key (xs @ r # ys) = Inr ()"
    and "r_payload r = Some ev" and "compute_hash c ev' \<noteq> compute_hash c ev"
  shows "verify_chain c key (xs @ r\<lparr>r_payload := Some ev'\<rparr> # ys) \<noteq> Inr ()"
proof
  let ?prev = "if xs = [] then GENESIS else r_hash (last xs)"
  assume "verify_chain c key (xs @ r\<lparr>r_payload := Some ev'\<rparr> # ys) = Inr ()"
  then have "verify_row c (ed_public c key) ?prev (r\<lparr>r_payload := Some ev'\<rparr>) = Inr ()"
    by (auto simp: verify_chain_def verify_rows_append rbind_eq_Inr)
  then obtain h' where h': "compute_hash c ev' = Inr h'" "hex_encode c h' = r_hash r"
    by (rule verify_row_InrD) simp
  have "verify_row c (ed_public c key) ?prev r = Inr ()"
    using assms(2) by (auto simp: verify_chain_def verify_rows_append rbind_eq_Inr)
  then obtain h where h: "compute_hash c ev = Inr h" "hex_encode c h = r_hash r"
    by (rule verify_row_InrD) (simp add: assms(3))
  have "hex_decode c (hex_encode c h') = hex_decode c (hex_encode c h)"
    by (simp only: h'(2) h(2))
  then have "h' = h"
    using assms(1) by (simp add: crypto_ok_def)
  then show False
    using assms(4) h'(1) h(1) by simp
qed

text \<open>The \<open>prev_hash\<close> column rewritten to link the listed rows one after the other, payloads, hashes and
  signatures left alone.\<close>

fun relink :: "string \<Rightarrow> log \<Rightarrow> log" where
  "relink prev [] = []"
| "relink prev (r # rs) = r\<lparr>r_prev := prev\<rparr> # relink (r_hash r) rs"

text \<open>C16. The verifier compares the stored column, not the signed \<open>prev_hash\<close> of the payload, with the
  previous row: any rows of a verified log, in any order and with any rows left out or repeated,
  verify again once that column is rewritten.\<close>

theorem relinked_rows_verify:
  assumes "verify_chain c key log = Inr ()" and "set rows \<subseteq> set log"
  shows "verify_chain c key (relink GENESIS rows) = Inr ()"
proof -
  have row: "\<exists>p. verify_row c (ed_public c key) p r = Inr ()" if mem: "r \<in> set log" for r
  proof -
    obtain xs ys where "log = xs @ r # ys"
      using split_list [OF mem] by blast
    then show ?thesis
      using assms(1) by (auto simp: verify_chain_def verify_rows_append rbind_eq_Inr)
  qed
  have relinked: "verify_row c pub q (r\<lparr>r_prev := q\<rparr>) = Inr ()" if "verify_row c pub p r = Inr ()" for pub p q r
    using that by (simp add: verify_row_def split: if_splits cong: if_cong option.case_cong)
  have "verify_rows c (ed_public c key) q (relink q rows) = Inr ()" for q
    using assms(2)
  proof (induction rows arbitrary: q)
    case Nil
    then show ?case by simp
  next
    case (Cons r rows)
    then obtain p where "verify_row c (ed_public c key) p r = Inr ()"
      using row by fastforce
    then show ?case
      using Cons relinked by simp
  qed
  then show ?thesis by (simp add: verify_chain_def)
qed

text \<open>The high-water mark detects exactly the loss of rows: a log opened against a checkpoint is
  refused when it is shorter and accepted otherwise, whatever its rows and its tip are.\<close>

lemma highwater_detects_truncation:
  "open_with_highwater (Some (checkpoint_highwater log)) log' =
     (if length log' < length log then Inl Truncation else Inr log')"
  by (simp add: open_with_highwater_def checkpoint_highwater_def)

section \<open>Witnesses\<close>

text \<open>A remembered note (external) and a page derived from it.\<close>

definition demo_note :: event where
  "demo_note = draft_event MEMORY_T
     (jobj [(''text'', JStr ''hi''), (''origin'', JStr EXTERNAL_ORIGIN)]) None"

definition demo_page :: event where
  "demo_page = draft_event PAGE_T (jobj [(''text'', JStr ''p'')])
     (Some \<lparr>model_id = ''m'', prompt_hash = [], source_event_ids = [''a'']\<rparr>)"

definition demo_log1 :: log where
  "demo_log1 = snd (projr (append demo_crypto ''k'' (''a'', ''t1'') demo_note []))"

definition demo_log2 :: log where
  "demo_log2 = snd (projr (append demo_crypto ''k'' (''b'', ''t2'') demo_page demo_log1))"

lemma demo_append1: "append demo_crypto ''k'' (''a'', ''t1'') demo_note [] = Inr (''a'', demo_log1)"
  by code_simp

lemma demo_append2: "append demo_crypto ''k'' (''b'', ''t2'') demo_page demo_log1 = Inr (''b'', demo_log2)"
  by code_simp

lemma demo_reachable1: "reachable_log demo_crypto ''k'' demo_log1"
  by (rule reachable_log.one [OF reachable_log.start demo_append1])

lemma demo_reachable2: "reachable_log demo_crypto ''k'' demo_log2"
  by (rule reachable_log.one [OF demo_reachable1 demo_append2])

theorem reachable_log_ok_witness: "log_ok demo_crypto ''k'' demo_log2 \<and> length demo_log2 = 2"
proof
  show "log_ok demo_crypto ''k'' demo_log2"
    by (rule reachable_log_ok [OF demo_crypto_ok demo_reachable2])
  show "length demo_log2 = 2" by code_simp
qed

theorem taint_not_laundered_witness: "is_external (the (r_payload (demo_log2 ! 1)))"
proof (rule taint_not_laundered [OF demo_reachable2])
  have a: "lookup_row demo_log2 ''a'' = Some (demo_log2 ! 0)"
    and b: "lookup_row demo_log2 ''b'' = Some (demo_log2 ! 1)" by code_simp+
  have pa: "r_payload (demo_log2 ! 0) = Some (the (r_payload (demo_log2 ! 0)))"
    "is_external (the (r_payload (demo_log2 ! 0)))" by code_simp+
  have pb: "r_payload (demo_log2 ! 1) = Some (the (r_payload (demo_log2 ! 1)))"
    "ev_meta (the (r_payload (demo_log2 ! 1))) =
       Some \<lparr>model_id = ''m'', prompt_hash = [], source_event_ids = [''a'']\<rparr>"
    "is_object (ev_content (the (r_payload (demo_log2 ! 1))))" by code_simp+
  show "influenced demo_log2 ''b''"
    by (rule influenced.derived [OF b pb, where src = "''a''"])
      (simp, rule influenced.stamped [OF a pa])
  show "lookup_row demo_log2 ''b'' = Some (demo_log2 ! 1)" by (rule b)
  show "r_payload (demo_log2 ! 1) = Some (the (r_payload (demo_log2 ! 1)))" by (rule pb)
qed

lemma verify_chain_since_split_witness:
  "verify_chain demo_crypto ''k'' demo_log2 = Inr () \<longleftrightarrow>
    verify_chain demo_crypto ''k'' (takeWhile (\<lambda>q. r_id q \<noteq> ''a'') demo_log2 @ [demo_log2 ! 0]) = Inr ()
    \<and> verify_chain_since demo_crypto ''k'' (Some ''a'') demo_log2 = Inr ()"
  by (rule verify_chain_since_split) code_simp

lemma demo_log1_ok: "log_ok demo_crypto ''k'' demo_log1"
  by (rule append_log_ok [OF demo_crypto_ok log_ok_Nil demo_append1])

lemma demo_log2_ok: "log_ok demo_crypto ''k'' demo_log2"
  by (rule append_log_ok [OF demo_crypto_ok demo_log1_ok demo_append2])

lemma demo_verified: "verify_chain demo_crypto ''k'' demo_log2 = Inr ()" "\<forall>r\<in>set demo_log2. row_ok r"
  using demo_log2_ok by (simp_all add: log_ok_def)

text \<open>The same log with another \<open>ts\<close> column: it verifies, and it differs from the original in that column only.\<close>

definition demo_redated :: log where
  "demo_redated = map (\<lambda>r. r\<lparr>r_ts := ''t9''\<rparr>) demo_log2"

theorem verified_tip_pins_history_witness:
  "demo_log2 \<noteq> demo_redated \<and> map (row_canon demo_crypto) demo_log2 = map (row_canon demo_crypto) demo_redated
    \<and> map r_hash demo_log2 = map r_hash demo_redated"
proof
  show "demo_log2 \<noteq> demo_redated"
  proof
    assume "demo_log2 = demo_redated"
    then have "map r_ts demo_log2 = map r_ts demo_redated" by simp
    moreover have "map r_ts demo_log2 \<noteq> map r_ts demo_redated" by code_simp
    ultimately show False by simp
  qed
  show "map (row_canon demo_crypto) demo_log2 = map (row_canon demo_crypto) demo_redated
    \<and> map r_hash demo_log2 = map r_hash demo_redated"
  proof (rule verified_tip_pins_history [OF demo_crypto_ok demo_verified(1)])
    show "verify_chain demo_crypto ''k'' demo_redated = Inr ()" by code_simp
    show "inj_on (sha256 demo_crypto) (row_preimage demo_crypto ` (set demo_log2 \<union> set demo_redated))"
      by code_simp
    show "\<forall>r\<in>set demo_log2 \<union> set demo_redated. signed_link r" by code_simp
    show "length demo_log2 = length demo_redated" by (simp add: demo_redated_def)
    show "last_hash demo_log2 = last_hash demo_redated" by code_simp
  qed
qed

lemma payload_tamper_detected_witness:
  "verify_chain demo_crypto ''k''
     ([] @ (demo_log2 ! 0)\<lparr>r_payload := Some (the (r_payload (demo_log2 ! 1)))\<rparr> # [demo_log2 ! 1]) \<noteq> Inr ()"
proof (rule payload_tamper_detected [OF demo_crypto_ok])
  have "[] @ demo_log2 ! 0 # [demo_log2 ! 1] = demo_log2" by code_simp
  then show "verify_chain demo_crypto ''k'' ([] @ demo_log2 ! 0 # [demo_log2 ! 1]) = Inr ()"
    using demo_verified(1) by simp
  show "r_payload (demo_log2 ! 0) = Some (the (r_payload (demo_log2 ! 0)))" by code_simp
  show "compute_hash demo_crypto (the (r_payload (demo_log2 ! 1)))
      \<noteq> compute_hash demo_crypto (the (r_payload (demo_log2 ! 0)))" by code_simp
qed

text \<open>The page alone, its tainted source removed, passes.\<close>

theorem relinked_rows_verify_witness:
  "verify_chain demo_crypto ''k'' (relink GENESIS [demo_log2 ! 1]) = Inr ()"
  by (rule relinked_rows_verify [OF demo_verified(1)]) code_simp

end
