(* ===== verification/Graph.thy ===== *)
theory Graph
  imports EventLog
begin

text \<open>
  \<open>graph.rs\<close>: the pure projections of the event log.  Each fold takes the events in \<open>seq\<close> order.
  The RFC 3339 parser and formatter of the \<open>chrono\<close> crate is the argument \<open>fmt\<close> of
  \<open>normalize_ts\<close>: \<open>Some\<close> of the fixed-width UTC form, or \<open>None\<close> for an unparseable input.
\<close>

section \<open>Timestamps, link contents, origins\<close>

definition normalize_ts :: "(string \<Rightarrow> string option) \<Rightarrow> string \<Rightarrow> string" where
  "normalize_ts fmt ts = (case fmt ts of Some s \<Rightarrow> s | None \<Rightarrow> ts)"

definition parse_link_content :: "json \<Rightarrow> (string \<times> string \<times> string \<times> int option) option" where
  "parse_link_content c =
     Option.bind (get_str c ''src'') (\<lambda>src.
     Option.bind (get_str c ''relation'') (\<lambda>relation.
     Option.bind (get_str c ''dst'') (\<lambda>dst.
       Some (src, relation, dst, get_i64 c ''confidence_milli''))))"

abbreviation "MANUAL_LINK_PRODUCER \<equiv> ''manual''"

definition origin_of :: "string \<Rightarrow> string" where
  "origin_of mid = (if mid = MANUAL_LINK_PRODUCER then ''manual'' else ''machine'')"

section \<open>Entities\<close>

record entity =
  entity_id :: string
  label :: string
  aliases :: "string list"
  entity_type :: string

definition entity_node_id :: "string \<Rightarrow> string" where
  "entity_node_id i = ''entity:'' @ i"

definition parse_entity_content :: "json \<Rightarrow> (string \<times> string list \<times> string) option" where
  "parse_entity_content c =
     Option.bind (get_str c ''label'') (\<lambda>lab.
     Option.bind (get_str c ''entity_type'') (\<lambda>ty.
       Some (lab,
         (case Option.bind (json_get c ''aliases'') as_array of
            None \<Rightarrow> []
          | Some arr \<Rightarrow> List.map_filter as_str arr),
         ty)))"

definition fold_entities :: "event list \<Rightarrow> entity list" where
  "fold_entities events = List.map_filter (\<lambda>ev.
     if ev_type ev \<noteq> ENTITY_T then None
     else map_option (\<lambda>(lab, als, ty).
       \<lparr>entity_id = entity_node_id (ev_id ev), label = lab, aliases = als, entity_type = ty\<rparr>)
       (parse_entity_content (ev_content ev))) events"

section \<open>Edges\<close>

record edge =
  edge_id :: string
  e_src :: string
  e_relation :: string
  e_dst :: string
  valid_from :: string
  valid_to :: "string option"
  ingested_at :: string
  invalidated_at :: "string option"
  invalidated_by :: "string option"
  e_origin :: string
  confidence_milli :: "int option"

type_synonym edge_key = "string \<times> string \<times> string"

definition edge_key :: "edge \<Rightarrow> edge_key" where
  "edge_key e = (e_src e, e_relation e, e_dst e)"

definition is_current :: "edge \<Rightarrow> bool" where
  "is_current e \<longleftrightarrow> invalidated_at e = None"

definition valid_or_ts :: "event \<Rightarrow> string" where
  "valid_or_ts ev = (case ev_valid_time ev of Some t \<Rightarrow> t | None \<Rightarrow> ev_ts ev)"

definition open_edge :: "(string \<Rightarrow> string option) \<Rightarrow> event \<Rightarrow> string \<times> string \<times> string \<times> int option \<Rightarrow> edge" where
  "open_edge fmt ev = (\<lambda>(src, relation, dst, conf).
     let origin = (case ev_meta ev of Some m \<Rightarrow> origin_of (model_id m) | None \<Rightarrow> ''manual'') in
     \<lparr>edge_id = ev_id ev, e_src = src, e_relation = relation, e_dst = dst,
      valid_from = normalize_ts fmt (valid_or_ts ev), valid_to = None,
      ingested_at = normalize_ts fmt (ev_ts ev), invalidated_at = None, invalidated_by = None,
      e_origin = origin, confidence_milli = (if origin = ''manual'' then None else conf)\<rparr>)"

definition close_edge :: "(string \<Rightarrow> string option) \<Rightarrow> event \<Rightarrow> edge \<Rightarrow> edge" where
  "close_edge fmt ev e =
     e\<lparr>valid_to := Some (normalize_ts fmt (valid_or_ts ev)),
       invalidated_at := Some (normalize_ts fmt (ev_ts ev)),
       invalidated_by := Some (ev_id ev)\<rparr>"

text \<open>The loop keeps the edges so far and, per key, the indices still open.\<close>

type_synonym edge_state = "edge list \<times> (edge_key \<Rightarrow> nat list option)"

definition edge_step :: "(string \<Rightarrow> string option) \<Rightarrow> event \<Rightarrow> edge_state \<Rightarrow> edge_state" where
  "edge_step fmt ev st =
     (case parse_link_content (ev_content ev) of None \<Rightarrow> st
      | Some (src, relation, dst, conf) \<Rightarrow>
        let key = (src, relation, dst); (edges, active) = st in
        if ev_type ev = ''link'' then
          (edges @ [open_edge fmt ev (src, relation, dst, conf)],
           active(key \<mapsto> (case active key of None \<Rightarrow> [] | Some is \<Rightarrow> is) @ [length edges]))
        else if ev_type ev = ''invalidate'' then
          (case active key of None \<Rightarrow> st
           | Some is \<Rightarrow>
             (fold (\<lambda>i es. es[i := close_edge fmt ev (es ! i)]) is edges, active(key := None)))
        else st)"

definition fold_edges :: "(string \<Rightarrow> string option) \<Rightarrow> event list \<Rightarrow> edge list" where
  "fold_edges fmt events = fst (fold (edge_step fmt) events ([], \<lambda>_. None))"

section \<open>Pages\<close>

record page =
  p_topic :: string
  p_event_id :: string
  p_title :: string
  p_text :: string

definition parse_page_content :: "json \<Rightarrow> (string \<times> string \<times> string) option" where
  "parse_page_content c =
     Option.bind (get_str c ''topic_id'') (\<lambda>topic.
     Option.bind (get_str c ''title'') (\<lambda>title.
     Option.bind (get_str c ''text'') (\<lambda>text. Some (topic, title, text))))"

text \<open>The ids retired by any \<open>supersede\<close> event, wherever it stands.\<close>

definition superseded_ids :: "event list \<Rightarrow> string set" where
  "superseded_ids events =
     fold (\<lambda>ev s. if ev_type ev = SUPERSEDE_T
       then (case get_str (ev_content ev) ''supersedes'' of None \<Rightarrow> s | Some p \<Rightarrow> insert p s)
       else s) events {}"

definition page_entry :: "string set \<Rightarrow> event \<Rightarrow> (string \<times> page) option" where
  "page_entry gone ev =
     (if ev_type ev \<noteq> PAGE_T \<or> ev_id ev \<in> gone then None
      else map_option (\<lambda>(topic, title, text).
        (topic, \<lparr>p_topic = topic, p_event_id = ev_id ev, p_title = title, p_text = text\<rparr>))
        (parse_page_content (ev_content ev)))"

definition fold_pages :: "event list \<Rightarrow> page list" where
  "fold_pages events =
     bt_values (fold (\<lambda>ev m. case page_entry (superseded_ids events) ev of None \<Rightarrow> m
       | Some (k, v) \<Rightarrow> bt_insert k v m) events [])"

section \<open>Grants\<close>

record grant =
  canonical_root :: string
  granted_at :: string
  revoked :: bool

definition parse_grant_content :: "json \<Rightarrow> string option" where
  "parse_grant_content c = get_str c ''canonical_root''"

definition grant_step :: "event \<Rightarrow> (string \<times> grant) list \<Rightarrow> (string \<times> grant) list" where
  "grant_step ev m =
     (case parse_grant_content (ev_content ev) of None \<Rightarrow> m
      | Some root \<Rightarrow>
        if ev_type ev = GRANT_T
        then bt_insert root \<lparr>canonical_root = root, granted_at = ev_ts ev, revoked = False\<rparr> m
        else if ev_type ev = REVOKE_T then bt_modify root (\<lambda>g. g\<lparr>revoked := True\<rparr>) m
        else m)"

definition fold_grants :: "event list \<Rightarrow> grant list" where
  "fold_grants events = bt_values (fold grant_step events [])"

definition write_grant_step :: "event \<Rightarrow> (string \<times> grant) list \<Rightarrow> (string \<times> grant) list" where
  "write_grant_step ev m =
     (case parse_grant_content (ev_content ev) of None \<Rightarrow> m
      | Some root \<Rightarrow>
        if ev_type ev = WRITE_GRANT_T
        then bt_insert root \<lparr>canonical_root = root, granted_at = ev_ts ev, revoked = False\<rparr> m
        else if ev_type ev = WRITE_REVOKE_T then bt_modify root (\<lambda>g. g\<lparr>revoked := True\<rparr>) m
        else m)"

definition fold_write_grants :: "event list \<Rightarrow> grant list" where
  "fold_write_grants events = bt_values (fold write_grant_step events [])"

section \<open>Mandates\<close>

record mandate =
  mandate_grant_id :: string
  m_target :: string
  m_scope :: string
  m_recipe :: string
  m_granted_at :: string
  m_revoked :: bool

definition mandate_step :: "event \<Rightarrow> (string \<times> mandate) list \<Rightarrow> (string \<times> mandate) list" where
  "mandate_step ev m =
     (if ev_type ev = MANDATE_GRANT_T then
        (case (get_str (ev_content ev) ''target'', get_str (ev_content ev) ''source_scope'',
               get_str (ev_content ev) ''recipe'') of
           (Some t, Some s, Some r) \<Rightarrow>
             bt_insert (ev_id ev) \<lparr>mandate_grant_id = ev_id ev, m_target = t, m_scope = s,
               m_recipe = r, m_granted_at = ev_ts ev, m_revoked = False\<rparr> m
         | _ \<Rightarrow> m)
      else if ev_type ev = MANDATE_REVOKE_T then
        (case get_str (ev_content ev) ''mandate_grant_id'' of None \<Rightarrow> m
         | Some i \<Rightarrow> bt_modify i (\<lambda>x. x\<lparr>m_revoked := True\<rparr>) m)
      else m)"

definition fold_mandates :: "event list \<Rightarrow> mandate list" where
  "fold_mandates events = bt_values (fold mandate_step events [])"

section \<open>Ingested files\<close>

record file_record =
  f_path :: string
  f_event_id :: string
  f_hash :: string
  f_root :: string

definition parse_file_ingested_content :: "json \<Rightarrow> (string \<times> string \<times> string) option" where
  "parse_file_ingested_content c =
     Option.bind (json_get c ''provenance'') (\<lambda>p.
     Option.bind (get_str p ''canonical_path'') (\<lambda>path.
     Option.bind (get_str p ''content_hash'') (\<lambda>h.
     Option.bind (get_str p ''grant_root'') (\<lambda>root. Some (path, h, root)))))"

definition file_entry :: "string set \<Rightarrow> event \<Rightarrow> (string \<times> file_record) option" where
  "file_entry gone ev =
     (if ev_type ev \<noteq> FILE_INGESTED_T \<or> ev_id ev \<in> gone then None
      else map_option (\<lambda>(path, h, root).
        (path, \<lparr>f_path = path, f_event_id = ev_id ev, f_hash = h, f_root = root\<rparr>))
        (parse_file_ingested_content (ev_content ev)))"

definition fold_files :: "event list \<Rightarrow> file_record list" where
  "fold_files events =
     bt_values (fold (\<lambda>ev m. case file_entry (superseded_ids events) ev of None \<Rightarrow> m
       | Some (k, v) \<Rightarrow> bt_insert k v m) events [])"

section \<open>Edges against a reference\<close>

text \<open>What the fold is for: every parsed link opens an edge, closed by the first later invalidation
  of the same key.\<close>

definition invalidates :: "edge_key \<Rightarrow> event \<Rightarrow> bool" where
  "invalidates k ev \<longleftrightarrow> ev_type ev = ''invalidate''
     \<and> (\<exists>conf. parse_link_content (ev_content ev) = Some (fst k, fst (snd k), snd (snd k), conf))"

definition opened :: "(string \<Rightarrow> string option) \<Rightarrow> event \<Rightarrow> edge option" where
  "opened fmt ev = (if ev_type ev = ''link''
     then map_option (open_edge fmt ev) (parse_link_content (ev_content ev)) else None)"

definition settle :: "(string \<Rightarrow> string option) \<Rightarrow> event list \<Rightarrow> edge \<Rightarrow> edge" where
  "settle fmt later e = (case List.find (invalidates (edge_key e)) later of
     None \<Rightarrow> e | Some ev \<Rightarrow> close_edge fmt ev e)"

fun ref_edges :: "(string \<Rightarrow> string option) \<Rightarrow> event list \<Rightarrow> edge list" where
  "ref_edges fmt [] = []"
| "ref_edges fmt (ev # later) = (case opened fmt ev of None \<Rightarrow> ref_edges fmt later
     | Some e \<Rightarrow> settle fmt later e # ref_edges fmt later)"

definition close_if :: "(string \<Rightarrow> string option) \<Rightarrow> event \<Rightarrow> edge \<Rightarrow> edge" where
  "close_if fmt ev e = (if invalidates (edge_key e) ev \<and> is_current e then close_edge fmt ev e else e)"

lemma edge_key_close [simp]:
  "edge_key (close_edge fmt ev e) = edge_key e" "\<not> is_current (close_edge fmt ev e)"
  by (simp_all add: edge_key_def close_edge_def is_current_def)

lemma opened_current: "opened fmt ev = Some e \<Longrightarrow> is_current e"
  by (auto simp: opened_def open_edge_def is_current_def Let_def split: if_splits)

lemma settle_snoc: "is_current e \<Longrightarrow> settle fmt (later @ [x]) e = close_if fmt x (settle fmt later e)"
  by (auto simp: settle_def close_if_def find_append split: option.splits)

lemma ref_edges_snoc [fold_simps]:
  "ref_edges fmt (evs @ [x]) = map (close_if fmt x) (ref_edges fmt evs) @
     (case opened fmt x of None \<Rightarrow> [] | Some e \<Rightarrow> [e])"
proof (induction evs)
  case Nil
  then show ?case by (auto simp: settle_def split: option.splits)
next
  case (Cons ev evs)
  then show ?case
    by (auto simp: settle_snoc opened_current split: option.split)
qed

text \<open>The index list of a key lists its current edges.\<close>

definition indices_ok :: "edge_state \<Rightarrow> bool" where
  "indices_ok st \<longleftrightarrow> (\<forall>k. (case snd st k of None \<Rightarrow> [] | Some is \<Rightarrow> is) =
     filter (\<lambda>i. edge_key (fst st ! i) = k \<and> is_current (fst st ! i)) [0..<length (fst st)])"

lemma indices_okI:
  "(\<And>k. (case act k of None \<Rightarrow> [] | Some is \<Rightarrow> is) =
     filter (\<lambda>i. edge_key (es ! i) = k \<and> is_current (es ! i)) [0..<length es]) \<Longrightarrow> indices_ok (es, act)"
  unfolding indices_ok_def by simp

lemma fold_update_nth:
  "distinct is \<Longrightarrow> set is \<subseteq> {0..<length es} \<Longrightarrow>
   fold (\<lambda>i es. es[i := f (es ! i)]) is es =
     map (\<lambda>i. if i \<in> set is then f (es ! i) else es ! i) [0..<length es]"
proof (induction "is" arbitrary: es)
  case Nil
  then show ?case by (simp add: map_nth)
next
  case (Cons i "is")
  then show ?case by (auto simp: nth_list_update)
qed

lemma key_of_parse: "invalidates k ev \<Longrightarrow> parse_link_content (ev_content ev) = Some (a, b, c, d) \<Longrightarrow> k = (a, b, c)"
  by (cases k) (auto simp: invalidates_def)

lemma close_if_id: "\<not> invalidates (edge_key e) ev \<Longrightarrow> close_if fmt ev e = e"
  by (simp add: close_if_def)

lemma close_if_sel:
  "edge_key (close_if fmt ev e) = edge_key e"
  "is_current (close_if fmt ev e) \<longleftrightarrow> is_current e \<and> \<not> invalidates (edge_key e) ev"
  by (auto simp: close_if_def)

lemma edge_step_ok:
  assumes ok: "indices_ok (es, act)"
  shows "fst (edge_step fmt x (es, act)) =
      map (close_if fmt x) es @ (case opened fmt x of None \<Rightarrow> [] | Some e \<Rightarrow> [e])
    \<and> indices_ok (edge_step fmt x (es, act))"
proof (cases "parse_link_content (ev_content x)")
  case None
  then have "\<not> invalidates k x" for k by (simp add: invalidates_def)
  then show ?thesis using None ok by (simp add: edge_step_def opened_def close_if_id map_idI)
next
  case (Some p)
  obtain a b d conf where p: "parse_link_content (ev_content x) = Some (a, b, d, conf)"
    using Some by (cases p) auto
  have inv: "invalidates k x \<longleftrightarrow> ev_type x = ''invalidate'' \<and> k = (a, b, d)" for k
    by (cases k) (auto simp: invalidates_def p)
  let ?idx = "\<lambda>es k. filter (\<lambda>i. edge_key (es ! i) = k \<and> is_current (es ! i)) [0..<length es]"
  have ok': "(case act k of None \<Rightarrow> [] | Some is \<Rightarrow> is) = ?idx es k" for k
    using ok [unfolded indices_ok_def, rule_format, of k] by simp
  show ?thesis
  proof (cases "ev_type x = ''link''")
    case link: True
    define e where "e = open_edge fmt x (a, b, d, conf)"
    have e: "opened fmt x = Some e" "edge_key e = (a, b, d)" "is_current e"
      by (simp_all add: opened_def link p e_def open_edge_def edge_key_def is_current_def Let_def)
    have "?idx (es @ [e]) k = ?idx es k @ (if k = (a, b, d) then [length es] else [])" for k
      by (auto simp: nth_append e intro!: filter_cong)
    moreover have "edge_step fmt x (es, act) =
        (es @ [e], act((a, b, d) \<mapsto> ?idx es (a, b, d) @ [length es]))"
      using ok' [of "(a, b, d)"] by (simp add: edge_step_def p link e_def Let_def)
    ultimately show ?thesis
      using ok' by (auto simp: e inv link close_if_id map_idI intro!: indices_okI)
  next
    case nolink: False
    then have op: "opened fmt x = None" by (simp add: opened_def)
    show ?thesis
    proof (cases "ev_type x = ''invalidate''")
      case False
      then show ?thesis
        using ok by (simp add: edge_step_def p nolink op inv close_if_id map_idI)
    next
      case True
      show ?thesis
      proof (cases "act (a, b, d)")
        case None
        then have "?idx es (a, b, d) = []" using ok' [of "(a, b, d)"] by simp
        then have "map (close_if fmt x) es = es"
          by (auto simp: filter_empty_conv close_if_def inv in_set_conv_nth intro!: map_idI)
        then show ?thesis
          using ok None by (simp add: edge_step_def p nolink op True)
      next
        case (Some "is")
        have is_eq: "is = ?idx es (a, b, d)" using ok' [of "(a, b, d)"] Some by simp
        have fold: "fold (\<lambda>i es. es[i := close_edge fmt x (es ! i)]) is es = map (close_if fmt x) es"
          by (subst fold_update_nth)
            (auto simp: is_eq close_if_def inv True intro!: nth_equalityI)
        have "?idx (map (close_if fmt x) es) k = (if k = (a, b, d) then [] else ?idx es k)" for k
          by (auto simp: close_if_sel inv True filter_empty_conv intro!: filter_cong)
        then show ?thesis
          using ok' by (auto simp: edge_step_def p nolink op True Some fold intro!: indices_okI)
      qed
    qed
  qed
qed

lemma fold_edges_state:
  "fst (fold (edge_step fmt) evs ([], \<lambda>_. None)) = ref_edges fmt evs
   \<and> indices_ok (fold (edge_step fmt) evs ([], \<lambda>_. None))"
proof (induction evs rule: rev_induct)
  case Nil
  then show ?case by (simp add: indices_ok_def)
next
  case (snoc x evs)
  obtain es act where st: "fold (edge_step fmt) evs ([], \<lambda>_. None) = (es, act)"
    by (cases "fold (edge_step fmt) evs ([], \<lambda>_. None)")
  show ?case
    using edge_step_ok [of es act fmt x] snoc by (auto simp: fold_simps st)
qed

lemma fold_edges_ref: "fold_edges fmt evs = ref_edges fmt evs"
  using fold_edges_state [of fmt evs] by (simp add: fold_edges_def)

text \<open>C10. \<open>fold_edges\<close> with its index map computes, for every well-formed link in log order, the edge
  it opens, closed by the first later invalidation of the same source, relation and destination;
  a later invalidation never re-closes it and an earlier one never touches it.\<close>

theorem fold_edges_reference: "fold_edges fmt evs = ref_edges fmt evs"
  by (rule fold_edges_ref)

section \<open>Grant registries\<close>

text \<open>The contract shared by the read and the write grants: one tag grants a root, another revokes
  it, and no other event is looked at.\<close>

locale grant_registry =
  fixes step :: "event \<Rightarrow> (string \<times> grant) list \<Rightarrow> (string \<times> grant) list"
    and grants revokes :: string
  assumes tags_differ: "grants \<noteq> revokes"
    and step_unparsed: "parse_grant_content (ev_content ev) = None \<Longrightarrow> step ev m = m"
    and step_grant: "parse_grant_content (ev_content ev) = Some root \<Longrightarrow> ev_type ev = grants \<Longrightarrow>
      step ev m = bt_insert root \<lparr>canonical_root = root, granted_at = ev_ts ev, revoked = False\<rparr> m"
    and step_revoke: "parse_grant_content (ev_content ev) = Some root \<Longrightarrow> ev_type ev = revokes \<Longrightarrow>
      step ev m = bt_modify root (\<lambda>g. g\<lparr>revoked := True\<rparr>) m"
    and step_other: "ev_type ev \<noteq> grants \<Longrightarrow> ev_type ev \<noteq> revokes \<Longrightarrow> step ev m = m"
begin

definition speaks :: "string \<Rightarrow> event \<Rightarrow> bool" where
  "speaks root ev \<longleftrightarrow> parse_grant_content (ev_content ev) = Some root
     \<and> (ev_type ev = grants \<or> ev_type ev = revokes)"

lemma step_ok: "bt_ok m \<Longrightarrow> bt_ok (step ev m)"
  by (cases "parse_grant_content (ev_content ev)"; cases "ev_type ev = grants";
      cases "ev_type ev = revokes")
    (simp_all add: step_unparsed step_grant step_revoke step_other)

lemma fold_ok: "bt_ok (fold step evs [])"
  by (rule bt.ok_fold) (simp_all add: step_ok)

lemma step_silent: "bt_ok m \<Longrightarrow> \<not> speaks root ev \<Longrightarrow> map_of (step ev m) root = map_of m root"
  by (cases "parse_grant_content (ev_content ev)"; cases "ev_type ev = grants";
      cases "ev_type ev = revokes")
    (auto simp: speaks_def step_unparsed step_grant step_revoke step_other)

lemma step_speaks:
  "bt_ok m \<Longrightarrow> speaks root ev \<Longrightarrow> map_of (step ev m) root =
     (if ev_type ev = grants
      then Some \<lparr>canonical_root = root, granted_at = ev_ts ev, revoked = False\<rparr>
      else map_option (\<lambda>g. g\<lparr>revoked := True\<rparr>) (map_of m root))"
  by (auto simp: speaks_def step_grant step_revoke)

lemma entry_root: "map_of (fold step evs []) root = Some g \<Longrightarrow> canonical_root g = root"
proof (induction evs arbitrary: g rule: rev_induct)
  case (snoc ev evs)
  then show ?case
    by (cases "speaks root ev") (auto simp: step_silent step_speaks fold_ok split: if_splits)
qed simp

lemma active_iff:
  "(\<exists>g\<in>set (bt_values (fold step evs [])). canonical_root g = root \<and> \<not> revoked g)
   \<longleftrightarrow> (\<exists>ev. find_last (speaks root) evs = Some ev \<and> ev_type ev = grants)"
proof -
  have "(\<exists>g. map_of (fold step evs []) root = Some g \<and> \<not> revoked g)
     \<longleftrightarrow> (\<exists>ev. find_last (speaks root) evs = Some ev \<and> ev_type ev = grants)"
  proof (induction evs rule: rev_induct)
    case (snoc ev evs)
    then show ?case
      by (cases "speaks root ev") (auto simp: step_silent step_speaks fold_ok)
  qed simp
  moreover have "(\<exists>g\<in>set (bt_values (fold step evs [])). canonical_root g = root \<and> \<not> revoked g)
     \<longleftrightarrow> (\<exists>g. map_of (fold step evs []) root = Some g \<and> \<not> revoked g)"
    by (rule bt_values_keyed [OF fold_ok entry_root])
  ultimately show ?thesis by simp
qed

end

interpretation read_grants: grant_registry grant_step GRANT_T REVOKE_T
  by unfold_locales (simp_all add: grant_step_def split: option.split)

interpretation write_grants: grant_registry write_grant_step WRITE_GRANT_T WRITE_REVOKE_T
  by unfold_locales (simp_all add: write_grant_step_def split: option.split)

text \<open>A root is open for writing exactly when the last \<open>write_grant\<close> or \<open>write_revoke\<close> event of that
  root is a grant.  Read grants and every other event never open or close it.\<close>

lemma write_grant_last_word:
  "(\<exists>g\<in>set (fold_write_grants evs). canonical_root g = root \<and> \<not> revoked g) \<longleftrightarrow>
   (\<exists>ev. find_last (\<lambda>ev. parse_grant_content (ev_content ev) = Some root
        \<and> ev_type ev \<in> {WRITE_GRANT_T, WRITE_REVOKE_T}) evs = Some ev
      \<and> ev_type ev = WRITE_GRANT_T)"
proof -
  have "write_grants.speaks root = (\<lambda>ev. parse_grant_content (ev_content ev) = Some root
      \<and> ev_type ev \<in> {WRITE_GRANT_T, WRITE_REVOKE_T})"
    by (auto simp: write_grants.speaks_def fun_eq_iff)
  then show ?thesis using write_grants.active_iff [of evs root] by (simp add: fold_write_grants_def)
qed

text \<open>A root is open for reading exactly when the last \<open>grant\<close> or \<open>revoke\<close> event of that root is a
  grant; write grants imply nothing about reading.\<close>

lemma read_grant_last_word:
  "(\<exists>g\<in>set (fold_grants evs). canonical_root g = root \<and> \<not> revoked g) \<longleftrightarrow>
   (\<exists>ev. find_last (\<lambda>ev. parse_grant_content (ev_content ev) = Some root
        \<and> ev_type ev \<in> {GRANT_T, REVOKE_T}) evs = Some ev
      \<and> ev_type ev = GRANT_T)"
proof -
  have "read_grants.speaks root = (\<lambda>ev. parse_grant_content (ev_content ev) = Some root
      \<and> ev_type ev \<in> {GRANT_T, REVOKE_T})"
    by (auto simp: read_grants.speaks_def fun_eq_iff)
  then show ?thesis using read_grants.active_iff [of evs root] by (simp add: fold_grants_def)
qed

section \<open>Mandates stay revoked\<close>

definition grants_mandate :: "event \<Rightarrow> bool" where
  "grants_mandate ev \<longleftrightarrow> ev_type ev = MANDATE_GRANT_T \<and> get_str (ev_content ev) ''target'' \<noteq> None
     \<and> get_str (ev_content ev) ''source_scope'' \<noteq> None \<and> get_str (ev_content ev) ''recipe'' \<noteq> None"

definition revokes_mandate :: "string \<Rightarrow> event \<Rightarrow> bool" where
  "revokes_mandate i ev \<longleftrightarrow> ev_type ev = MANDATE_REVOKE_T
     \<and> get_str (ev_content ev) ''mandate_grant_id'' = Some i"

lemma mandate_ok: "bt_ok (fold mandate_step evs [])"
  by (rule bt.ok_fold) (auto simp: mandate_step_def split: option.splits)

definition live_mandate :: "string \<Rightarrow> (string \<times> mandate) list \<Rightarrow> bool" where
  "live_mandate i m \<longleftrightarrow> (\<exists>x. map_of m i = Some x \<and> mandate_grant_id x = i \<and> \<not> m_revoked x)"

lemma live_mandate_step:
  "bt_ok m \<Longrightarrow> live_mandate i (mandate_step ev m) \<longleftrightarrow>
     (grants_mandate ev \<and> ev_id ev = i) \<or> (live_mandate i m \<and> \<not> revokes_mandate i ev)"
  by (auto simp: mandate_step_def live_mandate_def grants_mandate_def revokes_mandate_def
      split: option.splits)

lemma live_mandate_fold:
  "live_mandate i (fold mandate_step evs []) \<longleftrightarrow>
    (\<exists>xs ev ys. evs = xs @ ev # ys \<and> ev_id ev = i \<and> grants_mandate ev
       \<and> (\<forall>r\<in>set ys. \<not> revokes_mandate i r))"
proof (induction evs rule: rev_induct)
  case Nil
  then show ?case by (simp add: live_mandate_def)
next
  case (snoc x evs)
  have "(\<exists>xs ev ys. evs @ [x] = xs @ ev # ys \<and> ev_id ev = i \<and> grants_mandate ev
       \<and> (\<forall>r\<in>set ys. \<not> revokes_mandate i r)) \<longleftrightarrow>
    (grants_mandate x \<and> ev_id x = i) \<or> ((\<exists>xs ev ys. evs = xs @ ev # ys \<and> ev_id ev = i
       \<and> grants_mandate ev \<and> (\<forall>r\<in>set ys. \<not> revokes_mandate i r)) \<and> \<not> revokes_mandate i x)"
    (is "?L \<longleftrightarrow> ?R")
  proof
    assume ?L
    then obtain xs ev ys where a: "evs @ [x] = xs @ ev # ys" "ev_id ev = i" "grants_mandate ev"
      "\<forall>r\<in>set ys. \<not> revokes_mandate i r" by blast
    then show ?R by (cases ys rule: rev_cases) auto
  next
    assume ?R
    then show ?L
    proof
      assume "grants_mandate x \<and> ev_id x = i"
      then show ?L by (intro exI [of _ evs] exI [of _ x] exI [of _ "[]"]) simp
    next
      assume "(\<exists>xs ev ys. evs = xs @ ev # ys \<and> ev_id ev = i
       \<and> grants_mandate ev \<and> (\<forall>r\<in>set ys. \<not> revokes_mandate i r)) \<and> \<not> revokes_mandate i x"
      then obtain xs ev ys where "evs = xs @ ev # ys" "ev_id ev = i" "grants_mandate ev"
        "\<forall>r\<in>set ys. \<not> revokes_mandate i r" "\<not> revokes_mandate i x" by blast
      then show ?L by (intro exI [of _ xs] exI [of _ ev] exI [of _ "ys @ [x]"]) auto
    qed
  qed
  then show ?case by (simp add: live_mandate_step [OF mandate_ok] snoc)
qed

lemma mandate_entry_id_step:
  "bt_ok m \<Longrightarrow> (\<And>i x. map_of m i = Some x \<Longrightarrow> mandate_grant_id x = i) \<Longrightarrow>
   map_of (mandate_step ev m) i = Some x \<Longrightarrow> mandate_grant_id x = i"
  by (auto simp: mandate_step_def split: option.splits if_splits)

lemma mandate_entry_id: "map_of (fold mandate_step evs []) i = Some m \<Longrightarrow> mandate_grant_id m = i"
proof (induction evs arbitrary: i m rule: rev_induct)
  case (snoc ev evs)
  show ?case
    using mandate_entry_id_step [OF mandate_ok snoc.IH] snoc.prems by simp
qed simp

text \<open>A standing mandate is live exactly when its grant event is in the log with target, scope and
  recipe, and no revocation naming its id comes after it.  Ids are unique in the log, so a revoked
  mandate never comes back.\<close>

lemma mandate_live_iff:
  "(\<exists>m\<in>set (fold_mandates evs). mandate_grant_id m = i \<and> \<not> m_revoked m) \<longleftrightarrow>
   (\<exists>xs ev ys. evs = xs @ ev # ys \<and> ev_id ev = i \<and> grants_mandate ev
      \<and> \<not> list_ex (revokes_mandate i) ys)"
proof -
  have "(\<exists>m\<in>set (fold_mandates evs). mandate_grant_id m = i \<and> \<not> m_revoked m) \<longleftrightarrow>
      live_mandate i (fold mandate_step evs [])"
    unfolding fold_mandates_def live_mandate_def
    using bt_values_keyed [OF mandate_ok [of evs], where key = mandate_grant_id and i = i
        and P = "\<lambda>m. \<not> m_revoked m"] mandate_entry_id by blast
  then show ?thesis by (simp add: live_mandate_fold list_ex_iff)
qed

section \<open>Pages and files: the last one standing\<close>

lemma fold_pages_upsert:
  "fold_pages evs = bt_values (fold (bt.upsert (page_entry (superseded_ids evs))) evs [])"
  by (simp add: fold_pages_def bt.upsert_def [abs_def])

lemma fold_files_upsert:
  "fold_files evs = bt_values (fold (bt.upsert (file_entry (superseded_ids evs))) evs [])"
  by (simp add: fold_files_def bt.upsert_def [abs_def])

lemma superseded_ids_iff:
  "i \<in> superseded_ids evs \<longleftrightarrow>
     (\<exists>ev\<in>set evs. ev_type ev = SUPERSEDE_T \<and> get_str (ev_content ev) ''supersedes'' = Some i)"
  unfolding superseded_ids_def
  by (induction evs rule: rev_induct) (auto split: option.split)

lemma bt_upsert_value_iff:
  "v \<in> set (bt_values (fold (bt.upsert f) evs [])) \<longleftrightarrow>
     (\<exists>k x. find_last (bt.keyed f k) evs = Some x \<and> f x = Some (k, v))"
proof -
  have "map_of (fold (bt.upsert f) evs []) k = Some v \<longleftrightarrow>
      (\<exists>x. find_last (bt.keyed f k) evs = Some x \<and> f x = Some (k, v))" for k
    by (cases "find_last (bt.keyed f k) evs")
      (use find_last_Some in \<open>fastforce simp: bt.get_fold_upsert bt.keyed_def\<close>)+
  then show ?thesis
    by (simp add: bt_values_iff [OF bt.ok_fold_upsert])
qed

text \<open>The current page of a topic is the last page event of that topic that no supersede event
  names, wherever in the log the supersede stands; so each topic has at most one current page.\<close>

lemma fold_pages_last_unsuperseded:
  "pg \<in> set (fold_pages evs) \<longleftrightarrow>
   (\<exists>ev. find_last (\<lambda>ev. ev_type ev = PAGE_T \<and> ev_id ev \<notin> superseded_ids evs
            \<and> map_option fst (parse_page_content (ev_content ev)) = Some (p_topic pg)) evs = Some ev
      \<and> p_event_id pg = ev_id ev
      \<and> parse_page_content (ev_content ev) = Some (p_topic pg, p_title pg, p_text pg))"
proof -
  have "bt.keyed (page_entry (superseded_ids evs)) k = (\<lambda>ev. ev_type ev = PAGE_T
      \<and> ev_id ev \<notin> superseded_ids evs
      \<and> map_option fst (parse_page_content (ev_content ev)) = Some k)" for k
    by (auto simp: bt.keyed_def page_entry_def fun_eq_iff)
  moreover have "page_entry gone ev = Some (k, pg) \<longleftrightarrow> ev_type ev = PAGE_T \<and> ev_id ev \<notin> gone
      \<and> k = p_topic pg \<and> p_event_id pg = ev_id ev
      \<and> parse_page_content (ev_content ev) = Some (p_topic pg, p_title pg, p_text pg)" for gone ev k
    by (cases pg) (auto simp: page_entry_def)
  ultimately show ?thesis
    by (auto simp: fold_pages_upsert bt_upsert_value_iff dest: find_last_Some)
qed

text \<open>The current record of an ingested path is the last \<open>file_ingested\<close> event of that path that no
  supersede event names.\<close>

lemma fold_files_last_unsuperseded:
  "fr \<in> set (fold_files evs) \<longleftrightarrow>
   (\<exists>ev. find_last (\<lambda>ev. ev_type ev = FILE_INGESTED_T \<and> ev_id ev \<notin> superseded_ids evs
            \<and> map_option fst (parse_file_ingested_content (ev_content ev)) = Some (f_path fr)) evs = Some ev
      \<and> f_event_id fr = ev_id ev
      \<and> parse_file_ingested_content (ev_content ev) = Some (f_path fr, f_hash fr, f_root fr))"
proof -
  have "bt.keyed (file_entry (superseded_ids evs)) k = (\<lambda>ev. ev_type ev = FILE_INGESTED_T
      \<and> ev_id ev \<notin> superseded_ids evs
      \<and> map_option fst (parse_file_ingested_content (ev_content ev)) = Some k)" for k
    by (auto simp: bt.keyed_def file_entry_def fun_eq_iff)
  moreover have "file_entry gone ev = Some (k, fr) \<longleftrightarrow> ev_type ev = FILE_INGESTED_T
      \<and> ev_id ev \<notin> gone \<and> k = f_path fr \<and> f_event_id fr = ev_id ev
      \<and> parse_file_ingested_content (ev_content ev) = Some (f_path fr, f_hash fr, f_root fr)" for gone ev k
    by (cases fr) (auto simp: file_entry_def)
  ultimately show ?thesis
    by (auto simp: fold_files_upsert bt_upsert_value_iff dest: find_last_Some)
qed

end
