(* ===== verification/Projections.thy ===== *)
theory Projections
  imports Graph
begin

text \<open>
  The projection tables of \<open>log.rs\<close>: \<open>rebuild_graph\<close> refills them from the event log in one
  transaction, and the graph queries read the edge table: all edges, current neighbours, the
  bi-temporal \<open>as_of\<close>, and the breadth-first neighbourhood that recall expands.
\<close>

section \<open>Tables\<close>

record tables =
  t_edges :: "edge list"
  t_nodes :: "(string \<times> string) list"
  t_entities :: "entity list"
  t_pages :: "page list"
  t_grants :: "grant list"
  t_write_grants :: "grant list"
  t_mandates :: "mandate list"
  t_files :: "file_record list"

definition empty_tables :: tables where
  "empty_tables = \<lparr>t_edges = [], t_nodes = [], t_entities = [], t_pages = [], t_grants = [],
     t_write_grants = [], t_mandates = [], t_files = []\<rparr>"

abbreviation "ENTITY_NODE_KIND \<equiv> ''entity''"
abbreviation "MEMORY_NODE_KIND \<equiv> ''memory''"
abbreviation "EXTERNAL_NODE_KIND \<equiv> ''external''"

definition graph_events_ordered :: "log \<Rightarrow> (boss_error, event list) result" where
  "graph_events_ordered log = payloads (filter (\<lambda>r. r_type r \<in> {''link'', ''invalidate''}) log)"

definition entity_events_ordered :: "log \<Rightarrow> (boss_error, event list) result" where
  "entity_events_ordered log = payloads (filter (\<lambda>r. r_type r = ENTITY_T) log)"

definition page_and_supersede_events_ordered :: "log \<Rightarrow> (boss_error, event list) result" where
  "page_and_supersede_events_ordered log =
     payloads (filter (\<lambda>r. r_type r \<in> {PAGE_T, SUPERSEDE_T}) log)"

definition grant_events_ordered :: "log \<Rightarrow> (boss_error, event list) result" where
  "grant_events_ordered log = payloads (filter (\<lambda>r. r_type r \<in> {GRANT_T, REVOKE_T}) log)"

definition write_grant_events_ordered :: "log \<Rightarrow> (boss_error, event list) result" where
  "write_grant_events_ordered log =
     payloads (filter (\<lambda>r. r_type r \<in> {WRITE_GRANT_T, WRITE_REVOKE_T}) log)"

definition mandate_events_ordered :: "log \<Rightarrow> (boss_error, event list) result" where
  "mandate_events_ordered log =
     payloads (filter (\<lambda>r. r_type r \<in> {MANDATE_GRANT_T, MANDATE_REVOKE_T}) log)"

definition file_and_supersede_events_ordered :: "log \<Rightarrow> (boss_error, event list) result" where
  "file_and_supersede_events_ordered log =
     payloads (filter (\<lambda>r. r_type r \<in> {FILE_INGESTED_T, SUPERSEDE_T}) log)"

definition memory_page_ids :: "log \<Rightarrow> string set" where
  "memory_page_ids log = set (map r_id (filter (\<lambda>r. r_type r \<in> {MEMORY_T, PAGE_T}) log))"

definition node_kind :: "entity list \<Rightarrow> string set \<Rightarrow> string \<Rightarrow> string" where
  "node_kind entities memory_ids endpoint =
     (if endpoint \<in> entity_id ` set entities then ENTITY_NODE_KIND
      else if endpoint \<in> memory_ids then MEMORY_NODE_KIND else EXTERNAL_NODE_KIND)"

definition node_kinds :: "edge list \<Rightarrow> entity list \<Rightarrow> string set \<Rightarrow> (string \<times> string) list" where
  "node_kinds edges entities memory_ids =
     fold (\<lambda>e m. fold (\<lambda>endpoint m. case map_of m endpoint of
           None \<Rightarrow> bt_insert endpoint (node_kind entities memory_ids endpoint) m
         | Some _ \<Rightarrow> m) [e_src e, e_dst e] m) edges []"

definition rebuild_graph :: "(string \<Rightarrow> string option) \<Rightarrow> log \<Rightarrow> (boss_error, tables) result" where
  "rebuild_graph fmt log =
     rbind (graph_events_ordered log) (\<lambda>graph.
     rbind (entity_events_ordered log) (\<lambda>ents.
     rbind (page_and_supersede_events_ordered log) (\<lambda>pages.
     rbind (grant_events_ordered log) (\<lambda>grants.
     rbind (write_grant_events_ordered log) (\<lambda>wgrants.
     rbind (mandate_events_ordered log) (\<lambda>mandates.
     rbind (file_and_supersede_events_ordered log) (\<lambda>files.
       let edges = fold_edges fmt graph; entities = fold_entities ents in
       Inr \<lparr>t_edges = edges,
            t_nodes = node_kinds edges entities (memory_page_ids log),
            t_entities = entities, t_pages = fold_pages pages, t_grants = fold_grants grants,
            t_write_grants = fold_write_grants wgrants, t_mandates = fold_mandates mandates,
            t_files = fold_files files\<rparr>)))))))"

section \<open>Queries\<close>

definition order_by_id :: "edge list \<Rightarrow> edge list" where
  "order_by_id es = sort_key edge_id es"

definition all_edges :: "tables \<Rightarrow> edge list" where
  "all_edges t = order_by_id (t_edges t)"

definition neighbors :: "tables \<Rightarrow> string \<Rightarrow> edge list" where
  "neighbors t n = order_by_id
     (filter (\<lambda>e. (e_src e = n \<or> e_dst e = n) \<and> invalidated_at e = None) (t_edges t))"

record as_of_point =
  valid_time :: "string option"
  known_as_of :: "string option"

definition valid_at :: "string \<Rightarrow> edge \<Rightarrow> bool" where
  "valid_at t e \<longleftrightarrow> valid_from e \<le> t \<and> (case valid_to e of None \<Rightarrow> True | Some v \<Rightarrow> t < v)"

definition known_at :: "string \<Rightarrow> edge \<Rightarrow> bool" where
  "known_at t e \<longleftrightarrow> ingested_at e \<le> t \<and> (case invalidated_at e of None \<Rightarrow> True | Some v \<Rightarrow> t < v)"

definition as_of :: "(string \<Rightarrow> string option) \<Rightarrow> tables \<Rightarrow> string \<Rightarrow> as_of_point \<Rightarrow> edge list" where
  "as_of fmt t n p =
     (let valid = map_option (normalize_ts fmt) (valid_time p);
          known = map_option (normalize_ts fmt) (known_as_of p)
      in order_by_id (filter (\<lambda>e. (e_src e = n \<or> e_dst e = n)
        \<and> (case (valid, known) of (None, None) \<Rightarrow> invalidated_at e = None
           | _ \<Rightarrow> (case valid of None \<Rightarrow> True | Some v \<Rightarrow> valid_at v e)
               \<and> (case known of None \<Rightarrow> True | Some k \<Rightarrow> known_at k e))) (t_edges t)))"

text \<open>\<open>to_confidence_milli(TRUST_MIN)\<close> is 600.\<close>

abbreviation "TRUST_MIN_MILLI \<equiv> (600 :: int)"

definition trusted :: "edge \<Rightarrow> bool" where
  "trusted e \<longleftrightarrow> e_origin e = ''manual''
     \<or> (e_origin e = ''machine'' \<and> (case confidence_milli e of None \<Rightarrow> False | Some m \<Rightarrow> m \<ge> TRUST_MIN_MILLI))"

definition current_adjacent :: "tables \<Rightarrow> string set \<Rightarrow> string set" where
  "current_adjacent t frontier =
     (let es = filter (\<lambda>e. invalidated_at e = None \<and> trusted e) (t_edges t) in
      set (map e_dst (filter (\<lambda>e. e_src e \<in> frontier) es))
      \<union> set (map e_src (filter (\<lambda>e. e_dst e \<in> frontier) es)))"

text \<open>The loop \<open>for hop in 1..=max_hops\<close>: \<open>hop\<close> counts up while \<open>left\<close> rounds remain.\<close>

fun hop_loop :: "tables \<Rightarrow> nat \<Rightarrow> nat \<Rightarrow> string set \<Rightarrow> string set \<Rightarrow> (string \<Rightarrow> nat option)
    \<Rightarrow> (string \<Rightarrow> nat option)" where
  "hop_loop t 0 hop frontier visited hops = hops"
| "hop_loop t (Suc left) hop frontier visited hops =
     (if frontier = {} then hops
      else let new = current_adjacent t frontier - visited in
        hop_loop t left (Suc hop) new (visited \<union> new)
          (\<lambda>i. if i \<in> new then Some hop else hops i))"

definition current_neighbors_with_hops :: "tables \<Rightarrow> string list \<Rightarrow> nat \<Rightarrow> (string \<Rightarrow> nat option)" where
  "current_neighbors_with_hops t seeds max_hops =
     hop_loop t max_hops 1 (set seeds) (set seeds) (\<lambda>_. None)"

section \<open>The neighbourhood has shortest distances\<close>

text \<open>The ids within \<open>d\<close> trusted current edges of the seeds.\<close>

fun ball :: "tables \<Rightarrow> string set \<Rightarrow> nat \<Rightarrow> string set" where
  "ball t seeds 0 = seeds"
| "ball t seeds (Suc d) = ball t seeds d \<union> current_adjacent t (ball t seeds d)"

lemma current_adjacent_empty [simp]: "current_adjacent t {} = {}"
  by (simp add: current_adjacent_def Let_def)

lemma current_adjacent_Un: "current_adjacent t (A \<union> B) = current_adjacent t A \<union> current_adjacent t B"
  by (auto simp: current_adjacent_def Let_def)

lemma ball_mono: "d \<le> d' \<Longrightarrow> ball t s d \<subseteq> ball t s d'"
  by (induction d') (auto simp: le_Suc_eq)

text \<open>The frontier is the last sphere, and what was reached before has all its neighbours visited.\<close>

definition sphere_ok :: "tables \<Rightarrow> string set \<Rightarrow> nat \<Rightarrow> string set \<Rightarrow> bool" where
  "sphere_ok t s d frontier \<longleftrightarrow> frontier \<subseteq> ball t s d \<and>
     current_adjacent t (ball t s d - frontier) \<subseteq> ball t s d"

lemma sphere_step:
  assumes "sphere_ok t s d frontier"
  defines "new \<equiv> current_adjacent t frontier - ball t s d"
  shows "ball t s (Suc d) = ball t s d \<union> new" "sphere_ok t s (Suc d) new" "new = ball t s (Suc d) - ball t s d"
proof -
  have "ball t s d = (ball t s d - frontier) \<union> frontier"
    using assms by (auto simp: sphere_ok_def)
  then have "current_adjacent t (ball t s d) =
      current_adjacent t (ball t s d - frontier) \<union> current_adjacent t frontier"
    by (metis current_adjacent_Un)
  then show b: "ball t s (Suc d) = ball t s d \<union> new"
    using assms by (auto simp: sphere_ok_def)
  then show "new = ball t s (Suc d) - ball t s d"
    by (auto simp: new_def)
  then have "ball t s (Suc d) - new = ball t s d"
    using b by (auto simp: new_def)
  then show "sphere_ok t s (Suc d) new"
    using b by (auto simp: sphere_ok_def)
qed

lemma peel:
  "(\<exists>k. d < k \<and> k \<le> d + Suc m \<and> P k) \<longleftrightarrow> P (Suc d) \<or> (\<exists>k. Suc d < k \<and> k \<le> Suc d + m \<and> P k)"
  (is "?L \<longleftrightarrow> ?R")
proof
  assume ?L
  then obtain k where k: "d < k" "k \<le> d + Suc m" "P k" by blast
  then show ?R by (cases "k = Suc d") auto
next
  assume ?R
  then show ?L
  proof
    assume "P (Suc d)"
    then show ?L by (intro exI [of _ "Suc d"]) simp
  next
    assume "\<exists>k. Suc d < k \<and> k \<le> Suc d + m \<and> P k"
    then obtain k where "Suc d < k" "k \<le> Suc d + m" "P k" by blast
    then show ?L by (intro exI [of _ k]) simp
  qed
qed

lemma hop_loop_ball:
  assumes "sphere_ok t s d frontier" "hop = Suc d"
  shows "hop_loop t left hop frontier (ball t s d) hops i =
     (if \<exists>k. d < k \<and> k \<le> d + left \<and> i \<in> ball t s k - ball t s (k - 1)
      then Some (LEAST k. i \<in> ball t s k) else hops i)"
  using assms
proof (induction left arbitrary: d hop frontier hops)
  case 0
  then show ?case by auto
next
  case (Suc left)
  define new where "new = current_adjacent t frontier - ball t s d"
  note st = sphere_step [OF Suc.prems(1), folded new_def]
  have split: "(\<exists>k. d < k \<and> k \<le> d + Suc left \<and> i \<in> ball t s k - ball t s (k - 1)) \<longleftrightarrow>
      i \<in> new \<or> (\<exists>k. Suc d < k \<and> k \<le> Suc d + left \<and> i \<in> ball t s k - ball t s (k - 1))"
  proof -
    have "i \<in> new \<longleftrightarrow> i \<in> ball t s (Suc d) - ball t s (Suc d - 1)"
      using st(3) by simp
    then show ?thesis
      using peel [of d left "\<lambda>k. i \<in> ball t s k - ball t s (k - 1)"] by simp
  qed
  have least: "(LEAST k. i \<in> ball t s k) = Suc d" if "i \<in> new"
    using that st(3) by (intro Least_equality) (auto dest: ball_mono [THEN subsetD] simp: not_less_eq_eq [symmetric])
  have later: "i \<notin> new" if "Suc d < k" "i \<in> ball t s k - ball t s (k - 1)" for k
  proof -
    have "ball t s (Suc d) \<subseteq> ball t s (k - 1)"
      using that(1) by (intro ball_mono) simp
    then show ?thesis using that(2) st(1) by auto
  qed
  show ?case
  proof (cases "frontier = {}")
    case True
    then have stable: "ball t s (d + m) = ball t s d" for m
      using Suc.prems(1) by (induction m) (auto simp: sphere_ok_def)
    have "\<not> (\<exists>k. d < k \<and> k \<le> d + Suc left \<and> i \<in> ball t s k - ball t s (k - 1))"
    proof clarify
      fix k assume k: "d < k" "i \<in> ball t s k" "i \<notin> ball t s (k - 1)"
      have "ball t s k = ball t s d" "ball t s (k - 1) = ball t s d"
        using stable [of "k - d"] stable [of "k - 1 - d"] k(1) by simp_all
      then show False using k by simp
    qed
    then show ?thesis using True by auto
  next
    case False
    have "hop_loop t (Suc left) hop frontier (ball t s d) hops i =
        hop_loop t left (Suc hop) new (ball t s (Suc d)) (\<lambda>i. if i \<in> new then Some hop else hops i) i"
      using False by (simp add: Let_def new_def [symmetric] st(1) del: ball.simps)
    also have "\<dots> = (if \<exists>k. Suc d < k \<and> k \<le> Suc d + left \<and> i \<in> ball t s k - ball t s (k - 1)
        then Some (LEAST k. i \<in> ball t s k) else if i \<in> new then Some hop else hops i)"
      using Suc.IH [OF st(2)] Suc.prems(2) by simp
    finally show ?thesis
      using split least Suc.prems(2) by auto
  qed
qed

text \<open>C20. The neighbourhood that recall expands is exactly the set of non-seed ids within \<open>max_hops\<close>
  trusted, current edges, in either direction, and each carries its shortest distance.\<close>

theorem neighbors_hops_shortest:
  "current_neighbors_with_hops t seeds max_hops i =
     (if i \<in> ball t (set seeds) max_hops - set seeds
      then Some (LEAST k. i \<in> ball t (set seeds) k) else None)"
proof -
  have "(\<exists>k. 0 < k \<and> k \<le> m \<and> i \<in> ball t s k - ball t s (k - 1)) \<longleftrightarrow> i \<in> ball t s m - s" for m s
  proof (induction m)
    case (Suc m)
    have "s \<subseteq> ball t s m" using ball_mono [of 0 m t s] by simp
    then show ?case
      using Suc ball_mono [of m "Suc m" t s]
      by (auto simp: le_Suc_eq simp del: ball.simps(2))
  qed simp
  moreover have "sphere_ok t s 0 s" for s
    by (simp add: sphere_ok_def)
  ultimately show ?thesis
    using hop_loop_ball [of t "set seeds" 0 "set seeds" 1 max_hops "\<lambda>_. None" i]
    by (simp add: current_neighbors_with_hops_def)
qed

section \<open>Time travel\<close>

definition ts_of :: "(string \<Rightarrow> string option) \<Rightarrow> event \<Rightarrow> string" where
  "ts_of fmt ev = normalize_ts fmt (ev_ts ev)"

lemma settle_append:
  "settle fmt (xs @ ys) e = (if List.find (invalidates (edge_key e)) xs = None then settle fmt ys e
     else settle fmt xs e)"
  by (auto simp: settle_def find_append split: option.split)

lemma ref_edges_append:
  "ref_edges fmt (xs @ ys) = map (\<lambda>e. if is_current e then settle fmt ys e else e) (ref_edges fmt xs)
     @ ref_edges fmt ys"
proof (induction xs)
  case Nil
  then show ?case by simp
next
  case (Cons ev xs)
  show ?case
  proof (cases "opened fmt ev")
    case None
    then show ?thesis using Cons by simp
  next
    case (Some e)
    have "settle fmt (xs @ ys) e = (if is_current (settle fmt xs e) then settle fmt ys (settle fmt xs e)
        else settle fmt xs e)"
      using opened_current [OF Some]
      by (cases "List.find (invalidates (edge_key e)) xs")
        (auto simp: settle_def find_append split: option.split)
    then show ?thesis using Cons Some by simp
  qed
qed

lemma settle_sel [simp]:
  "edge_id (settle fmt later e) = edge_id e" "ingested_at (settle fmt later e) = ingested_at e"
  by (simp_all add: settle_def close_edge_def split: option.split)

lemma ref_edges_ingested: "e \<in> set (ref_edges fmt evs) \<Longrightarrow> \<exists>ev\<in>set evs. ingested_at e = ts_of fmt ev"
  by (induction evs) (auto simp: opened_def open_edge_def ts_of_def Let_def split: option.splits if_splits)

lemma ref_edges_invalidated:
  "e \<in> set (ref_edges fmt evs) \<Longrightarrow> invalidated_at e = Some t \<Longrightarrow> \<exists>ev\<in>set evs. t = ts_of fmt ev"
proof (induction evs)
  case (Cons ev evs)
  have "\<exists>ev\<in>set evs. t = ts_of fmt ev"
    if "opened fmt ev = Some e'" "invalidated_at (settle fmt evs e') = Some t" for e'
    using that opened_current [OF that(1)]
    by (auto simp: settle_def is_current_def close_edge_def ts_of_def dest: find_SomeD split: option.splits)
  then show ?case
    using Cons by (auto split: option.splits)
qed simp

lemma settle_known:
  assumes "is_current e" "\<forall>ev\<in>set ys. t < ts_of fmt ev" "ingested_at e \<le> t"
  shows "known_at t (settle fmt ys e)"
  using assms by (auto simp: settle_def known_at_def close_edge_def is_current_def ts_of_def
      dest: find_SomeD split: option.split)

text \<open>An edge as it was when it was opened.\<close>

definition reopened :: "edge \<Rightarrow> edge" where
  "reopened e = e\<lparr>valid_to := None, invalidated_at := None, invalidated_by := None\<rparr>"

lemma reopened_sel [simp]: "edge_id (reopened e) = edge_id e" "e_src (reopened e) = e_src e" "e_dst (reopened e) = e_dst e"
  by (simp_all add: reopened_def)

lemma reopened_settle [simp]: "reopened (settle fmt ys e) = reopened e"
  by (simp add: reopened_def settle_def close_edge_def split: option.split)

lemma settle_ends [simp]: "e_src (settle fmt ys e) = e_src e" "e_dst (settle fmt ys e) = e_dst e"
  by (simp_all add: settle_def close_edge_def split: option.split)

lemma ref_edges_open: "e \<in> set (ref_edges fmt evs) \<Longrightarrow> is_current e \<Longrightarrow> reopened e = e"
proof (induction evs)
  case (Cons ev evs)
  have "reopened e' = e'" if "opened fmt ev = Some e'" for e'
    using that by (auto simp: opened_def open_edge_def reopened_def Let_def split: if_splits)
  moreover have "\<not> is_current (settle fmt evs e') \<or> settle fmt evs e' = e'" for e'
    by (simp add: settle_def split: option.split)
  ultimately show ?case
    using Cons by (auto split: option.splits) metis
qed simp

lemma map_sort_key: "(\<And>x. k (f x) = k x) \<Longrightarrow> map f (sort_key k xs) = sort_key k (map f xs)"
proof -
  assume k: "\<And>x. k (f x) = k x"
  have "map f (insort_key k x ys) = insort_key k (f x) (map f ys)" for x ys
    by (induction ys) (simp_all add: k)
  then show ?thesis by (induction xs) simp_all
qed

text \<open>What was known at \<open>t\<close>, edge by edge, whatever was invalidated or linked since.\<close>

lemma known_edges:
  assumes "\<forall>ev\<in>set xs. ts_of fmt ev \<le> t" and "\<forall>ev\<in>set ys. t < ts_of fmt ev"
  shows "map reopened (filter (\<lambda>e. P (e_src e) (e_dst e) \<and> known_at t e) (fold_edges fmt (xs @ ys))) =
    filter (\<lambda>e. P (e_src e) (e_dst e) \<and> is_current e) (fold_edges fmt xs)"
proof -
  have new: "filter (\<lambda>e. P (e_src e) (e_dst e) \<and> known_at t e) (ref_edges fmt ys) = []"
    using assms(2) ref_edges_ingested [of _ fmt ys] by (fastforce simp: filter_empty_conv known_at_def)
  have old: "known_at t (if is_current e then settle fmt ys e else e) = is_current e"
    if e: "e \<in> set (ref_edges fmt xs)" for e
  proof (cases "is_current e")
    case True
    have "ingested_at e \<le> t" using ref_edges_ingested [OF e] assms(1) by auto
    then show ?thesis using True settle_known [OF True assms(2)] by simp
  next
    case False
    then obtain u where u: "invalidated_at e = Some u" by (auto simp: is_current_def)
    have "u \<le> t" using ref_edges_invalidated [OF e u] assms(1) by auto
    then show ?thesis using False u by (auto simp: known_at_def)
  qed
  have "map reopened (filter (\<lambda>e. P (e_src e) (e_dst e) \<and> known_at t e) (map (\<lambda>e. if is_current e then settle fmt ys e else e) es)) =
      filter (\<lambda>e. P (e_src e) (e_dst e) \<and> is_current e) es" if "set es \<subseteq> set (ref_edges fmt xs)" for es
    using that ref_edges_open [of _ fmt xs] by (induction es) (auto simp: old)
  then show ?thesis
    by (simp add: fold_edges_ref ref_edges_append new)
qed

lemma payloads_rows: "payloads rows = Inr evs \<Longrightarrow> ev \<in> set evs \<Longrightarrow> \<exists>r\<in>set rows. r_payload r = Some ev"
  by (induction rows arbitrary: evs) (auto simp: rbind_eq_Inr split: option.splits)

lemma graph_events_rows:
  "graph_events_ordered log = Inr evs \<Longrightarrow> set evs \<subseteq> set (List.map_filter r_payload log)"
  using payloads_rows by (fastforce simp: graph_events_ordered_def List.map_filter_def image_iff)

text \<open>C19. Time travel is exact.  Take a log whose rows up to some point were recorded at or before \<open>d\<close> and the
  later ones after it.  \<open>as_of\<close> with \<open>known_as_of = d\<close> on the present tables returns, edge for edge and in the
  same order, what the query for current edges returned on the tables of that point, each edge as it was
  before a later row closed it; a world-clock time given as well keeps exactly the edges whose validity
  interval contains it.\<close>

theorem known_as_of_is_history:
  assumes "rebuild_graph fmt (past @ later) = Inr now" and "rebuild_graph fmt past = Inr past_tables"
    and "\<forall>ev\<in>set (List.map_filter r_payload past). ts_of fmt ev \<le> normalize_ts fmt d"
    and "\<forall>ev\<in>set (List.map_filter r_payload later). normalize_ts fmt d < ts_of fmt ev"
  shows "map reopened (as_of fmt now n \<lparr>valid_time = None, known_as_of = Some d\<rparr>)
      = as_of fmt past_tables n \<lparr>valid_time = None, known_as_of = None\<rparr>
    \<and> as_of fmt now n \<lparr>valid_time = Some w, known_as_of = Some d\<rparr> =
        filter (\<lambda>e. valid_from e \<le> normalize_ts fmt w
          \<and> (case valid_to e of None \<Rightarrow> True | Some u \<Rightarrow> normalize_ts fmt w < u))
          (as_of fmt now n \<lparr>valid_time = None, known_as_of = Some d\<rparr>)"
proof -
  obtain xs zs where xs: "graph_events_ordered past = Inr xs" "t_edges past_tables = fold_edges fmt xs"
    and zs: "graph_events_ordered (past @ later) = Inr zs" "t_edges now = fold_edges fmt zs"
    using assms(1,2) by (auto simp: rebuild_graph_def rbind_eq_Inr Let_def)
  obtain ys where ys: "graph_events_ordered later = Inr ys" "zs = xs @ ys"
    using xs(1) zs(1) by (auto simp: graph_events_ordered_def payloads_append rbind_eq_Inr)
  have t: "\<forall>ev\<in>set xs. ts_of fmt ev \<le> normalize_ts fmt d" "\<forall>ev\<in>set ys. normalize_ts fmt d < ts_of fmt ev"
    using assms(3,4) graph_events_rows [OF xs(1)] graph_events_rows [OF ys(1)] by blast+
  have "map reopened (as_of fmt now n \<lparr>valid_time = None, known_as_of = Some d\<rparr>)
      = order_by_id (map reopened (filter (\<lambda>e. (e_src e = n \<or> e_dst e = n) \<and> known_at (normalize_ts fmt d) e)
          (fold_edges fmt (xs @ ys))))"
    by (simp add: as_of_def order_by_id_def map_sort_key zs(2) ys(2))
  also have "\<dots> = as_of fmt past_tables n \<lparr>valid_time = None, known_as_of = None\<rparr>"
    unfolding known_edges [OF t, of "\<lambda>s d. s = n \<or> d = n"] by (simp add: as_of_def xs(2) is_current_def)
  finally show ?thesis
    by (auto simp: as_of_def order_by_id_def filter_sort valid_at_def intro!: arg_cong [of _ _ "sort_key edge_id"] filter_cong)
qed

text \<open>An edge opened at time 1 and invalidated at time 3 is known as of time 2.\<close>

definition demo_edge_event :: "string \<Rightarrow> string \<Rightarrow> string \<Rightarrow> event" where
  "demo_edge_event ty i ts = (draft_event ty
     (jobj [(''src'', JStr ''a''), (''relation'', JStr ''r''), (''dst'', JStr ''b'')]) None)\<lparr>ev_id := i, ev_ts := ts\<rparr>"

definition demo_edge_row :: "event \<Rightarrow> row" where
  "demo_edge_row ev = \<lparr>r_id = ev_id ev, r_ts = ev_ts ev, r_type = ev_type ev, r_payload = Some ev, r_prev = [], r_hash = []\<rparr>"

definition demo_past :: log where
  "demo_past = [demo_edge_row (demo_edge_event ''link'' ''e'' ''1'')]"

definition demo_later :: log where
  "demo_later = [demo_edge_row (demo_edge_event ''invalidate'' ''i'' ''3'')]"

theorem known_as_of_is_history_witness:
  "\<exists>now. rebuild_graph (\<lambda>_. None) (demo_past @ demo_later) = Inr now
    \<and> as_of (\<lambda>_. None) now ''a'' \<lparr>valid_time = None, known_as_of = None\<rparr> = []
    \<and> map edge_id (map reopened (as_of (\<lambda>_. None) now ''a'' \<lparr>valid_time = None, known_as_of = Some ''2''\<rparr>)) = [''e'']"
proof -
  let ?now = "projr (rebuild_graph (\<lambda>_. None) (demo_past @ demo_later))"
  let ?past_tables = "projr (rebuild_graph (\<lambda>_. None) demo_past)"
  have "is_ok (rebuild_graph (\<lambda>_. None) (demo_past @ demo_later))" "is_ok (rebuild_graph (\<lambda>_. None) demo_past)"
    by code_simp+
  then have ok: "rebuild_graph (\<lambda>_. None) (demo_past @ demo_later) = Inr ?now" "rebuild_graph (\<lambda>_. None) demo_past = Inr ?past_tables"
    by (auto simp: is_ok_iff)
  have "\<forall>ev\<in>set (List.map_filter r_payload demo_past). ts_of (\<lambda>_. None) ev \<le> normalize_ts (\<lambda>_. None) ''2''"
    "\<forall>ev\<in>set (List.map_filter r_payload demo_later). normalize_ts (\<lambda>_. None) ''2'' < ts_of (\<lambda>_. None) ev"
    by code_simp+
  from known_as_of_is_history [OF ok this]
  have "map reopened (as_of (\<lambda>_. None) ?now ''a'' \<lparr>valid_time = None, known_as_of = Some ''2''\<rparr>)
      = as_of (\<lambda>_. None) ?past_tables ''a'' \<lparr>valid_time = None, known_as_of = None\<rparr>" by blast
  moreover have "map edge_id (as_of (\<lambda>_. None) ?past_tables ''a'' \<lparr>valid_time = None, known_as_of = None\<rparr>) = [''e'']"
    "as_of (\<lambda>_. None) ?now ''a'' \<lparr>valid_time = None, known_as_of = None\<rparr> = []" by code_simp+
  ultimately show ?thesis using ok(1) by metis
qed

end
