(* ===== verification/FileSystem.thy ===== *)
theory FileSystem
  imports Event "HOL-Library.Sublist"
begin

text \<open>
  The part of the operating system that the actuator calls through \<open>std::fs\<close> and \<open>rustix::fs\<close>:
  absolute paths, symbolic links, \<open>canonicalize\<close>, \<open>symlink_metadata\<close>, \<open>read\<close>, the fd-relative
  calls on one directory, and \<open>atomic_write\<close> of \<open>actuator.rs\<close>.

  A path is absolute and is the list that \<open>Path::components\<close> yields, so a component is neither empty nor
  \<open>.\<close>, but may be \<open>..\<close>.  A file system maps a canonical path to what its name holds.
  A regular file keeps its contents at the name: the engine replaces names and never writes into an
  existing inode, so two names of one inode need only agree on \<open>(dev, ino)\<close>.  Another process may
  change the file system between two operations, never inside one.
\<close>

section \<open>Paths\<close>

type_synonym path = "string list"

definition path_str :: "path \<Rightarrow> string" where
  "path_str p = (if p = [] then ''/'' else concat (map (\<lambda>c. CHR ''/'' # c) p))"

fun split_slash :: "string \<Rightarrow> string \<Rightarrow> string list" where
  "split_slash acc [] = [rev acc]"
| "split_slash acc (c # cs) = (if c = CHR ''/'' then rev acc # split_slash [] cs
     else split_slash (c # acc) cs)"

text \<open>\<open>Path::components\<close> of an absolute path: empty and \<open>.\<close> components disappear.\<close>

definition str_path :: "string \<Rightarrow> path" where
  "str_path s = filter (\<lambda>c. c \<noteq> [] \<and> c \<noteq> ''.'') (split_slash [] s)"

definition path_starts_with :: "path \<Rightarrow> string \<Rightarrow> bool" where
  "path_starts_with p root = prefix (str_path root) p"

definition path_parent :: "path \<Rightarrow> path option" where
  "path_parent p = (if p = [] then None else Some (butlast p))"

definition path_file_name :: "path \<Rightarrow> string option" where
  "path_file_name p = (if p = [] \<or> last p = ''..'' then None else Some (last p))"

definition comp_ok :: "string \<Rightarrow> bool" where
  "comp_ok c \<longleftrightarrow> c \<noteq> [] \<and> c \<noteq> ''.'' \<and> CHR ''/'' \<notin> set c"

lemma split_slash_noslash: "CHR ''/'' \<notin> set s \<Longrightarrow> split_slash acc (s @ CHR ''/'' # r) = (rev acc @ s) # split_slash [] r"
  by (induction s arbitrary: acc) auto

lemma split_slash_end: "CHR ''/'' \<notin> set s \<Longrightarrow> split_slash acc s = [rev acc @ s]"
  by (induction s arbitrary: acc) auto

lemma split_path_str:
  "list_all comp_ok (c # p) \<Longrightarrow> split_slash [] (c @ concat (map (\<lambda>c. CHR ''/'' # c) p)) = c # p"
proof (induction p arbitrary: c)
  case Nil
  then show ?case by (simp add: comp_ok_def split_slash_end)
next
  case (Cons d p)
  then show ?case by (simp add: comp_ok_def split_slash_noslash)
qed

lemma str_path_str [simp]: "list_all comp_ok p \<Longrightarrow> str_path (path_str p) = p"
proof (cases p)
  case Nil
  then show ?thesis by (simp add: path_str_def str_path_def)
next
  case (Cons c q)
  assume ok: "list_all comp_ok p"
  then have "split_slash [] (path_str p) = [] # p"
    using split_path_str [of c q] by (simp add: path_str_def Cons)
  then show ?thesis
    using ok by (auto simp: str_path_def comp_ok_def list_all_iff intro: filter_True)
qed

section \<open>Files\<close>

record file_id =
  fi_dev :: nat
  fi_ino :: nat
  fi_size :: nat

datatype node =
    NDir file_id
  | NLink file_id bool path
  | NFile nat nat bytes

type_synonym fs = "path \<Rightarrow> node option"

fun node_id :: "node \<Rightarrow> file_id" where
  "node_id (NDir i) = i"
| "node_id (NLink i _ _) = i"
| "node_id (NFile d i b) = \<lparr>fi_dev = d, fi_ino = i, fi_size = length b\<rparr>"

fun is_link :: "node \<Rightarrow> bool" where
  "is_link (NLink _ _ _) = True"
| "is_link _ = False"

text \<open>Component-by-component resolution; the first argument bounds the links followed (\<open>ELOOP\<close>).\<close>

function resolve :: "nat \<Rightarrow> fs \<Rightarrow> path \<Rightarrow> path \<Rightarrow> path option" where
  "resolve n fs acc [] = Some acc"
| "resolve n fs acc (c # cs) =
     (if c = ''.'' then resolve n fs acc cs
      else if c = ''..'' then resolve n fs (butlast acc) cs
      else case fs (acc @ [c]) of
        None \<Rightarrow> None
      | Some (NDir _) \<Rightarrow> resolve n fs (acc @ [c]) cs
      | Some (NFile _ _ _) \<Rightarrow> (if cs = [] then Some (acc @ [c]) else None)
      | Some (NLink _ absolute t) \<Rightarrow>
          (case n of 0 \<Rightarrow> None
           | Suc m \<Rightarrow> resolve m fs (if absolute then [] else acc) (t @ cs)))"
  by pat_completeness auto
termination
  by (relation "measures [\<lambda>(n, _, _, _). n, \<lambda>(_, _, _, cs). length cs]") auto

definition canonicalize :: "fs \<Rightarrow> path \<Rightarrow> path option" where
  "canonicalize fs p = resolve 40 fs [] p"

text \<open>A resolved path: every component names a directory.\<close>

fun dirs_down :: "fs \<Rightarrow> path \<Rightarrow> bool" where
  "dirs_down fs [] = True"
| "dirs_down fs (c # r) \<longleftrightarrow>
     dirs_down fs r \<and> c \<noteq> ''.'' \<and> c \<noteq> ''..'' \<and> (\<exists>i. fs (rev r @ [c]) = Some (NDir i))"

definition canon :: "fs \<Rightarrow> path \<Rightarrow> bool" where
  "canon fs q = dirs_down fs (rev q)"

lemma canon_Nil [simp]: "canon fs []"
  by (simp add: canon_def)

lemma canon_snoc:
  "canon fs (q @ [c]) \<longleftrightarrow> canon fs q \<and> c \<noteq> ''.'' \<and> c \<noteq> ''..'' \<and> (\<exists>i. fs (q @ [c]) = Some (NDir i))"
  by (simp add: canon_def)

lemma canon_append: "canon fs (xs @ ys) \<Longrightarrow> canon fs xs"
  by (induction ys rule: rev_induct) (auto simp: canon_snoc simp flip: append_assoc)

lemma canon_butlast: "canon fs q \<Longrightarrow> canon fs (butlast q)"
  by (cases q rule: rev_cases) (auto simp: canon_snoc)

lemma resolve_canon:
  "canon fs acc \<Longrightarrow> resolve n fs acc cs = Some q \<Longrightarrow>
   canon fs q \<or> (\<exists>a c d i b. q = a @ [c] \<and> canon fs a \<and> c \<noteq> ''.'' \<and> c \<noteq> ''..'' \<and> fs q = Some (NFile d i b))"
proof (induction n fs acc cs rule: resolve.induct)
  case (1 n fs acc)
  then show ?case by simp
next
  case (2 n fs acc c cs)
  show ?case
  proof (cases "c = ''.'' \<or> c = ''..''")
    case True
    then show ?thesis using 2 by (auto simp: canon_butlast split: if_splits)
  next
    case False
    then show ?thesis
      using 2 by (auto simp: canon_snoc split: option.splits node.splits nat.splits if_splits)
  qed
qed

lemma resolve_dirs: "canon fs (acc @ cs) \<Longrightarrow> resolve n fs acc (cs @ ds) = resolve n fs (acc @ cs) ds"
proof (induction cs arbitrary: acc)
  case (Cons c cs)
  have "canon fs ((acc @ [c]) @ cs)" using Cons.prems by simp
  then have "resolve n fs (acc @ [c]) (cs @ ds) = resolve n fs ((acc @ [c]) @ cs) ds"
    by (rule Cons.IH)
  moreover have "c \<noteq> ''.'' \<and> c \<noteq> ''..'' \<and> (\<exists>i. fs (acc @ [c]) = Some (NDir i))"
    using canon_append [of fs "acc @ [c]" cs] Cons.prems by (simp add: canon_snoc)
  ultimately show ?case by auto
qed simp

lemma canonicalize_canon: "canon fs q \<Longrightarrow> canonicalize fs q = Some q"
  using resolve_dirs [of fs "[]" q 40 "[]"] by (simp add: canonicalize_def)

lemma canonicalize_file:
  "canon fs q \<Longrightarrow> fs (q @ [c]) = Some (NFile d i b) \<Longrightarrow> c \<noteq> ''.'' \<Longrightarrow> c \<noteq> ''..'' \<Longrightarrow>
   canonicalize fs (q @ [c]) = Some (q @ [c])"
  using resolve_dirs [of fs "[]" q 40 "[c]"] by (simp add: canonicalize_def)

lemma canon_update: "length q < length p \<Longrightarrow> canon (fs(p := x)) q = canon fs q"
  by (induction q rule: rev_induct) (auto simp: canon_snoc)

definition symlink_metadata :: "fs \<Rightarrow> path \<Rightarrow> node option" where
  "symlink_metadata fs p =
     (if p = [] then fs []
      else if last p = ''.'' \<or> last p = ''..'' then Option.bind (canonicalize fs p) fs
      else Option.bind (canonicalize fs (butlast p)) (\<lambda>d. fs (d @ [last p])))"

definition read_file :: "fs \<Rightarrow> path \<Rightarrow> bytes option" where
  "read_file fs p = Option.bind (canonicalize fs p)
     (\<lambda>q. case fs q of Some (NFile _ _ b) \<Rightarrow> Some b | _ \<Rightarrow> None)"

definition canonicalize_target_or_parent :: "fs \<Rightarrow> path \<Rightarrow> path option" where
  "canonicalize_target_or_parent fs target =
     (case path_parent target of None \<Rightarrow> None
      | Some parent \<Rightarrow> (case canonicalize fs parent of
          Some real_parent \<Rightarrow> map_option (\<lambda>name. real_parent @ [name]) (path_file_name target)
        | None \<Rightarrow> None))"

section \<open>The fd-relative calls\<close>

text \<open>
  What the operating system, the store and the clock answer during one operation.  \<open>env_faults\<close> lists the
  calls that fail although the file system would let them succeed: an I/O error, an exhausted descriptor
  table, a full store.
\<close>

datatype write_outcome = Wrote nat | Interrupted | WriteFailed

datatype sys_call = InsertFrame | OpenTemp | Fsync | Statat | Rename | CleanupUnlink | Unlink
  | ReopenTarget | FstatTarget | BindFrame | StatUndone | PopFrame

record env =
  env_stamp :: "string \<times> string"
  env_undo_id :: string
  env_now :: string
  env_tmp :: string
  env_ino :: nat
  env_writes :: "write_outcome list"
  env_faults :: "sys_call list"

definition fails :: "env \<Rightarrow> sys_call \<Rightarrow> bool" where
  "fails e c \<longleftrightarrow> c \<in> set (env_faults e)"

text \<open>A canonical directory path has no symbolic link left, so only its being a directory is checked.\<close>

definition open_dir_for_write :: "fs \<Rightarrow> path \<Rightarrow> (boss_error, unit) result" where
  "open_dir_for_write fs dir =
     (case fs dir of Some (NDir _) \<Rightarrow> Inr () | _ \<Rightarrow> Inl (IoErr ''open directory''))"

definition restat_identity_matches :: "env \<Rightarrow> fs \<Rightarrow> path \<Rightarrow> string \<Rightarrow> file_id \<Rightarrow> (boss_error, unit) result" where
  "restat_identity_matches e fs dir name expected =
     (if fails e Statat then Inl (IoErr ''pre-mutate re-stat failed'')
      else case fs (dir @ [name]) of
        None \<Rightarrow> Inl (IoErr ''pre-mutate re-stat failed'')
      | Some n \<Rightarrow> if fi_dev (node_id n) \<noteq> fi_dev expected \<or> fi_ino (node_id n) \<noteq> fi_ino expected
          then Inl (IoErr ''target inode changed between guard and mutate (foreign-process swap)'')
          else Inr ())"

definition temp_name_for :: "string \<Rightarrow> string \<Rightarrow> string" where
  "temp_name_for ulid final_name = ''.'' @ final_name @ ''.'' @ ulid @ ''.tmp''"

text \<open>The write loop: each call takes a prefix of what remains, is interrupted, or fails; past the listed
  outcomes a call takes everything.  The first component is what the temporary file then holds.\<close>

fun write_loop :: "write_outcome list \<Rightarrow> bytes \<Rightarrow> bytes \<Rightarrow> bytes \<times> (boss_error, unit) result" where
  "write_loop outs [] written = (written, Inr ())"
| "write_loop [] remaining written = (written @ remaining, Inr ())"
| "write_loop (Wrote n # outs) remaining written =
     (if n = 0 then (written, Inl (IoErr ''atomic_write: write returned 0 before all bytes were written''))
      else write_loop outs (drop n remaining) (written @ take n remaining))"
| "write_loop (Interrupted # outs) remaining written = write_loop outs remaining written"
| "write_loop (WriteFailed # outs) remaining written = (written, Inl (IoErr ''write''))"

definition dir_dev :: "fs \<Rightarrow> path \<Rightarrow> nat" where
  "dir_dev fs dir = (case fs dir of Some n \<Rightarrow> fi_dev (node_id n) | None \<Rightarrow> 0)"

text \<open>\<open>renameat\<close> of a regular file over a name of the same directory.\<close>

definition renameat :: "env \<Rightarrow> fs \<Rightarrow> path \<Rightarrow> path \<Rightarrow> (boss_error, fs) result" where
  "renameat e fs src dst =
     (if fails e Rename then Inl (IoErr ''rename'')
      else case fs dst of
        Some (NDir _) \<Rightarrow> Inl (IoErr ''rename'')
      | _ \<Rightarrow> Inr (fs(src := None, dst := fs src)))"

definition unlinkat :: "bool \<Rightarrow> fs \<Rightarrow> path \<Rightarrow> (boss_error, fs) result" where
  "unlinkat broken fs p =
     (if broken then Inl (IoErr ''unlink'')
      else case fs p of
        None \<Rightarrow> Inl (IoErr ''unlink'') | Some (NDir _) \<Rightarrow> Inl (IoErr ''unlink'')
      | _ \<Rightarrow> Inr (fs(p := None)))"

definition finalize_write ::
    "env \<Rightarrow> fs \<Rightarrow> path \<Rightarrow> string \<Rightarrow> path \<Rightarrow> bool \<Rightarrow> file_id option \<Rightarrow> (boss_error, fs) result" where
  "finalize_write e fs dir final_name tmp no_clobber expected_identity =
     (if no_clobber then
        (if fails e Statat then Inl (IoErr ''stat'')
         else if fs (dir @ [final_name]) \<noteq> None
         then Inl (IoErr ''atomic_write: create no-clobber target already exists'')
         else renameat e fs tmp (dir @ [final_name]))
      else rbind (case expected_identity of None \<Rightarrow> Inr ()
          | Some expected \<Rightarrow> restat_identity_matches e fs dir final_name expected)
        (\<lambda>_. renameat e fs tmp (dir @ [final_name])))"

text \<open>The clean-up is best effort: \<open>let _ = unlinkat(..)\<close> drops its error, and the temporary file stays.\<close>

definition cleanup :: "env \<Rightarrow> fs \<Rightarrow> path \<Rightarrow> boss_error \<Rightarrow> fs \<times> (boss_error, unit) result" where
  "cleanup e fs tmp err =
     (case unlinkat (fails e CleanupUnlink) fs tmp of Inl _ \<Rightarrow> (fs, Inl err) | Inr fs' \<Rightarrow> (fs', Inl err))"

definition atomic_write ::
    "env \<Rightarrow> fs \<Rightarrow> path \<Rightarrow> string \<Rightarrow> bytes \<Rightarrow> bool \<Rightarrow> file_id option \<Rightarrow> fs \<times> (boss_error, unit) result" where
  "atomic_write e fs dir final_name bytes no_clobber expected_identity =
     (let tmp = dir @ [temp_name_for (env_tmp e) final_name] in
      if fails e OpenTemp \<or> fs tmp \<noteq> None then (fs, Inl (IoErr ''open''))
      else (case write_loop (env_writes e) bytes [] of (written, r) \<Rightarrow>
        (let fs1 = fs(tmp \<mapsto> NFile (dir_dev fs dir) (env_ino e) written)
        in case r of
          Inl err \<Rightarrow> cleanup e fs1 tmp err
        | Inr _ \<Rightarrow>
          if fails e Fsync then cleanup e fs1 tmp (IoErr ''fsync'')
          else (case finalize_write e fs1 dir final_name tmp no_clobber expected_identity of
              Inl err \<Rightarrow> cleanup e fs1 tmp err
            | Inr fs2 \<Rightarrow> (fs2, Inr ())))))"

section \<open>What an atomic write does\<close>

lemma write_loop_all: "write_loop outs remaining written = (b, Inr u) \<Longrightarrow> b = written @ remaining"
  by (induction outs remaining written rule: write_loop.induct) (auto split: if_splits)

lemma write_loop_prefix: "write_loop outs remaining written = (b, r) \<Longrightarrow> prefix b (written @ remaining)"
  by (induction outs remaining written rule: write_loop.induct) (auto split: if_splits)

lemma temp_name_differs [simp]: "temp_name_for u name \<noteq> name" "name \<noteq> temp_name_for u name"
proof -
  have "length (temp_name_for u name) > length name" by (simp add: temp_name_for_def)
  then show "temp_name_for u name \<noteq> name" "name \<noteq> temp_name_for u name" by fastforce+
qed

lemma renameat_InrD: "renameat e fs src dst = Inr fs' \<Longrightarrow> fs' = fs(src := None, dst := fs src)"
  by (auto simp: renameat_def split: option.splits node.splits if_splits)

text \<open>What a finalized write found at the target: nothing, or the inode the caller had guarded.\<close>

definition found_as_expected :: "fs \<Rightarrow> path \<Rightarrow> bool \<Rightarrow> file_id option \<Rightarrow> bool" where
  "found_as_expected fs p no_clobber expected_identity =
     (if no_clobber then fs p = None
      else case expected_identity of None \<Rightarrow> True
        | Some ex \<Rightarrow> (case fs p of None \<Rightarrow> False
            | Some n \<Rightarrow> fi_dev (node_id n) = fi_dev ex \<and> fi_ino (node_id n) = fi_ino ex))"

lemma finalize_InrD:
  "finalize_write e fs dir name tmp nc ex = Inr fs' \<Longrightarrow>
   fs' = fs(tmp := None, dir @ [name] := fs tmp) \<and> found_as_expected fs (dir @ [name]) nc ex"
  by (auto simp: finalize_write_def found_as_expected_def restat_identity_matches_def rbind_eq_Inr
      dest: renameat_InrD split: if_splits option.splits)

lemma cleanup_eq:
  "fs tmp = None \<Longrightarrow> cleanup e (fs(tmp \<mapsto> NFile d i b)) tmp err =
     (if fails e CleanupUnlink then fs(tmp \<mapsto> NFile d i b) else fs, Inl err)"
  by (auto simp: cleanup_def unlinkat_def fun_eq_iff)

text \<open>What a failed write may leave behind: nothing, or, when the clean-up failed as well, the temporary
  file with a prefix of the new bytes.\<close>

definition left_over :: "env \<Rightarrow> path \<Rightarrow> string \<Rightarrow> bytes \<Rightarrow> fs \<Rightarrow> fs \<Rightarrow> bool" where
  "left_over e dir name bytes fs fs' \<longleftrightarrow> fs' = fs \<or>
     (fails e CleanupUnlink \<and> fs (dir @ [temp_name_for (env_tmp e) name]) = None \<and>
      (\<exists>b. prefix b bytes \<and>
         fs' = fs(dir @ [temp_name_for (env_tmp e) name] \<mapsto> NFile (dir_dev fs dir) (env_ino e) b)))"

lemma left_over_same [simp]: "left_over e dir name bytes fs fs"
  by (simp add: left_over_def)

lemma left_over_other: "left_over e dir name bytes fs fs' \<Longrightarrow>
  q \<noteq> dir @ [temp_name_for (env_tmp e) name] \<Longrightarrow> fs' q = fs q"
  by (auto simp: left_over_def)

lemma left_over_clean: "left_over e dir name bytes fs fs' \<Longrightarrow> \<not> fails e CleanupUnlink \<Longrightarrow> fs' = fs"
  by (auto simp: left_over_def)

lemma found_update: "p \<noteq> q \<Longrightarrow> found_as_expected (fs(q := x)) p nc ex = found_as_expected fs p nc ex"
  by (simp add: found_as_expected_def split: option.split)

lemma atomic_write_cases:
  "case atomic_write e fs dir name bytes nc ex of
     (fs', Inl err) \<Rightarrow> left_over e dir name bytes fs fs'
   | (fs', Inr _) \<Rightarrow> fs' = fs(dir @ [name] \<mapsto> NFile (dir_dev fs dir) (env_ino e) bytes)
       \<and> found_as_expected fs (dir @ [name]) nc ex"
proof -
  let ?t = "dir @ [temp_name_for (env_tmp e) name]"
  show ?thesis
  proof (cases "fails e OpenTemp \<or> fs ?t \<noteq> None")
    case True
    then show ?thesis by (auto simp: atomic_write_def Let_def left_over_def)
  next
    case free: False
    obtain written r where w: "write_loop (env_writes e) bytes [] = (written, r)" by fastforce
    let ?f = "fs(?t \<mapsto> NFile (dir_dev fs dir) (env_ino e) written)"
    have cl: "\<exists>fs'. cleanup e ?f ?t err = (fs', Inl err) \<and> left_over e dir name bytes fs fs'" for err
      using free write_loop_prefix [OF w] by (auto simp: cleanup_eq left_over_def)
    show ?thesis
    proof (cases r)
      case (Inl err)
      then show ?thesis using free w cl [of err] by (auto simp: atomic_write_def Let_def)
    next
      case (Inr u)
      have full: "written = bytes" using write_loop_all w Inr by force
      show ?thesis
      proof (cases "finalize_write e ?f dir name ?t nc ex")
        case (Inl err)
        then show ?thesis using free w Inr cl [of err] cl [of "IoErr ''fsync''"] by (auto simp: atomic_write_def Let_def)
      next
        case fin: (Inr fs')
        have t: "fs' = fs(dir @ [name] \<mapsto> NFile (dir_dev fs dir) (env_ino e) bytes)"
          and found: "found_as_expected fs (dir @ [name]) nc ex"
          using finalize_InrD [OF fin] free full by (auto simp: fun_eq_iff found_update)
        show ?thesis
        proof (cases "fails e Fsync")
          case True
          then show ?thesis using free w Inr cl [of "IoErr ''fsync''"] by (auto simp: atomic_write_def Let_def)
        next
          case False
          then show ?thesis using free w Inr fin t found by (simp add: atomic_write_def Let_def)
        qed
      qed
    qed
  qed
qed

lemma atomic_write_Inl:
  "atomic_write e fs dir name bytes nc ex = (fs', Inl err) \<Longrightarrow> left_over e dir name bytes fs fs'"
  using atomic_write_cases [where e = e and fs = fs and dir = dir and name = name and bytes = bytes and nc = nc and ex = ex] by simp

lemma atomic_write_Inr:
  "atomic_write e fs dir name bytes nc ex = (fs', Inr u) \<Longrightarrow>
   fs' = fs(dir @ [name] \<mapsto> NFile (dir_dev fs dir) (env_ino e) bytes)"
  using atomic_write_cases [where e = e and fs = fs and dir = dir and name = name and bytes = bytes and nc = nc and ex = ex] by simp

lemma atomic_write_no_clobber:
  "atomic_write e fs dir name bytes True ex = (fs', Inr u) \<Longrightarrow> fs (dir @ [name]) = None"
  using atomic_write_cases [where e = e and fs = fs and dir = dir and name = name and bytes = bytes and nc = True and ex = ex] by (simp add: found_as_expected_def)

lemma atomic_write_failed:
  assumes "snd (write_loop (env_writes e) bytes []) = Inl err"
  obtains fs' err' where "atomic_write e fs dir name bytes nc ex = (fs', Inl err')"
    "left_over e dir name bytes fs fs'"
proof -
  have "snd (atomic_write e fs dir name bytes nc ex) \<noteq> Inr ()"
    using assms by (auto simp: atomic_write_def Let_def cleanup_def split: prod.splits sum.splits)
  then show ?thesis
    using that atomic_write_Inl by (cases "atomic_write e fs dir name bytes nc ex"; cases "snd (atomic_write e fs dir name bytes nc ex)") auto
qed

text \<open>C11. \<open>atomic_write\<close> is all or nothing on the target.  On success exactly the target name changed: it holds
  the complete new bytes at the fresh inode, however the writes were split or interrupted, and what it
  replaced was as the caller required (nothing for a create, the guarded inode for a guarded edit).  On any
  error every name but the temporary one is as before; the temporary name is untouched too, unless the
  best-effort clean-up failed as well, and then it is a name that was free and holds a prefix of the bytes.\<close>

theorem atomic_write_all_or_nothing:
  "case atomic_write e fs dir name bytes nc ex of
     (fs', Inr _) \<Rightarrow> fs' = fs(dir @ [name] \<mapsto> NFile (dir_dev fs dir) (env_ino e) bytes)
       \<and> (if nc then fs (dir @ [name]) = None
          else case ex of None \<Rightarrow> True
            | Some want \<Rightarrow> (case fs (dir @ [name]) of None \<Rightarrow> False
                | Some n \<Rightarrow> fi_dev (node_id n) = fi_dev want \<and> fi_ino (node_id n) = fi_ino want))
   | (fs', Inl _) \<Rightarrow>
       let tmp = dir @ [temp_name_for (env_tmp e) name] in
       tmp \<noteq> dir @ [name] \<and>
       (if fails e CleanupUnlink \<and> fs' \<noteq> fs
        then fs tmp = None \<and> (\<exists>b. prefix b bytes \<and> fs' = fs(tmp \<mapsto> NFile (dir_dev fs dir) (env_ino e) b))
        else fs' = fs)"
  using atomic_write_cases [where e = e and fs = fs and dir = dir and name = name and bytes = bytes and nc = nc and ex = ex]
  by (auto simp: found_as_expected_def left_over_def Let_def split: prod.splits sum.splits)

end
