(* ===== verification/Actuator.thy ===== *)
theory Actuator
  imports FileSystem
begin

text \<open>
  \<open>actuator.rs\<close>: the types of the write gate and its pure helpers, the operation/existence check and
  the content scan \<open>diff_guard\<close>.  Text is scanned on its UTF-8 bytes, as in the code; Rust's
  \<open>from_utf8\<close>, \<open>lines\<close>, \<open>split_whitespace\<close> and \<open>trim_start\<close> are written out on bytes.
\<close>

section \<open>Types\<close>

datatype write_op = Create | Edit | Delete

record write_proposal =
  w_target :: path
  w_new_content :: bytes
  w_op :: write_op
  w_sources :: "string list"
  w_rationale :: string

datatype taint = Clean | Untrusted

record provenance =
  pv_event_id :: string
  pv_kind :: string
  pv_origin_path :: "string option"
  pv_ingested_at :: "string option"
  pv_is_external :: bool

record diff_flags =
  touches_secret_shaped :: bool
  touches_value_shaped :: bool

definition flags_any :: "diff_flags \<Rightarrow> bool" where
  "flags_any f \<longleftrightarrow> touches_secret_shaped f \<or> touches_value_shaped f"

definition no_flags :: diff_flags where
  "no_flags = \<lparr>touches_secret_shaped = False, touches_value_shaped = False\<rparr>"

record write_verdict =
  vd_target_canonical :: "path option"
  vd_allowed :: bool
  vd_taint :: taint
  vd_provenance :: "provenance list"
  vd_diff_flags :: diff_flags
  vd_base_content_hash :: "string option"
  vd_base_identity :: "file_id option"
  vd_requires_loud_modal :: bool
  vd_reject_reason :: "string option"

definition gate_reject_reason :: "write_verdict \<Rightarrow> string option" where
  "gate_reject_reason v =
     (case vd_reject_reason v of Some r \<Rightarrow> Some r
      | None \<Rightarrow> if \<not> vd_allowed v then Some ''target not under an active write grant'' else None)"

datatype op_existence = OpOk | CreateExisting | MissingTarget | FinalComponentSymlink

fun reject_reason :: "op_existence \<Rightarrow> string option" where
  "reject_reason OpOk = None"
| "reject_reason CreateExisting = Some ''create target already exists''"
| "reject_reason MissingTarget = Some ''edit/delete target does not exist''"
| "reject_reason FinalComponentSymlink = Some ''final path component is a symlink''"

definition classify_op_existence :: "write_op \<Rightarrow> bool \<Rightarrow> bool \<Rightarrow> op_existence" where
  "classify_op_existence op exists is_symlink =
     (if is_symlink then FinalComponentSymlink
      else case op of
        Create \<Rightarrow> if exists then CreateExisting else OpOk
      | _ \<Rightarrow> if \<not> exists then MissingTarget else OpOk)"

section \<open>Text on bytes\<close>

definition cont :: "nat \<Rightarrow> bool" where
  "cont b \<longleftrightarrow> 128 \<le> b \<and> b \<le> 191"

text \<open>Well-formed UTF-8: no overlong form, no surrogate, nothing above U+10FFFF.\<close>

fun utf8_ok :: "nat list \<Rightarrow> bool" where
  "utf8_ok [] = True"
| "utf8_ok (a # r) =
     (if a < 128 then utf8_ok r
      else case r of [] \<Rightarrow> False
      | b # r2 \<Rightarrow>
        if 194 \<le> a \<and> a \<le> 223 then cont b \<and> utf8_ok r2
        else case r2 of [] \<Rightarrow> False
        | c # r3 \<Rightarrow>
          if 224 \<le> a \<and> a \<le> 239
          then cont b \<and> cont c \<and> (a = 224 \<longrightarrow> 160 \<le> b) \<and> (a = 237 \<longrightarrow> b \<le> 159) \<and> utf8_ok r3
          else case r3 of [] \<Rightarrow> False
          | d # r4 \<Rightarrow> 240 \<le> a \<and> a \<le> 244 \<and> cont b \<and> cont c \<and> cont d
              \<and> (a = 240 \<longrightarrow> 144 \<le> b) \<and> (a = 244 \<longrightarrow> b \<le> 143) \<and> utf8_ok r4)"

definition code :: "char \<Rightarrow> nat" where
  "code c = of_char c"

definition from_utf8_ok :: "bytes \<Rightarrow> bool" where
  "from_utf8_ok b = utf8_ok (map code b)"

fun contains :: "string \<Rightarrow> string \<Rightarrow> bool" where
  "contains needle [] = (needle = [])"
| "contains needle (c # s) = (prefix needle (c # s) \<or> contains needle s)"

text \<open>\<open>str::lines\<close>: split after each newline, drop it and one carriage return before it; a final empty
  piece is not a line.\<close>

fun split_nl :: "string \<Rightarrow> string \<Rightarrow> string list" where
  "split_nl acc [] = (if acc = [] then [] else [rev acc])"
| "split_nl acc (c # s) =
     (if c = CHR 0x0A
      then rev (case acc of [] \<Rightarrow> [] | d # a \<Rightarrow> if d = CHR 0x0D then a else acc) # split_nl [] s
      else split_nl (c # acc) s)"

definition str_lines :: "string \<Rightarrow> string list" where
  "str_lines s = split_nl [] s"

text \<open>The number of bytes of the Unicode \<open>White_Space\<close> character at the head, or 0.\<close>

fun ws_len :: "nat list \<Rightarrow> nat" where
  "ws_len [] = 0"
| "ws_len (a # r) =
     (if a = 32 \<or> (9 \<le> a \<and> a \<le> 13) then 1
      else if a = 194 then (case r of b # _ \<Rightarrow> if b = 133 \<or> b = 160 then 2 else 0 | [] \<Rightarrow> 0)
      else (case r of b # c # _ \<Rightarrow>
          if (a = 225 \<and> b = 154 \<and> c = 128)
            \<or> (a = 226 \<and> b = 128 \<and> (128 \<le> c \<and> c \<le> 138 \<or> c = 168 \<or> c = 169 \<or> c = 175))
            \<or> (a = 226 \<and> b = 129 \<and> c = 159)
            \<or> (a = 227 \<and> b = 128 \<and> c = 128)
          then 3 else 0
        | _ \<Rightarrow> 0))"

function trim_start :: "string \<Rightarrow> string" where
  "trim_start s = (let n = ws_len (map code s) in if n = 0 \<or> s = [] then s else trim_start (drop n s))"
  by pat_completeness auto
termination
  by (relation "measure length") (auto simp: Let_def neq_Nil_conv)

declare trim_start.simps [simp del]

fun split_ws :: "nat \<Rightarrow> string \<Rightarrow> string \<Rightarrow> string list" where
  "split_ws skip acc [] = (if acc = [] then [] else [rev acc])"
| "split_ws (Suc k) acc (c # s) = split_ws k acc s"
| "split_ws 0 acc (c # s) =
     (let n = ws_len (map code (c # s)) in
      if n = 0 then split_ws 0 (c # acc) s
      else (if acc = [] then [] else [rev acc]) @ split_ws (n - 1) [] s)"

definition split_whitespace :: "string \<Rightarrow> string list" where
  "split_whitespace s = split_ws 0 [] s"

section \<open>The content scan\<close>

definition is_digit :: "char \<Rightarrow> bool" where
  "is_digit c \<longleftrightarrow> 48 \<le> code c \<and> code c \<le> 57"

definition is_alnum :: "char \<Rightarrow> bool" where
  "is_alnum c \<longleftrightarrow> is_digit c \<or> 65 \<le> code c \<and> code c \<le> 90 \<or> 97 \<le> code c \<and> code c \<le> 122"

definition has_money_amount :: "string \<Rightarrow> bool" where
  "has_money_amount t = list_ex (\<lambda>(a, b). a = CHR ''$'' \<and> is_digit b) (zip t (drop 1 t))"

definition has_url :: "string \<Rightarrow> bool" where
  "has_url t \<longleftrightarrow> contains ''http://'' t \<or> contains ''https://'' t"

abbreviation "MIN_TOKEN_LEN \<equiv> (32 :: nat)"

fun token_scan :: "nat \<Rightarrow> string \<Rightarrow> bool" where
  "token_scan run [] = False"
| "token_scan run (b # t) =
     (if is_alnum b then (if Suc run \<ge> MIN_TOKEN_LEN then True else token_scan (Suc run) t)
      else token_scan 0 t)"

definition has_high_entropy_token :: "string \<Rightarrow> bool" where
  "has_high_entropy_token t = token_scan 0 t"

definition has_curl_pipe_shell :: "string \<Rightarrow> bool" where
  "has_curl_pipe_shell t = list_ex (\<lambda>line. contains ''curl'' line \<and> CHR ''|'' \<in> set line
     \<and> (contains ''sh'' line \<or> contains ''bash'' line)) (str_lines t)"

definition is_crontab_line :: "string \<Rightarrow> bool" where
  "is_crontab_line line =
     (let fields = split_whitespace line in
      if length fields < 6 then False
      else list_all (\<lambda>f. f \<noteq> [] \<and> list_all (\<lambda>b. is_digit b \<or> b \<in> set ''*,-/'') f) (take 5 fields))"

definition is_shell_rc_line :: "string \<Rightarrow> bool" where
  "is_shell_rc_line line =
     (let trimmed = trim_start line in prefix ''#!'' trimmed \<or> prefix ''export '' trimmed)"

definition diff_guard :: "bytes \<Rightarrow> diff_flags" where
  "diff_guard b =
     (if \<not> from_utf8_ok b then no_flags
      else \<lparr>touches_secret_shaped = has_high_entropy_token b \<or> has_curl_pipe_shell b
              \<or> list_ex is_crontab_line (str_lines b) \<or> list_ex is_shell_rc_line (str_lines b),
            touches_value_shaped = has_money_amount b \<or> has_url b\<rparr>)"

section \<open>The token scan finds exactly the long runs\<close>

definition long_run :: "string \<Rightarrow> bool" where
  "long_run t \<longleftrightarrow>
     (\<exists>xs ys zs. t = xs @ ys @ zs \<and> length ys = MIN_TOKEN_LEN \<and> list_all is_alnum ys)"

lemma take_alnum:
  assumes "m \<le> length (takeWhile is_alnum t)"
  shows "\<exists>ys zs. t = ys @ zs \<and> length ys = m \<and> list_all is_alnum ys"
proof -
  have "t = take m (takeWhile is_alnum t) @ drop m (takeWhile is_alnum t) @ dropWhile is_alnum t"
    by (metis append.assoc append_take_drop_id takeWhile_dropWhile_id)
  moreover have "list_all is_alnum (take m (takeWhile is_alnum t))"
    by (auto simp: list_all_iff dest!: in_set_takeD set_takeWhileD)
  ultimately show ?thesis using assms by (metis length_take min.absorb2)
qed

lemma long_run_Nil [simp]: "\<not> long_run []"
  by (auto simp: long_run_def)

lemma long_run_takeWhile: "MIN_TOKEN_LEN \<le> length (takeWhile is_alnum t) \<Longrightarrow> long_run t"
  unfolding long_run_def using take_alnum by (metis append_Nil)

lemma long_run_Cons:
  "long_run (b # t) \<longleftrightarrow> long_run t \<or> (is_alnum b \<and> MIN_TOKEN_LEN - 1 \<le> length (takeWhile is_alnum t))"
    (is "?L \<longleftrightarrow> ?R")
proof
  assume ?L
  then obtain xs ys zs where s: "b # t = xs @ ys @ zs" "length ys = MIN_TOKEN_LEN" "list_all is_alnum ys"
    by (auto simp: long_run_def)
  show ?R
  proof (cases xs)
    case Nil
    then obtain ys' where "ys = b # ys'" "t = ys' @ zs" using s by (cases ys) auto
    then show ?thesis using s(2,3) by (simp add: list_all_iff takeWhile_append2)
  next
    case (Cons x xs')
    then show ?thesis using s by (auto simp: long_run_def)
  qed
next
  assume ?R
  then show ?L
  proof
    assume "long_run t"
    then show ?L by (auto simp: long_run_def) (metis append_Cons)
  next
    assume a: "is_alnum b \<and> MIN_TOKEN_LEN - 1 \<le> length (takeWhile is_alnum t)"
    then show ?L by (intro long_run_takeWhile) simp
  qed
qed

lemma token_scan_iff:
  "run < MIN_TOKEN_LEN \<Longrightarrow> token_scan run t \<longleftrightarrow>
     MIN_TOKEN_LEN - run \<le> length (takeWhile is_alnum t) \<or> long_run t"
proof (induction run t rule: token_scan.induct)
  case (1 run)
  then show ?case by simp
next
  case (2 run b t)
  then show ?case
    using long_run_takeWhile [of t]
    by (cases "is_alnum b"; cases "Suc run \<ge> MIN_TOKEN_LEN") (auto simp: long_run_Cons)
qed

text \<open>The secret scan flags a text exactly when it has 32 consecutive ASCII letters or digits.\<close>

lemma has_high_entropy_token_iff:
  "has_high_entropy_token t \<longleftrightarrow>
     (\<exists>xs ys zs. t = xs @ ys @ zs \<and> length ys = 32 \<and> list_all is_alnum ys)"
  unfolding long_run_def [symmetric]
  using long_run_takeWhile [of t] by (auto simp: has_high_entropy_token_def token_scan_iff)

end
