(* ===== verification/Engine.thy ===== *)
theory Engine
  imports Projections Actuator
begin

text \<open>
  The engine's state and the write path of \<open>log.rs\<close>: grants and mandates, and the gate
  \<open>propose_write\<close>; the executor that follows it is in \<open>Execute\<close>.

  An operation returns the state it leaves and its result, because several of them change the state
  before they can fail.  The state is what one \<open>EventLog\<close> owns: the event log, the projection
  tables, the undo, proposal-byte and synthesis tables, the conflict cursor, the keys (capture event,
  passage, model) of the stored passage vectors, and the file system it runs on.
\<close>

section \<open>State\<close>

record undo_row =
  u_rowid :: nat
  u_id :: string
  u_written :: "string option"
  u_target :: string
  u_op :: string
  u_pre :: "bytes option"
  u_hash :: string
  u_post :: "file_id option"
  u_created :: string

record synth_row =
  sy_mandate :: string
  sy_sources_hash :: string
  sy_expected_hash :: string
  sy_bytes :: bytes
  sy_lineage :: "string list option"

record bytes_row =
  pb_proposal :: string
  pb_content :: bytes
  pb_hash :: string

record engine =
  g_log :: log
  g_tables :: tables
  g_undo :: "undo_row list"
  g_bytes :: "bytes_row list"
  g_synth :: "synth_row list"
  g_fs :: fs
  g_conflict_cursor :: "nat \<times> nat"
  g_passages :: "(string \<times> nat \<times> string) list"

text \<open>What is fixed for the life of an engine: the crates' functions, the signing key, the timestamp
  formatter.\<close>

record settings =
  k_crypto :: crypto
  k_key :: bytes
  k_fmt :: "string \<Rightarrow> string option"

type_synonym 'a outcome = "engine \<times> (boss_error, 'a) result"

definition sha_hex :: "settings \<Rightarrow> bytes \<Rightarrow> string" where
  "sha_hex k b = hex_encode (k_crypto k) (sha256 (k_crypto k) b)"

definition append_to :: "settings \<Rightarrow> stamp \<Rightarrow> event \<Rightarrow> engine \<Rightarrow> string outcome" where
  "append_to k st ev g = (case append (k_crypto k) (k_key k) st ev (g_log g) of
     Inl e \<Rightarrow> (g, Inl e) | Inr (i, log) \<Rightarrow> (g\<lparr>g_log := log\<rparr>, Inr i))"

definition then_rebuild :: "settings \<Rightarrow> string outcome \<Rightarrow> string outcome" where
  "then_rebuild k = (\<lambda>(g, r). case r of Inl e \<Rightarrow> (g, Inl e)
     | Inr i \<Rightarrow> (case rebuild_graph (k_fmt k) (g_log g) of
         Inl e \<Rightarrow> (g, Inl e) | Inr t \<Rightarrow> (g\<lparr>g_tables := t\<rparr>, Inr i)))"

section \<open>Grants\<close>

definition root_event :: "string \<Rightarrow> path \<Rightarrow> event" where
  "root_event t canonical = draft_event t (jobj [(''canonical_root'', JStr (path_str canonical))]) None"

definition add_grant :: "settings \<Rightarrow> stamp \<Rightarrow> path \<Rightarrow> engine \<Rightarrow> string outcome" where
  "add_grant k st p g = (case canonicalize (g_fs g) p of
     None \<Rightarrow> (g, Inl (InvalidInput ''grant path not resolvable''))
   | Some canonical \<Rightarrow> then_rebuild k (append_to k st (root_event GRANT_T canonical) g))"

definition revoke_grant :: "settings \<Rightarrow> stamp \<Rightarrow> path \<Rightarrow> engine \<Rightarrow> string outcome" where
  "revoke_grant k st p g = (case canonicalize (g_fs g) p of
     None \<Rightarrow> (g, Inl (InvalidInput ''revoke path not resolvable''))
   | Some canonical \<Rightarrow> then_rebuild k (append_to k st (root_event REVOKE_T canonical) g))"

definition add_write_grant :: "settings \<Rightarrow> stamp \<Rightarrow> path \<Rightarrow> engine \<Rightarrow> string outcome" where
  "add_write_grant k st p g = (case canonicalize (g_fs g) p of
     None \<Rightarrow> (g, Inl (InvalidInput ''write-grant path not resolvable''))
   | Some canonical \<Rightarrow> then_rebuild k (append_to k st (root_event WRITE_GRANT_T canonical) g))"

definition revoke_write_grant :: "settings \<Rightarrow> stamp \<Rightarrow> path \<Rightarrow> engine \<Rightarrow> string outcome" where
  "revoke_write_grant k st p g = (case canonicalize (g_fs g) p of
     None \<Rightarrow> (g, Inl (InvalidInput ''write-revoke path not resolvable''))
   | Some canonical \<Rightarrow> then_rebuild k (append_to k st (root_event WRITE_REVOKE_T canonical) g))"

text \<open>The queries order by the root, which is the key order of the fold.\<close>

definition grants_of :: "engine \<Rightarrow> grant list" where
  "grants_of g = t_grants (g_tables g)"

definition write_grants_of :: "engine \<Rightarrow> grant list" where
  "write_grants_of g = t_write_grants (g_tables g)"

definition is_write_allowed :: "engine \<Rightarrow> path \<Rightarrow> (boss_error, bool) result" where
  "is_write_allowed g p =
     rbind (case canonicalize (g_fs g) p of Some c \<Rightarrow> Inr c
       | None \<Rightarrow> (case path_parent p of
           None \<Rightarrow> Inl (InvalidInput ''write target has no parent to resolve'')
         | Some parent \<Rightarrow> ok_or (InvalidInput ''write target parent not resolvable'')
             (canonicalize (g_fs g) parent)))
     (\<lambda>canonical. Inr (list_ex (\<lambda>w. \<not> revoked w \<and> path_starts_with canonical (canonical_root w))
       (write_grants_of g)))"

section \<open>Mandates\<close>

abbreviation "MAX_RECIPE_LEN \<equiv> (2048 :: nat)"

definition add_mandate :: "settings \<Rightarrow> stamp \<Rightarrow> path \<Rightarrow> path \<Rightarrow> string \<Rightarrow> engine \<Rightarrow> string outcome" where
  "add_mandate k st target source_scope recipe g =
     (let checks =
        (if length recipe > MAX_RECIPE_LEN then Inl (InvalidInput ''recipe too long'')
         else rbind (ok_or (InvalidInput ''mandate source_scope not resolvable'')
             (canonicalize (g_fs g) source_scope)) (\<lambda>canon_scope.
           rbind (ok_or (InvalidInput ''mandate target path is not resolvable'')
             (canonicalize_target_or_parent (g_fs g) target)) (\<lambda>canon_target.
           rbind (is_write_allowed g target) (\<lambda>allowed.
           if \<not> allowed then Inl (InvalidInput ''target not write-granted'')
           else rbind (ok_or (InvalidInput ''mandate target path is not resolvable'')
             (case canonicalize (g_fs g) target of Some c \<Rightarrow> Some c
              | None \<Rightarrow> canonicalize_target_or_parent (g_fs g) target)) (\<lambda>resolved_target.
           if list_ex (\<lambda>r. \<not> revoked r \<and> path_starts_with resolved_target (canonical_root r)) (grants_of g)
           then Inl (InvalidInput ''mandate target must be outside every read-grant root'')
           else Inr (canon_target, canon_scope))))))
      in case checks of Inl e \<Rightarrow> (g, Inl e)
      | Inr (canon_target, canon_scope) \<Rightarrow>
        then_rebuild k (append_to k st (draft_event MANDATE_GRANT_T
          (jobj [(''target'', JStr (path_str canon_target)),
                 (''source_scope'', JStr (path_str canon_scope)),
                 (''recipe'', JStr recipe)]) None) g))"

text \<open>The cached syntheses of a revoked mandate are dropped, once the revocation is projected.\<close>

definition revoke_mandate :: "settings \<Rightarrow> stamp \<Rightarrow> string \<Rightarrow> engine \<Rightarrow> string outcome" where
  "revoke_mandate k st i g =
     (case then_rebuild k (append_to k st (draft_event MANDATE_REVOKE_T
         (jobj [(''mandate_grant_id'', JStr i)]) None) g) of
        (g', Inl e) \<Rightarrow> (g', Inl e)
      | (g', Inr r) \<Rightarrow> (g'\<lparr>g_synth := filter (\<lambda>y. sy_mandate y \<noteq> i) (g_synth g')\<rparr>, Inr r))"

definition active_mandates :: "engine \<Rightarrow> mandate list" where
  "active_mandates g = sort_key m_granted_at (filter (\<lambda>m. \<not> m_revoked m) (t_mandates (g_tables g)))"

section \<open>Tracked files\<close>

definition current_files :: "engine \<Rightarrow> file_record list" where
  "current_files g = t_files (g_tables g)"

definition current_file_for_path :: "engine \<Rightarrow> string \<Rightarrow> file_record option" where
  "current_file_for_path g p = List.find (\<lambda>r. f_path r = p) (t_files (g_tables g))"

definition tracked_file_with_identity :: "engine \<Rightarrow> nat \<Rightarrow> nat \<Rightarrow> file_record option" where
  "tracked_file_with_identity g d i =
     List.find (\<lambda>r. case symlink_metadata (g_fs g) (str_path (f_path r)) of
        None \<Rightarrow> False | Some n \<Rightarrow> fi_dev (node_id n) = d \<and> fi_ino (node_id n) = i) (current_files g)"

section \<open>The gate\<close>

record gated_proposal =
  gp_proposal :: write_proposal
  gp_verdict :: write_verdict

definition provenance_from_event :: "event \<Rightarrow> provenance" where
  "provenance_from_event ev =
     \<lparr>pv_event_id = ev_id ev, pv_kind = ev_type ev,
      pv_origin_path = Option.bind (json_get (ev_content ev) ''provenance'') (\<lambda>p. get_str p ''canonical_path''),
      pv_ingested_at = (if ev_ts ev = [] then None else Some (ev_ts ev)),
      pv_is_external = is_external ev\<rparr>"

text \<open>The loop over the cited sources: the taint so far and the provenance.\<close>

fun read_sources :: "log \<Rightarrow> string list \<Rightarrow> (boss_error, taint \<times> provenance list) result" where
  "read_sources log [] = Inr (Clean, [])"
| "read_sources log (src # srcs) =
     rbind (event_by_id log src) (\<lambda>found.
     rbind (read_sources log srcs) (\<lambda>(t, pvs).
       case found of None \<Rightarrow> Inr (Untrusted, pvs)
       | Some ev \<Rightarrow> Inr (t, provenance_from_event ev # pvs)))"

text \<open>\<open>get_or_insert\<close>: the first reason stays.\<close>

definition or_reason :: "string option \<Rightarrow> string option \<Rightarrow> string option" where
  "or_reason first later = (case first of Some r \<Rightarrow> Some r | None \<Rightarrow> later)"

definition mandate_authorizes :: "mandate list \<Rightarrow> string \<Rightarrow> string option \<Rightarrow> bool" where
  "mandate_authorizes ms target src_canonical =
     (case src_canonical of None \<Rightarrow> False
      | Some src \<Rightarrow> list_ex (\<lambda>m. m_target m = target \<and> path_starts_with (str_path src) (m_scope m)) ms)"

definition resolve_op_target :: "fs \<Rightarrow> write_op \<Rightarrow> path \<Rightarrow> path option" where
  "resolve_op_target fs op target =
     (case op of Create \<Rightarrow> canonicalize_target_or_parent fs target | _ \<Rightarrow> canonicalize fs target)"

definition anchor_of :: "engine \<Rightarrow> path \<Rightarrow> file_id option \<Rightarrow> file_record option" where
  "anchor_of g real identity =
     (case current_file_for_path g (path_str real) of Some r \<Rightarrow> Some r
      | None \<Rightarrow> (case identity of None \<Rightarrow> None
          | Some i \<Rightarrow> tracked_file_with_identity g (fi_dev i) (fi_ino i)))"

definition external_taint :: "engine \<Rightarrow> path option \<Rightarrow> provenance list \<Rightarrow> bool" where
  "external_taint g canonical pvs =
     (let external = filter pv_is_external pvs in
      external \<noteq> [] \<and> (case canonical of None \<Rightarrow> True
        | Some c \<Rightarrow> list_ex (\<lambda>pv. \<not> mandate_authorizes (active_mandates g) (path_str c) (pv_origin_path pv))
            external))"

definition anchor_provenance :: "log \<Rightarrow> file_record option \<Rightarrow> provenance list
    \<Rightarrow> (boss_error, provenance list) result" where
  "anchor_provenance log anchored pvs =
     (case anchored of None \<Rightarrow> Inr pvs
      | Some fr \<Rightarrow> if list_ex (\<lambda>pv. pv_event_id pv = f_event_id fr) pvs then Inr pvs
          else rbind (event_by_id log (f_event_id fr)) (\<lambda>found.
            Inr (case found of None \<Rightarrow> pvs | Some ev \<Rightarrow> pvs @ [provenance_from_event ev])))"

definition propose_write :: "settings \<Rightarrow> write_proposal \<Rightarrow> engine \<Rightarrow> (boss_error, gated_proposal) result" where
  "propose_write k p g =
     rbind (read_sources (g_log g) (w_sources p)) (\<lambda>(missing, pvs).
     let canonical = resolve_op_target (g_fs g) (w_op p) (w_target p);
         check = is_write_allowed g (w_target p);
         meta = symlink_metadata (g_fs g) (w_target p);
         identity = map_option node_id meta;
         existence = classify_op_existence (w_op p) (meta \<noteq> None)
           (case meta of None \<Rightarrow> False | Some n \<Rightarrow> is_link n);
         reason = or_reason (or_reason (or_reason
             (if w_sources p = [] then Some ''source_event_ids is empty'' else None)
             (if canonical = None then Some ''write target path is not resolvable'' else None))
             (case check of Inl _ \<Rightarrow> Some ''write-grant check failed'' | Inr _ \<Rightarrow> None))
             (reject_reason existence);
         anchored = Option.bind canonical (\<lambda>real. anchor_of g real identity);
         taint = (if missing = Untrusted \<or> external_taint g canonical pvs \<or> anchored \<noteq> None
           then Untrusted else Clean);
         flags = (if w_op p = Delete then no_flags else diff_guard (w_new_content p))
     in rbind (anchor_provenance (g_log g) anchored pvs) (\<lambda>pvs'.
       Inr \<lparr>gp_proposal = p, gp_verdict =
         \<lparr>vd_target_canonical = canonical,
          vd_allowed = (case check of Inl _ \<Rightarrow> False | Inr a \<Rightarrow> a),
          vd_taint = taint, vd_provenance = pvs', vd_diff_flags = flags,
          vd_base_content_hash = (if w_op p = Create then None
            else map_option (sha_hex k) (read_file (g_fs g) (w_target p))),
          vd_base_identity = (if w_op p = Create then None else identity),
          vd_requires_loud_modal = (taint = Untrusted \<or> w_op p = Delete \<or> flags_any flags),
          vd_reject_reason = reason\<rparr>\<rparr>))"

section \<open>What a quiet verdict means\<close>

lemma read_sources_Clean:
  assumes "read_sources log srcs = Inr (Clean, pvs)" "src \<in> set srcs"
  shows "\<exists>ev. event_by_id log src = Inr (Some ev) \<and> provenance_from_event ev \<in> set pvs"
  using assms
proof (induction srcs arbitrary: pvs)
  case (Cons s srcs)
  obtain ev pvs' where "event_by_id log s = Inr (Some ev)" "read_sources log srcs = Inr (Clean, pvs')"
    "pvs = provenance_from_event ev # pvs'"
    using Cons.prems(1) by (auto simp: rbind_eq_Inr split: option.splits)
  then show ?case using Cons by auto
qed simp

lemma or_reason_None: "or_reason a b = None \<longleftrightarrow> a = None \<and> b = None"
  by (simp add: or_reason_def split: option.split)

lemma propose_rejects:
  assumes "propose_write k p g = Inr gp"
  shows "w_sources p = [] \<Longrightarrow> vd_reject_reason (gp_verdict gp) \<noteq> None"
    and "vd_target_canonical (gp_verdict gp) = None \<Longrightarrow> vd_reject_reason (gp_verdict gp) \<noteq> None"
proof -
  obtain c d where r: "vd_reject_reason (gp_verdict gp) = or_reason (or_reason (or_reason
             (if w_sources p = [] then Some ''source_event_ids is empty'' else None)
             (if vd_target_canonical (gp_verdict gp) = None then Some ''write target path is not resolvable'' else None))
             c) d"
    using assms by (auto simp: propose_write_def rbind_eq_Inr Let_def)
  show "w_sources p = [] \<Longrightarrow> vd_reject_reason (gp_verdict gp) \<noteq> None"
    and "vd_target_canonical (gp_verdict gp) = None \<Longrightarrow> vd_reject_reason (gp_verdict gp) \<noteq> None"
    unfolding r or_reason_None by simp_all
qed

lemma anchor_None:
  assumes "anchor_of g real identity = None" "r \<in> set (current_files g)"
  shows "f_path r \<noteq> path_str real"
    and "identity = Some i \<Longrightarrow> symlink_metadata (g_fs g) (str_path (f_path r)) = Some n \<Longrightarrow>
      \<not> (fi_dev (node_id n) = fi_dev i \<and> fi_ino (node_id n) = fi_ino i)"
proof -
  have none: "current_file_for_path g (path_str real) = None"
    and ino: "identity = Some i \<Longrightarrow> tracked_file_with_identity g (fi_dev i) (fi_ino i) = None"
    using assms(1) by (auto simp: anchor_of_def split: option.splits)
  show "f_path r \<noteq> path_str real"
    using none assms(2) by (auto simp: current_file_for_path_def current_files_def find_None_iff)
  show "\<not> (fi_dev (node_id n) = fi_dev i \<and> fi_ino (node_id n) = fi_ino i)"
    if "identity = Some i" "symlink_metadata (g_fs g) (str_path (f_path r)) = Some n"
    using ino [OF that(1)] that(2) assms(2) by (fastforce simp: tracked_file_with_identity_def find_None_iff)
qed

text \<open>C4. A verdict that asks for no acknowledgement is earned: the operation deletes nothing and the new
  content trips no scan; every cited source is in the log, and an external one is covered by a live mandate
  whose target is exactly this file and whose scope contains the path the source was read from; no tracked
  ingested file has the target's path, and none shares its device and inode, so a hard link to a tracked file
  does not pass either.  A proposal that cites nothing, or whose target does not resolve, carries a reason
  for its rejection.\<close>

theorem quiet_verdict_justified:
  assumes "propose_write k p g = Inr gp" and "\<not> vd_requires_loud_modal (gp_verdict gp)"
  shows "w_op p \<noteq> Delete \<and> \<not> flags_any (diff_guard (w_new_content p)) \<and>
    (w_sources p = [] \<longrightarrow> vd_reject_reason (gp_verdict gp) \<noteq> None) \<and>
    (\<forall>src\<in>set (w_sources p). \<exists>ev. event_by_id (g_log g) src = Inr (Some ev) \<and>
      (if is_external ev
       then \<exists>c origin m. vd_target_canonical (gp_verdict gp) = Some c
         \<and> pv_origin_path (provenance_from_event ev) = Some origin
         \<and> m \<in> set (active_mandates g) \<and> m_target m = path_str c
         \<and> path_starts_with (str_path origin) (m_scope m)
       else True)) \<and>
    (case vd_target_canonical (gp_verdict gp) of None \<Rightarrow> vd_reject_reason (gp_verdict gp) \<noteq> None
     | Some c \<Rightarrow> \<forall>r\<in>set (current_files g). f_path r \<noteq> path_str c \<and>
         (\<forall>n m. symlink_metadata (g_fs g) (w_target p) = Some n \<longrightarrow>
            symlink_metadata (g_fs g) (str_path (f_path r)) = Some m \<longrightarrow>
            \<not> (fi_dev (node_id m) = fi_dev (node_id n) \<and> fi_ino (node_id m) = fi_ino (node_id n))))"
proof -
  let ?canon = "resolve_op_target (g_fs g) (w_op p) (w_target p)"
  obtain missing pvs pvs' where r: "read_sources (g_log g) (w_sources p) = Inr (missing, pvs)"
    and v: "vd_target_canonical (gp_verdict gp) = ?canon"
      "vd_requires_loud_modal (gp_verdict gp) \<longleftrightarrow>
        (missing = Untrusted \<or> external_taint g ?canon pvs
         \<or> Option.bind ?canon (\<lambda>real. anchor_of g real (map_option node_id (symlink_metadata (g_fs g) (w_target p)))) \<noteq> None)
        \<or> w_op p = Delete \<or> flags_any (if w_op p = Delete then no_flags else diff_guard (w_new_content p))"
    using assms(1) by (auto simp: propose_write_def rbind_eq_Inr Let_def)
  have quiet: "missing = Clean" "\<not> external_taint g ?canon pvs"
    "Option.bind ?canon (\<lambda>real. anchor_of g real (map_option node_id (symlink_metadata (g_fs g) (w_target p)))) = None"
    "w_op p \<noteq> Delete" "\<not> flags_any (diff_guard (w_new_content p))"
    using assms(2) v(2) by (auto intro: taint.exhaust split: if_splits)
  have cited: "\<exists>ev. event_by_id (g_log g) src = Inr (Some ev) \<and>
      (if is_external ev
       then \<exists>c origin m. ?canon = Some c
         \<and> pv_origin_path (provenance_from_event ev) = Some origin
         \<and> m \<in> set (active_mandates g) \<and> m_target m = path_str c
         \<and> path_starts_with (str_path origin) (m_scope m)
       else True)" if src: "src \<in> set (w_sources p)" for src
  proof -
    obtain ev where ev: "event_by_id (g_log g) src = Inr (Some ev)" "provenance_from_event ev \<in> set pvs"
      using read_sources_Clean [OF _ src] r quiet(1) by blast
    have "\<exists>c origin m. ?canon = Some c \<and> pv_origin_path (provenance_from_event ev) = Some origin
      \<and> m \<in> set (active_mandates g) \<and> m_target m = path_str c
      \<and> path_starts_with (str_path origin) (m_scope m)" if "is_external ev"
    proof -
      have mem: "provenance_from_event ev \<in> set (filter pv_is_external pvs)"
        using that ev(2) by (simp add: provenance_from_event_def)
      then have ne: "filter pv_is_external pvs \<noteq> []" by force
      from mem obtain c where c: "?canon = Some c"
        "mandate_authorizes (active_mandates g) (path_str c) (pv_origin_path (provenance_from_event ev))"
        using quiet(2) ne by (auto simp: external_taint_def Let_def list_ex_iff split: option.splits)
      then show ?thesis
        by (auto simp: mandate_authorizes_def list_ex_iff split: option.splits)
    qed
    then show ?thesis using ev(1) by auto
  qed
  have "f_path r \<noteq> path_str c \<and> (\<forall>n m. symlink_metadata (g_fs g) (w_target p) = Some n \<longrightarrow>
      symlink_metadata (g_fs g) (str_path (f_path r)) = Some m \<longrightarrow>
      \<not> (fi_dev (node_id m) = fi_dev (node_id n) \<and> fi_ino (node_id m) = fi_ino (node_id n)))"
    if "?canon = Some c" "r \<in> set (current_files g)" for c r
    using anchor_None [of g c _ r] quiet(3) that by auto
  then have "case ?canon of None \<Rightarrow> vd_reject_reason (gp_verdict gp) \<noteq> None
     | Some c \<Rightarrow> \<forall>r\<in>set (current_files g). f_path r \<noteq> path_str c \<and>
         (\<forall>n m. symlink_metadata (g_fs g) (w_target p) = Some n \<longrightarrow>
            symlink_metadata (g_fs g) (str_path (f_path r)) = Some m \<longrightarrow>
            \<not> (fi_dev (node_id m) = fi_dev (node_id n) \<and> fi_ino (node_id m) = fi_ino (node_id n)))"
    using propose_rejects(2) [OF assms(1), unfolded v(1)] by (cases ?canon) auto
  then show ?thesis
    unfolding v(1) using cited quiet(4,5) propose_rejects(1) [OF assms(1)] by (intro conjI ballI impI)
qed

end
