(* ===== verification/Execute.thy ===== *)
theory Execute
  imports Engine
begin

text \<open>
  The executor of \<open>log.rs\<close>: \<open>execute_write_inner\<close> with its fail-closed re-checks, the durable undo
  capture before the mutation, the \<open>file_written\<close> record, and the LIFO \<open>undo_write\<close>.
\<close>

section \<open>Steps 1 to 4: the re-checks\<close>

abbreviation "LOUD_ACK_REQUIRED_MSG \<equiv> ''loud write requires acknowledged_loud''"
abbreviation "UNDO_DEPTH \<equiv> (16 :: nat)"
abbreviation "ACTUATOR_PRODUCER \<equiv> ''m6a-actuator''"

definition reject :: "string \<Rightarrow> boss_error" where
  "reject why = InvalidInput (''execute_write fail-closed: '' @ why)"

record plan =
  pl_dir :: path
  pl_name :: string
  pl_pre :: "bytes option"
  pl_guard :: "file_id option"
  pl_sources :: "string list"

definition pl_path :: "plan \<Rightarrow> path" where
  "pl_path pl = pl_dir pl @ [pl_name pl]"

definition check_verdict :: "write_verdict \<Rightarrow> bool \<Rightarrow> (boss_error, unit) result" where
  "check_verdict v acknowledged_loud =
     (case vd_reject_reason v of Some _ \<Rightarrow> Inl (reject ''verdict carries reject_reason'')
      | None \<Rightarrow>
        if \<not> vd_allowed v then Inl (reject ''verdict.allowed is false (target not under an active write grant)'')
        else if vd_requires_loud_modal v \<and> \<not> acknowledged_loud then Inl (reject LOUD_ACK_REQUIRED_MSG)
        else Inr ())"

definition split_target :: "fs \<Rightarrow> write_op \<Rightarrow> path \<Rightarrow> (boss_error, path \<times> string) result" where
  "split_target fs op target =
     (case op of
        Create \<Rightarrow>
          rbind (ok_or (reject ''create target has no parent'') (path_parent target)) (\<lambda>parent.
          rbind (ok_or (reject ''create parent not resolvable'') (canonicalize fs parent)) (\<lambda>real_parent.
          rbind (ok_or (reject ''create target has no final component'') (path_file_name target)) (\<lambda>name.
            Inr (real_parent, name))))
      | _ \<Rightarrow>
          rbind (ok_or (reject ''target not resolvable'') (canonicalize fs target)) (\<lambda>real.
          rbind (ok_or (reject ''target has no parent'') (path_parent real)) (\<lambda>parent.
          rbind (ok_or (reject ''target has no final component'') (path_file_name real)) (\<lambda>name.
            Inr (parent, name)))))"

definition base_guard :: "settings \<Rightarrow> fs \<Rightarrow> path \<Rightarrow> string \<Rightarrow> write_op \<Rightarrow> write_verdict
    \<Rightarrow> (boss_error, bytes option \<times> file_id option) result" where
  "base_guard k fs dir name op v =
     (if op = Create then Inr (None, None)
      else rbind (ok_or (reject ''edit/delete verdict missing base_identity'') (vd_base_identity v)) (\<lambda>want_identity.
        rbind (ok_or (reject ''edit/delete verdict missing base_content_hash'') (vd_base_content_hash v)) (\<lambda>want_hash.
        case fs (dir @ [name]) of
          None \<Rightarrow> Inl (reject ''target re-open failed'')
        | Some (NLink _ _ _) \<Rightarrow> Inl (reject ''target re-open failed'')
        | Some (NDir _) \<Rightarrow> Inl (reject ''target is no longer a regular file'')
        | Some (NFile d i b) \<Rightarrow>
            let now_identity = node_id (NFile d i b) in
            if now_identity \<noteq> want_identity
            then Inl (reject ''base identity (dev,ino,size) diverged since propose (TOCTOU swap)'')
            else if sha_hex k b \<noteq> want_hash then Inl (reject ''base content hash diverged since propose'')
            else Inr (Some b, Some now_identity))))"

definition execute_anchor :: "engine \<Rightarrow> path \<Rightarrow> write_op \<Rightarrow> write_verdict \<Rightarrow> file_record option" where
  "execute_anchor g real op v =
     anchor_of g real (if op = Create then None else vd_base_identity v)"

definition recheck_grant :: "engine \<Rightarrow> path \<Rightarrow> (boss_error, unit) result" where
  "recheck_grant g real = (case is_write_allowed g real of
     Inl _ \<Rightarrow> Inl (reject ''write-grant re-check errored'')
   | Inr a \<Rightarrow> if a then Inr () else Inl (reject ''target is no longer under an active write grant''))"

definition open_parent :: "fs \<Rightarrow> path \<Rightarrow> (boss_error, unit) result" where
  "open_parent fs dir = (case open_dir_for_write fs dir of
     Inl _ \<Rightarrow> Inl (reject ''parent dir careful-open failed'') | Inr u \<Rightarrow> Inr u)"

definition union_anchor :: "string list \<Rightarrow> file_record option \<Rightarrow> string list" where
  "union_anchor sources anchored = (case anchored of None \<Rightarrow> sources
     | Some fr \<Rightarrow> if f_event_id fr \<in> set sources then sources else sources @ [f_event_id fr])"

definition prepare_write :: "settings \<Rightarrow> gated_proposal \<Rightarrow> bool \<Rightarrow> engine \<Rightarrow> (boss_error, plan) result" where
  "prepare_write k confirmed acknowledged_loud g =
     (let p = gp_proposal confirmed; v = gp_verdict confirmed in
      rbind (check_verdict v acknowledged_loud) (\<lambda>_.
      rbind (split_target (g_fs g) (w_op p) (w_target p)) (\<lambda>(dir, name).
      rbind (recheck_grant g (dir @ [name])) (\<lambda>_.
      rbind (open_parent (g_fs g) dir) (\<lambda>_.
      rbind (base_guard k (g_fs g) dir name (w_op p) v) (\<lambda>(pre, guard).
      let sources = union_anchor (w_sources p) (execute_anchor g (dir @ [name]) (w_op p) v)
      in if sources = [] then Inl (reject ''file_written would have empty source_event_ids'')
         else Inr \<lparr>pl_dir = dir, pl_name = name, pl_pre = pre, pl_guard = guard, pl_sources = sources\<rparr>))))))"

section \<open>Step 4.5: the undo frame\<close>

fun op_str :: "write_op \<Rightarrow> string" where
  "op_str Create = ''create''"
| "op_str Edit = ''edit''"
| "op_str Delete = ''delete''"

definition next_rowid :: "undo_row list \<Rightarrow> nat" where
  "next_rowid us = (if us = [] then 1 else Suc (Max (set (map u_rowid us))))"

definition record_hash :: "settings \<Rightarrow> write_proposal \<Rightarrow> write_verdict \<Rightarrow> (boss_error, string) result" where
  "record_hash k p v =
     (case vd_base_content_hash v of Some h \<Rightarrow> Inr h
      | None \<Rightarrow> if w_op p = Create then Inr (sha_hex k (w_new_content p))
          else Inl (reject ''edit/delete missing base_content_hash for undo capture''))"

definition capture_undo :: "settings \<Rightarrow> env \<Rightarrow> gated_proposal \<Rightarrow> plan \<Rightarrow> engine \<Rightarrow> (boss_error, engine) result" where
  "capture_undo k e confirmed pl g =
     rbind (record_hash k (gp_proposal confirmed) (gp_verdict confirmed)) (\<lambda>h.
       if fails e InsertFrame \<or> (\<exists>u\<in>set (g_undo g). u_id u = env_undo_id e) then Inl StoreErr
       else Inr (g\<lparr>g_undo := g_undo g @
         [\<lparr>u_rowid = next_rowid (g_undo g), u_id = env_undo_id e, u_written = None,
           u_target = path_str (pl_path pl), u_op = op_str (w_op (gp_proposal confirmed)),
           u_pre = pl_pre pl, u_hash = h, u_post = None, u_created = env_now e\<rparr>]\<rparr>))"

text \<open>An undo captures no frame.\<close>

definition capture_unless_undo ::
    "settings \<Rightarrow> env \<Rightarrow> gated_proposal \<Rightarrow> plan \<Rightarrow> string option \<Rightarrow> engine \<Rightarrow> (boss_error, engine) result" where
  "capture_unless_undo k e confirmed pl undo_of g =
     (if undo_of = None then capture_undo k e confirmed pl g else Inr g)"

section \<open>Step 5: the mutation\<close>

definition unlink_guarded :: "env \<Rightarrow> fs \<Rightarrow> path \<Rightarrow> string \<Rightarrow> file_id option \<Rightarrow> (boss_error, fs) result" where
  "unlink_guarded e fs dir name guard =
     rbind (case guard of None \<Rightarrow> Inr () | Some ex \<Rightarrow> restat_identity_matches e fs dir name ex)
       (\<lambda>_. unlinkat (fails e Unlink) fs (dir @ [name]))"

definition mutate :: "env \<Rightarrow> write_op \<Rightarrow> bytes \<Rightarrow> plan \<Rightarrow> fs \<Rightarrow> fs \<times> (boss_error, unit) result" where
  "mutate e op content pl fs =
     (case op of
        Create \<Rightarrow> (case atomic_write e fs (pl_dir pl) (pl_name pl) content True None of
            (fs', Inl _) \<Rightarrow> (fs', Inl (reject ''atomic create failed'')) | (fs', Inr u) \<Rightarrow> (fs', Inr u))
      | Edit \<Rightarrow> (case atomic_write e fs (pl_dir pl) (pl_name pl) content False (pl_guard pl) of
            (fs', Inl _) \<Rightarrow> (fs', Inl (reject ''atomic edit failed'')) | (fs', Inr u) \<Rightarrow> (fs', Inr u))
      | Delete \<Rightarrow> (case unlink_guarded e fs (pl_dir pl) (pl_name pl) (pl_guard pl) of
            Inl _ \<Rightarrow> (fs, Inl (reject ''unlinkat (hard-delete) failed'')) | Inr fs' \<Rightarrow> (fs', Inr ())))"

definition post_identity :: "env \<Rightarrow> bool \<Rightarrow> write_op \<Rightarrow> plan \<Rightarrow> fs \<Rightarrow> (boss_error, file_id option) result" where
  "post_identity e capture_frame op pl fs =
     (if \<not> capture_frame \<or> op = Delete then Inr None
      else if fails e ReopenTarget then Inl (reject ''post-write re-open failed'')
      else case fs (pl_path pl) of
        None \<Rightarrow> Inl (reject ''post-write re-open failed'')
      | Some (NLink _ _ _) \<Rightarrow> Inl (reject ''post-write re-open failed'')
      | Some n \<Rightarrow> if fails e FstatTarget then Inl (reject ''post-write fstat failed'')
          else Inr (Some (node_id n)))"

section \<open>Step 6: the record\<close>

definition written_hashes :: "settings \<Rightarrow> write_proposal \<Rightarrow> write_verdict
    \<Rightarrow> (boss_error, string \<times> string option \<times> nat) result" where
  "written_hashes k p v =
     (case w_op p of
        Create \<Rightarrow> Inr (sha_hex k (w_new_content p), None, length (w_new_content p))
      | Edit \<Rightarrow> Inr (sha_hex k (w_new_content p), vd_base_content_hash v, length (w_new_content p))
      | Delete \<Rightarrow> rbind (ok_or (reject ''delete missing base_content_hash for record'') (vd_base_content_hash v))
          (\<lambda>h. Inr (h, Some h, 0)))"

definition written_event :: "settings \<Rightarrow> gated_proposal \<Rightarrow> plan \<Rightarrow> string option \<Rightarrow> string option
    \<Rightarrow> (boss_error, event) result" where
  "written_event k confirmed pl undo_of resolves_proposal =
     rbind (written_hashes k (gp_proposal confirmed) (gp_verdict confirmed))
       (\<lambda>(content_hash, prev_content_hash, byte_size).
        Inr (draft_event FILE_WRITTEN_T
          (jobj ([(''target'', JStr (path_str (pl_path pl))),
                  (''op'', JStr (op_str (w_op (gp_proposal confirmed)))),
                  (''content_hash'', JStr content_hash)]
            @ opt_field ''prev_content_hash'' (map_option JStr prev_content_hash)
            @ [(''byte_size'', JNum (int byte_size))]
            @ opt_field ''undo_of'' (map_option JStr undo_of)
            @ opt_field ''resolves_proposal'' (map_option JStr resolves_proposal)))
          (Some \<lparr>model_id = ACTUATOR_PRODUCER, prompt_hash = [], source_event_ids = pl_sources pl\<rparr>)))"

text \<open>The backfill and the collection are one transaction, so a failing statement or commit leaves the table
  as it was.\<close>

definition bound_undo :: "string \<Rightarrow> string \<Rightarrow> string \<Rightarrow> file_id option \<Rightarrow> undo_row list \<Rightarrow> undo_row list" where
  "bound_undo undo_id file_written_id target post us =
     (let bound = map (\<lambda>u. if u_id u = undo_id then u\<lparr>u_written := Some file_written_id, u_post := post\<rparr> else u) us;
          survivors = take UNDO_DEPTH (rev (sort_key (\<lambda>u. (u_created u, u_rowid u))
            (filter (\<lambda>u. u_target u = target) bound)))
      in filter (\<lambda>u. u_target u \<noteq> target \<or> u_id u \<in> set (map u_id survivors)) bound)"

definition bind_and_gc_undo :: "env \<Rightarrow> string \<Rightarrow> string \<Rightarrow> file_id option \<Rightarrow> engine \<Rightarrow> unit outcome" where
  "bind_and_gc_undo e file_written_id target post g =
     (if fails e BindFrame then (g, Inl StoreErr)
      else (g\<lparr>g_undo := bound_undo (env_undo_id e) file_written_id target post (g_undo g)\<rparr>, Inr ()))"

definition execute_write_inner ::
    "settings \<Rightarrow> env \<Rightarrow> gated_proposal \<Rightarrow> string option \<Rightarrow> string option \<Rightarrow> bool \<Rightarrow> engine \<Rightarrow> string outcome" where
  "execute_write_inner k e confirmed undo_of resolves_proposal acknowledged_loud g =
     (let op = w_op (gp_proposal confirmed); content = w_new_content (gp_proposal confirmed);
          capture_frame = (undo_of = None) in
      case prepare_write k confirmed acknowledged_loud g of Inl err \<Rightarrow> (g, Inl err)
      | Inr pl \<Rightarrow>
      case capture_unless_undo k e confirmed pl undo_of g of Inl err \<Rightarrow> (g, Inl err)
      | Inr g1 \<Rightarrow>
      case mutate e op content pl (g_fs g1) of (fs', Inl err) \<Rightarrow> (g1\<lparr>g_fs := fs'\<rparr>, Inl err)
      | (fs', Inr _) \<Rightarrow>
      let g2 = g1\<lparr>g_fs := fs'\<rparr> in
      case rbind (post_identity e capture_frame op pl fs') (\<lambda>post.
          rbind (written_event k confirmed pl undo_of resolves_proposal) (\<lambda>ev. Inr (post, ev))) of
        Inl err \<Rightarrow> (g2, Inl err)
      | Inr (post, ev) \<Rightarrow>
      case append_to k (env_stamp e) ev g2 of (g3, Inl err) \<Rightarrow> (g3, Inl err)
      | (g3, Inr i) \<Rightarrow>
      if capture_frame
      then (case bind_and_gc_undo e i (path_str (pl_path pl)) post g3 of
          (g4, Inl err) \<Rightarrow> (g4, Inl err) | (g4, Inr _) \<Rightarrow> (g4, Inr i))
      else (g3, Inr i))"

definition execute_write :: "settings \<Rightarrow> env \<Rightarrow> gated_proposal \<Rightarrow> bool \<Rightarrow> engine \<Rightarrow> string outcome" where
  "execute_write k e confirmed acknowledged_loud g =
     execute_write_inner k e confirmed None None acknowledged_loud g"

definition execute_write_resolving ::
    "settings \<Rightarrow> env \<Rightarrow> gated_proposal \<Rightarrow> string \<Rightarrow> bool \<Rightarrow> engine \<Rightarrow> string outcome" where
  "execute_write_resolving k e confirmed resolves_proposal acknowledged_loud g =
     execute_write_inner k e confirmed None (Some resolves_proposal) acknowledged_loud g"

section \<open>Undo\<close>

definition undo_fail :: "string \<Rightarrow> boss_error" where
  "undo_fail why = InvalidInput (''undo_write fail-closed: '' @ why)"

abbreviation "NOT_TOP \<equiv>
  ''not the most recent write to this target - undo is LIFO (undo newer writes first)''"

definition top_rowid :: "undo_row list \<Rightarrow> string \<Rightarrow> nat" where
  "top_rowid us target = Max (set (map u_rowid (filter (\<lambda>u. u_target u = target) us)))"

definition rebuild_inverse :: "undo_row \<Rightarrow> (boss_error, write_op \<times> bytes) result" where
  "rebuild_inverse u =
     (if u_op u = ''edit'' then rbind (ok_or (undo_fail ''edit undo row missing pre_bytes'') (u_pre u))
        (\<lambda>b. Inr (Edit, b))
      else if u_op u = ''create'' then Inr (Delete, [])
      else if u_op u = ''delete'' then rbind (ok_or (undo_fail ''delete undo row missing pre_bytes'') (u_pre u))
        (\<lambda>b. Inr (Create, b))
      else Inl (undo_fail ''unknown undo op''))"

definition check_undo :: "settings \<Rightarrow> string \<Rightarrow> engine \<Rightarrow> (boss_error, undo_row \<times> write_op \<times> bytes) result" where
  "check_undo k file_written_id g =
     rbind (ok_or (undo_fail ''no undo record for this file_written id (GC'd past N-deep, or unknown id)'')
       (List.find (\<lambda>u. u_written u = Some file_written_id) (g_undo g))) (\<lambda>u.
     if u_rowid u \<noteq> top_rowid (g_undo g) (u_target u) then Inl (undo_fail NOT_TOP)
     else rbind (case u_post u of None \<Rightarrow> Inr ()
         | Some want \<Rightarrow> (case symlink_metadata (g_fs g) (str_path (u_target u)) of
             None \<Rightarrow> Inl (undo_fail ''undo target no longer stat-able'')
           | Some n \<Rightarrow> if node_id n \<noteq> want
               then Inl (undo_fail ''target identity (dev,ino,size) diverged since the write'') else Inr ())) (\<lambda>_.
     rbind (case u_pre u of None \<Rightarrow> Inr ()
         | Some b \<Rightarrow> if sha_hex k b \<noteq> u_hash u
             then Inl (undo_fail ''captured pre_bytes hash != recorded base_content_hash (tampered undo row)'')
             else Inr ()) (\<lambda>_.
     rbind (rebuild_inverse u) (\<lambda>(op, content). Inr (u, op, content)))))"

definition popped_undo :: "string \<Rightarrow> string \<Rightarrow> file_id option \<Rightarrow> undo_row list \<Rightarrow> undo_row list" where
  "popped_undo undo_id target new_post us =
     (let rest = filter (\<lambda>u. u_id u \<noteq> undo_id) us in
      map (\<lambda>u. if u_target u = target \<and> u_rowid u = top_rowid rest target
        then u\<lparr>u_post := new_post\<rparr> else u) rest)"

definition pop_and_handoff_undo :: "env \<Rightarrow> string \<Rightarrow> string \<Rightarrow> file_id option \<Rightarrow> engine \<Rightarrow> unit outcome" where
  "pop_and_handoff_undo e undo_id target new_post g =
     (if fails e PopFrame then (g, Inl StoreErr)
      else (g\<lparr>g_undo := popped_undo undo_id target new_post (g_undo g)\<rparr>, Inr ()))"

text \<open>The identity handed to the next frame; a failing \<open>symlink_metadata\<close> hands \<open>None\<close>.\<close>

definition undone_identity :: "env \<Rightarrow> fs \<Rightarrow> path \<Rightarrow> file_id option" where
  "undone_identity e fs target =
     (if fails e StatUndone then None else map_option node_id (symlink_metadata fs target))"

definition undo_write :: "settings \<Rightarrow> env \<Rightarrow> string \<Rightarrow> engine \<Rightarrow> string outcome" where
  "undo_write k e file_written_id g =
     (case check_undo k file_written_id g of Inl err \<Rightarrow> (g, Inl err)
      | Inr (u, op, content) \<Rightarrow>
      case propose_write k \<lparr>w_target = str_path (u_target u), w_new_content = content, w_op = op,
          w_sources = [file_written_id], w_rationale = ''undo of '' @ file_written_id\<rparr> g of
        Inl err \<Rightarrow> (g, Inl err)
      | Inr gated \<Rightarrow>
      if vd_reject_reason (gp_verdict gated) \<noteq> None
      then (g, Inl (undo_fail ''re-gated undo proposal rejected''))
      else case execute_write_inner k e gated (Some file_written_id) None True g of
        (g', Inl err) \<Rightarrow> (g', Inl err)
      | (g', Inr i) \<Rightarrow>
      case pop_and_handoff_undo e (u_id u) (u_target u)
          (undone_identity e (g_fs g') (str_path (u_target u))) g' of
        (g'', Inl err) \<Rightarrow> (g'', Inl err)
      | (g'', Inr _) \<Rightarrow> (g'', Inr i))"

section \<open>What the steps give\<close>

lemma check_verdict_Inr:
  "check_verdict v ack = Inr u \<Longrightarrow>
     vd_reject_reason v = None \<and> vd_allowed v \<and> (vd_requires_loud_modal v \<longrightarrow> ack)"
  by (auto simp: check_verdict_def split: option.splits if_splits)

lemma base_guard_Inr:
  assumes "base_guard k fs dir name op v = Inr (pre, guard)" "op \<noteq> Create"
  obtains d i b where "fs (dir @ [name]) = Some (NFile d i b)" "pre = Some b"
    "guard = Some (node_id (NFile d i b))" "vd_base_identity v = guard"
    "vd_base_content_hash v = Some (sha_hex k b)"
proof -
  obtain wi wh where w: "vd_base_identity v = Some wi" "vd_base_content_hash v = Some wh"
    using assms by (auto simp: base_guard_def rbind_eq_Inr)
  obtain n where n: "fs (dir @ [name]) = Some n"
    using assms w by (cases "fs (dir @ [name])") (auto simp: base_guard_def)
  show ?thesis
  proof (cases n)
    case (NFile d i b)
    have "node_id (NFile d i b) = wi \<and> sha_hex k b = wh \<and> pre = Some b \<and> guard = Some wi"
      using assms unfolding base_guard_def w n NFile
      by (simp add: Let_def split: if_splits del: node_id.simps)
    then show ?thesis
      using that [of d i b] w n NFile by (simp del: node_id.simps)
  qed (use assms w n in \<open>auto simp: base_guard_def\<close>)
qed

lemma base_guard_Create: "base_guard k fs dir name Create v = Inr (None, None)"
  by (simp add: base_guard_def)

lemma prepare_write_Inr:
  assumes "prepare_write k gp ack g = Inr pl"
  shows "check_verdict (gp_verdict gp) ack = Inr ()"
    and "split_target (g_fs g) (w_op (gp_proposal gp)) (w_target (gp_proposal gp)) = Inr (pl_dir pl, pl_name pl)"
    and "is_write_allowed g (pl_path pl) = Inr True"
    and "open_dir_for_write (g_fs g) (pl_dir pl) = Inr ()"
    and "base_guard k (g_fs g) (pl_dir pl) (pl_name pl) (w_op (gp_proposal gp)) (gp_verdict gp) = Inr (pl_pre pl, pl_guard pl)"
    and "set (w_sources (gp_proposal gp)) \<subseteq> set (pl_sources pl)"
    and "execute_anchor g (pl_path pl) (w_op (gp_proposal gp)) (gp_verdict gp) = Some fr \<Longrightarrow>
      f_event_id fr \<in> set (pl_sources pl)"
    and "pl_sources pl \<noteq> []"
proof -
  let ?p = "gp_proposal gp" and ?v = "gp_verdict gp"
  obtain dir name where a: "check_verdict ?v ack = Inr ()"
    "split_target (g_fs g) (w_op ?p) (w_target ?p) = Inr (dir, name)"
    using assms by (auto simp: prepare_write_def Let_def rbind_eq_Inr)
  obtain pre guard where b: "recheck_grant g (dir @ [name]) = Inr ()" "open_parent (g_fs g) dir = Inr ()"
    "base_guard k (g_fs g) dir name (w_op ?p) ?v = Inr (pre, guard)"
    using assms a by (auto simp: prepare_write_def Let_def rbind_eq_Inr)
  have pl: "pl = \<lparr>pl_dir = dir, pl_name = name, pl_pre = pre, pl_guard = guard,
      pl_sources = union_anchor (w_sources ?p) (execute_anchor g (dir @ [name]) (w_op ?p) ?v)\<rparr>"
    and ne: "pl_sources pl \<noteq> []"
    using assms a b by (auto simp: prepare_write_def Let_def split: if_splits)
  show "check_verdict ?v ack = Inr ()" by (rule a)
  show "split_target (g_fs g) (w_op ?p) (w_target ?p) = Inr (pl_dir pl, pl_name pl)"
    using a by (simp add: pl)
  show "is_write_allowed g (pl_path pl) = Inr True"
    using b(1) by (auto simp: pl pl_path_def recheck_grant_def split: sum.splits if_splits)
  show "open_dir_for_write (g_fs g) (pl_dir pl) = Inr ()"
    using b(2) by (auto simp: pl open_parent_def split: sum.splits)
  show "base_guard k (g_fs g) (pl_dir pl) (pl_name pl) (w_op ?p) ?v = Inr (pl_pre pl, pl_guard pl)"
    using b(3) by (simp add: pl)
  show "set (w_sources ?p) \<subseteq> set (pl_sources pl)"
    by (auto simp: pl union_anchor_def split: option.splits)
  show "f_event_id fr \<in> set (pl_sources pl)"
    if "execute_anchor g (pl_path pl) (w_op ?p) ?v = Some fr"
    using that by (auto simp: pl pl_path_def union_anchor_def)
  show "pl_sources pl \<noteq> []" by (rule ne)
qed

lemma mutate_Inl:
  "mutate e op content pl fs = (fs', Inl err) \<Longrightarrow> left_over e (pl_dir pl) (pl_name pl) content fs fs'"
  by (auto simp: mutate_def left_over_same dest: atomic_write_Inl split: write_op.splits prod.splits sum.splits)

lemma unlink_guarded_Inr: "unlink_guarded e fs dir name guard = Inr fs' \<Longrightarrow> fs' = fs(dir @ [name] := None)"
  by (auto simp: unlink_guarded_def unlinkat_def rbind_eq_Inr split: option.splits node.splits if_splits)

definition written_node :: "env \<Rightarrow> fs \<Rightarrow> path \<Rightarrow> write_op \<Rightarrow> bytes \<Rightarrow> node option" where
  "written_node e fs dir op content =
     (if op = Delete then None else Some (NFile (dir_dev fs dir) (env_ino e) content))"

lemma mutate_Inr:
  "mutate e op content pl fs = (fs', Inr u) \<Longrightarrow>
     fs' = fs(pl_path pl := written_node e fs (pl_dir pl) op content) \<and> (op = Create \<longrightarrow> fs (pl_path pl) = None)"
  by (auto simp: mutate_def pl_path_def written_node_def
      dest: atomic_write_Inr atomic_write_no_clobber unlink_guarded_Inr
      split: write_op.splits prod.splits sum.splits)

lemma capture_undo_Inr:
  assumes "capture_undo k e gp pl g = Inr g1"
  obtains h where "record_hash k (gp_proposal gp) (gp_verdict gp) = Inr h"
    "\<not> fails e InsertFrame" "\<forall>u\<in>set (g_undo g). u_id u \<noteq> env_undo_id e"
    "g1 = g\<lparr>g_undo := g_undo g @
         [\<lparr>u_rowid = next_rowid (g_undo g), u_id = env_undo_id e, u_written = None,
           u_target = path_str (pl_path pl), u_op = op_str (w_op (gp_proposal gp)),
           u_pre = pl_pre pl, u_hash = h, u_post = None, u_created = env_now e\<rparr>]\<rparr>"
  using assms that by (auto simp: capture_undo_def rbind_eq_Inr split: if_splits)

lemma append_to_Inr:
  "append_to k st ev g = (g', Inr i) \<longleftrightarrow>
   (\<exists>log. append (k_crypto k) (k_key k) st ev (g_log g) = Inr (i, log) \<and> g' = g\<lparr>g_log := log\<rparr>)"
  by (auto simp: append_to_def split: sum.splits)

lemma append_to_Inl:
  "append_to k st ev g = (g', Inl err) \<longleftrightarrow> append (k_crypto k) (k_key k) st ev (g_log g) = Inl err \<and> g' = g"
  by (auto simp: append_to_def split: sum.splits)

lemma post_identity_Inl:
  "post_identity e capture_frame op pl (fs(pl_path pl := written_node e' f dir op content)) = Inl err \<Longrightarrow>
   capture_frame \<and> op \<noteq> Delete \<and> (fails e ReopenTarget \<or> fails e FstatTarget)"
  by (auto simp: post_identity_def written_node_def split: if_splits)

lemma bind_and_gc_Inr: "bind_and_gc_undo e i t post g = (g', Inr u) \<longleftrightarrow>
    \<not> fails e BindFrame \<and> g' = g\<lparr>g_undo := bound_undo (env_undo_id e) i t post (g_undo g)\<rparr>"
  by (auto simp: bind_and_gc_undo_def)

lemma bind_and_gc_Inl: "bind_and_gc_undo e i t post g = (g', Inl err) \<longleftrightarrow> fails e BindFrame \<and> err = StoreErr \<and> g' = g"
  by (auto simp: bind_and_gc_undo_def)

text \<open>A successful execution, taken apart.\<close>

lemma execute_InrE:
  assumes "execute_write_inner k e gp undo_of rp ack g = (g', Inr i)"
  obtains pl g1 post ev log where
    "prepare_write k gp ack g = Inr pl"
    "capture_unless_undo k e gp pl undo_of g = Inr g1"
    "mutate e (w_op (gp_proposal gp)) (w_new_content (gp_proposal gp)) pl (g_fs g1)
       = ((g_fs g1)(pl_path pl := written_node e (g_fs g1) (pl_dir pl) (w_op (gp_proposal gp)) (w_new_content (gp_proposal gp))), Inr ())"
    "post_identity e (undo_of = None) (w_op (gp_proposal gp)) pl (g_fs g') = Inr post"
    "written_event k gp pl undo_of rp = Inr ev"
    "append (k_crypto k) (k_key k) (env_stamp e) ev (g_log g1) = Inr (i, log)"
    "g' = g1\<lparr>g_log := log,
       g_fs := (g_fs g1)(pl_path pl := written_node e (g_fs g1) (pl_dir pl) (w_op (gp_proposal gp)) (w_new_content (gp_proposal gp))),
       g_undo := (if undo_of = None
         then bound_undo (env_undo_id e) i (path_str (pl_path pl)) post (g_undo g1) else g_undo g1)\<rparr>"
proof -
  obtain pl where pl: "prepare_write k gp ack g = Inr pl"
    using assms by (auto simp: execute_write_inner_def Let_def split: sum.splits)
  obtain g1 where g1: "capture_unless_undo k e gp pl undo_of g = Inr g1"
    using assms pl by (auto simp: execute_write_inner_def Let_def split: sum.splits)
  obtain fs' u where m: "mutate e (w_op (gp_proposal gp)) (w_new_content (gp_proposal gp)) pl (g_fs g1) = (fs', Inr u)"
    using assms pl g1 by (auto simp: execute_write_inner_def Let_def split: sum.splits prod.splits)
  obtain post ev where pe: "post_identity e (undo_of = None) (w_op (gp_proposal gp)) pl fs' = Inr post"
    "written_event k gp pl undo_of rp = Inr ev"
    using assms pl g1 m by (auto simp: execute_write_inner_def Let_def rbind_eq_Inr split: sum.splits prod.splits)
  obtain log where ap: "append (k_crypto k) (k_key k) (env_stamp e) ev (g_log g1) = Inr (i, log)"
    using assms pl g1 m pe
    by (auto simp: execute_write_inner_def Let_def append_to_def bind_and_gc_Inr split: sum.splits prod.splits if_splits)
  have g': "g' = g1\<lparr>g_log := log, g_fs := fs', g_undo := (if undo_of = None
      then bound_undo (env_undo_id e) i (path_str (pl_path pl)) post (g_undo g1) else g_undo g1)\<rparr>"
    using assms pl g1 m pe ap
    by (auto simp: execute_write_inner_def Let_def append_to_def bind_and_gc_Inr split: if_splits prod.splits sum.splits)
  show ?thesis
    using that [OF pl g1 _ _ pe(2) ap, of post] mutate_Inr [OF m] m pe(1) g' by simp
qed

section \<open>The executor fails closed\<close>

lemma capture_keeps:
  assumes "capture_unless_undo k e gp pl undo_of g = Inr g1"
  shows "g_fs g1 = g_fs g" "g_log g1 = g_log g" "g_tables g1 = g_tables g"
  using assms by (auto simp: capture_unless_undo_def elim!: capture_undo_Inr split: if_splits)

text \<open>C2. A write that succeeds was justified at the moment it ran: the verdict was neither rejected nor
  disallowed, a loud one was acknowledged, the resolved target was under an active write grant; an
  edit or delete found the very inode and content that the verdict had seen, a create found nothing;
  and the only change to the file system is the new content, or its absence, at that target.\<close>

theorem execute_write_justified:
  assumes "execute_write_inner k e gp undo_of rp ack g = (g', Inr i)"
  shows "vd_reject_reason (gp_verdict gp) = None \<and> vd_allowed (gp_verdict gp)
    \<and> (vd_requires_loud_modal (gp_verdict gp) \<longrightarrow> ack)
    \<and> (\<exists>dir name. split_target (g_fs g) (w_op (gp_proposal gp)) (w_target (gp_proposal gp)) = Inr (dir, name)
        \<and> is_write_allowed g (dir @ [name]) = Inr True
        \<and> (if w_op (gp_proposal gp) = Create then g_fs g (dir @ [name]) = None
           else \<exists>d n b. g_fs g (dir @ [name]) = Some (NFile d n b)
             \<and> vd_base_identity (gp_verdict gp) = Some (node_id (NFile d n b))
             \<and> vd_base_content_hash (gp_verdict gp) = Some (sha_hex k b))
        \<and> g_fs g' = (g_fs g)(dir @ [name] :=
             written_node e (g_fs g) dir (w_op (gp_proposal gp)) (w_new_content (gp_proposal gp))))"
proof -
  obtain pl g1 post ev log where x: "prepare_write k gp ack g = Inr pl"
    "capture_unless_undo k e gp pl undo_of g = Inr g1"
    "mutate e (w_op (gp_proposal gp)) (w_new_content (gp_proposal gp)) pl (g_fs g1)
       = ((g_fs g1)(pl_path pl := written_node e (g_fs g1) (pl_dir pl) (w_op (gp_proposal gp)) (w_new_content (gp_proposal gp))), Inr ())"
    and g': "g' = g1\<lparr>g_log := log,
       g_fs := (g_fs g1)(pl_path pl := written_node e (g_fs g1) (pl_dir pl) (w_op (gp_proposal gp)) (w_new_content (gp_proposal gp))),
       g_undo := (if undo_of = None
         then bound_undo (env_undo_id e) i (path_str (pl_path pl)) post (g_undo g1) else g_undo g1)\<rparr>"
    using assms by (rule execute_InrE)
  note p = prepare_write_Inr [OF x(1)] and fs = capture_keeps(1) [OF x(2)]
  have base: "if w_op (gp_proposal gp) = Create then g_fs g (pl_path pl) = None
           else \<exists>d n b. g_fs g (pl_path pl) = Some (NFile d n b)
             \<and> vd_base_identity (gp_verdict gp) = Some (node_id (NFile d n b))
             \<and> vd_base_content_hash (gp_verdict gp) = Some (sha_hex k b)"
  proof (cases "w_op (gp_proposal gp) = Create")
    case True
    then show ?thesis using mutate_Inr [OF x(3)] fs by simp
  next
    case False
    obtain d n b where "g_fs g (pl_path pl) = Some (NFile d n b)"
      "vd_base_identity (gp_verdict gp) = Some (node_id (NFile d n b))"
      "vd_base_content_hash (gp_verdict gp) = Some (sha_hex k b)"
      using base_guard_Inr [OF p(5) False] unfolding pl_path_def by metis
    then show ?thesis using False by auto
  qed
  show ?thesis
    using check_verdict_Inr [OF p(1)] p(2) p(3) [unfolded pl_path_def] base [unfolded pl_path_def]
    by (intro conjI exI [of _ "pl_dir pl"] exI [of _ "pl_name pl"]) (simp_all add: g' fs pl_path_def)
qed

lemma written_event_ok:
  assumes "prepare_write k gp ack g = Inr pl"
  shows "\<exists>ev. written_event k gp pl undo_of rp = Inr ev"
proof (cases "w_op (gp_proposal gp) = Create")
  case False
  obtain h where "vd_base_content_hash (gp_verdict gp) = Some h"
    using base_guard_Inr [OF prepare_write_Inr(5) [OF assms] False] by metis
  then show ?thesis
    by (cases "w_op (gp_proposal gp)") (simp_all add: written_event_def written_hashes_def)
qed (simp add: written_event_def written_hashes_def)

text \<open>The frame an execution captures: none for an undo, and otherwise one that no record is bound to yet.\<close>

definition captured :: "gated_proposal \<Rightarrow> plan \<Rightarrow> string option \<Rightarrow> undo_row list \<Rightarrow> bool" where
  "captured gp pl undo_of fr =
     (if undo_of \<noteq> None then fr = []
      else case fr of [f] \<Rightarrow> u_written f = None \<and> u_target f = path_str (pl_path pl) \<and> u_pre f = pl_pre pl
          \<and> u_op f = op_str (w_op (gp_proposal gp))
        | _ \<Rightarrow> False)"

lemma capture_frames:
  assumes "capture_unless_undo k e gp pl undo_of g = Inr g1"
  obtains fr where "g1 = g\<lparr>g_undo := g_undo g @ fr\<rparr>" "captured gp pl undo_of fr"
  using assms
  by (auto simp: capture_unless_undo_def captured_def elim!: capture_undo_Inr split: if_splits
      intro: that [of "[]"])

text \<open>A failed execution, taken apart: it stopped before the mutation, in it, or after it.\<close>

lemma execute_InlE:
  assumes "execute_write_inner k e gp undo_of rp ack g = (g', Inl err)"
  obtains (before) "g' = g"
  | (mutation) pl fr fs' where "prepare_write k gp ack g = Inr pl" "captured gp pl undo_of fr"
      "left_over e (pl_dir pl) (pl_name pl) (w_new_content (gp_proposal gp)) (g_fs g) fs'"
      "g' = g\<lparr>g_undo := g_undo g @ fr, g_fs := fs'\<rparr>"
  | (after) pl fr log ev where "prepare_write k gp ack g = Inr pl" "captured gp pl undo_of fr"
      "g' = g\<lparr>g_log := log, g_undo := g_undo g @ fr, g_fs := (g_fs g)(pl_path pl :=
         written_node e (g_fs g) (pl_dir pl) (w_op (gp_proposal gp)) (w_new_content (gp_proposal gp)))\<rparr>"
      "written_event k gp pl undo_of rp = Inr ev"
      "(log = g_log g \<and> undo_of = None \<and> w_op (gp_proposal gp) \<noteq> Delete \<and> (fails e ReopenTarget \<or> fails e FstatTarget))
       \<or> (log = g_log g \<and> append (k_crypto k) (k_key k) (env_stamp e) ev (g_log g) = Inl err)
       \<or> (undo_of = None \<and> fails e BindFrame
           \<and> (\<exists>i. append (k_crypto k) (k_key k) (env_stamp e) ev (g_log g) = Inr (i, log)))"
proof (cases "prepare_write k gp ack g")
  case (Inl e1)
  then show ?thesis using assms before by (simp add: execute_write_inner_def Let_def)
next
  case pl: (Inr pl)
  show ?thesis
  proof (cases "capture_unless_undo k e gp pl undo_of g")
    case (Inl e1)
    then show ?thesis using assms pl before by (simp add: execute_write_inner_def Let_def)
  next
    case g1: (Inr g1)
    let ?op = "w_op (gp_proposal gp)" and ?c = "w_new_content (gp_proposal gp)"
    obtain fr where fr: "g1 = g\<lparr>g_undo := g_undo g @ fr\<rparr>" "captured gp pl undo_of fr"
      using g1 by (rule capture_frames)
    obtain fs' r where m: "mutate e ?op ?c pl (g_fs g1) = (fs', r)" by fastforce
    show ?thesis
    proof (cases r)
      case (Inl e1)
      have "left_over e (pl_dir pl) (pl_name pl) ?c (g_fs g) fs'"
        using mutate_Inl m Inl fr(1) by fastforce
      then show ?thesis
        using assms m Inl mutation [OF pl fr(2)] by (simp add: execute_write_inner_def Let_def pl g1 fr(1))
    next
      case (Inr u)
      have fs': "fs' = (g_fs g)(pl_path pl := written_node e (g_fs g) (pl_dir pl) ?op ?c)"
        using mutate_Inr m Inr fr(1) by fastforce
      obtain ev where ev: "written_event k gp pl undo_of rp = Inr ev" using written_event_ok [OF pl] by blast
      note a = after [OF pl fr(2) _ ev]
      show ?thesis
      proof (cases "post_identity e (undo_of = None) ?op pl fs'")
        case (Inl e1)
        then have "g' = g\<lparr>g_undo := g_undo g @ fr, g_fs := fs'\<rparr>"
          using assms m Inr by (simp add: execute_write_inner_def Let_def pl g1 fr(1))
        then show ?thesis
          using post_identity_Inl [OF Inl [unfolded fs']] by (intro a [of "g_log g"]) (simp_all add: fs')
      next
        case post: (Inr post)
        show ?thesis
        proof (cases "append (k_crypto k) (k_key k) (env_stamp e) ev (g_log g)")
          case (Inl e2)
          then show ?thesis
            using assms m Inr
            by (intro a [of "g_log g"]) (auto simp: execute_write_inner_def Let_def pl g1 post [unfolded fs'] ev fr(1) fs' append_to_def)
        next
          case ap: (Inr q)
          then show ?thesis
            using assms m Inr
            by (intro a [of "snd q"]; cases q)
              (auto simp: execute_write_inner_def Let_def pl g1 post [unfolded fs'] ev fr(1) fs' append_to_def bind_and_gc_undo_def
                split: if_splits)
        qed
      qed
    qed
  qed
qed

text \<open>C17. What a write that reports an error leaves behind.  Either it stopped at or before the mutation: nothing
  was recorded and every file is as before, up to the temporary file whose best-effort clean-up failed too.
  Or the mutation went through, and then one of three things failed: the re-open of the written file or the
  append of the record, which leave a written file without a record, or the binding of the undo frame,
  which leaves a written file with its record and a frame that the record does not name.  The frame
  itself, with the bytes from before the write, is in the undo table in all of these cases.\<close>

theorem failed_execute_outcomes:
  assumes "execute_write_inner k e gp undo_of rp ack g = (g', Inl err)"
  shows "g' = g \<or>
    (\<exists>pl fr. prepare_write k gp ack g = Inr pl \<and> g_undo g' = g_undo g @ fr \<and> captured gp pl undo_of fr
      \<and> g_tables g' = g_tables g \<and>
      ((g_log g' = g_log g \<and>
        (g_fs g' = g_fs g \<or> fails e CleanupUnlink \<and> (\<exists>b. prefix b (w_new_content (gp_proposal gp)) \<and>
          g_fs g' = (g_fs g)(pl_dir pl @ [temp_name_for (env_tmp e) (pl_name pl)] \<mapsto>
            NFile (dir_dev (g_fs g) (pl_dir pl)) (env_ino e) b))))
       \<or> g_fs g' = (g_fs g)(pl_path pl := written_node e (g_fs g) (pl_dir pl)
             (w_op (gp_proposal gp)) (w_new_content (gp_proposal gp)))
         \<and> (\<exists>ev. written_event k gp pl undo_of rp = Inr ev \<and>
           (case append (k_crypto k) (k_key k) (env_stamp e) ev (g_log g) of
              Inl err' \<Rightarrow> g_log g' = g_log g
            | Inr (i, log) \<Rightarrow> undo_of = None \<and>
                (if g_log g' = g_log g
                 then w_op (gp_proposal gp) \<noteq> Delete \<and> (fails e ReopenTarget \<or> fails e FstatTarget)
                 else fails e BindFrame \<and> g_log g' = log)))))"
  using assms
proof (cases rule: execute_InlE)
  case (mutation pl fr fs')
  then show ?thesis
    by (intro disjI2 exI [of _ pl] exI [of _ fr]) (auto simp: left_over_def)
next
  case (after pl fr log ev)
  have grows: "l \<noteq> g_log g" if "append (k_crypto k) (k_key k) (env_stamp e) ev (g_log g) = Inr (i, l)" for i l
    using append_in_tx_InrD [OF append_InrD(2) [OF that]] by fastforce
  have "case append (k_crypto k) (k_key k) (env_stamp e) ev (g_log g) of
      Inl err' \<Rightarrow> g_log g' = g_log g
    | Inr (i, l) \<Rightarrow> undo_of = None \<and>
        (if g_log g' = g_log g
         then w_op (gp_proposal gp) \<noteq> Delete \<and> (fails e ReopenTarget \<or> fails e FstatTarget)
         else fails e BindFrame \<and> g_log g' = l)"
    using after(3,5) by (auto split: sum.split dest: grows)
  with after(1-4) show ?thesis
    by (intro disjI2 exI [of _ pl] exI [of _ fr] exI [of _ ev] conjI) (simp_all split: sum.split prod.split)
qed simp

section \<open>Taint reaches the record\<close>

lemma written_event_meta:
  "written_event k gp pl undo_of rp = Inr ev \<Longrightarrow>
   ev_type ev = FILE_WRITTEN_T \<and> is_object (ev_content ev)
   \<and> ev_meta ev = Some \<lparr>model_id = ACTUATOR_PRODUCER, prompt_hash = [], source_event_ids = pl_sources pl\<rparr>"
  by (auto simp: written_event_def rbind_eq_Inr)

text \<open>C6. A recorded write carries the external stamp whenever one of its cited sources is external or
  missing, or its target is a tracked ingested file whose event is external; re-derived at the
  append, whatever the verdict said.\<close>

theorem tainted_write_is_stamped:
  assumes "execute_write_inner k e gp undo_of rp ack g = (g', Inr i)"
    and "src \<in> set (w_sources (gp_proposal gp)) \<or>
      (\<exists>dir name fr. split_target (g_fs g) (w_op (gp_proposal gp)) (w_target (gp_proposal gp)) = Inr (dir, name)
         \<and> current_file_for_path g (path_str (dir @ [name])) = Some fr \<and> f_event_id fr = src)"
    and "source_is_external_in_tx (g_log g) src"
  shows "\<exists>r ev. g_log g' = g_log g @ [r] \<and> r_id r = i \<and> r_payload r = Some ev
    \<and> ev_type ev = FILE_WRITTEN_T \<and> is_external ev"
proof -
  obtain pl g1 ev log where x: "prepare_write k gp ack g = Inr pl"
    "capture_unless_undo k e gp pl undo_of g = Inr g1"
    "written_event k gp pl undo_of rp = Inr ev"
    "append (k_crypto k) (k_key k) (env_stamp e) ev (g_log g1) = Inr (i, log)"
    and g': "g_log g' = log"
    using assms(1) by (rule execute_InrE) simp
  note p = prepare_write_Inr [OF x(1)] and m = written_event_meta [OF x(3)]
  have "src \<in> set (pl_sources pl)"
    using assms(2)
  proof
    assume "src \<in> set (w_sources (gp_proposal gp))"
    then show ?thesis using p(6) by blast
  next
    assume "\<exists>dir name fr. split_target (g_fs g) (w_op (gp_proposal gp)) (w_target (gp_proposal gp)) = Inr (dir, name)
         \<and> current_file_for_path g (path_str (dir @ [name])) = Some fr \<and> f_event_id fr = src"
    then show ?thesis
      using p(2,7) by (auto simp: execute_anchor_def anchor_of_def pl_path_def)
  qed
  then have t: "tainted (g_log g) ev"
    using m assms(3) by (auto simp: tainted_def list_ex_iff)
  obtain hash where h: "log = g_log g @ [\<lparr>r_id = i, r_ts = snd (env_stamp e), r_type = ev_type ev,
       r_payload = Some ((prepare_event (env_stamp e) (g_log g) ev)\<lparr>ev_hash := Some (hex_encode (k_crypto k) hash),
         ev_sig := Some (sign_hash (k_crypto k) hash (k_key k))\<rparr>),
       r_prev = last_hash (g_log g), r_hash = hex_encode (k_crypto k) hash\<rparr>]"
    using append_in_tx_InrD [OF append_InrD(2) [OF x(4)]] capture_keeps(2) [OF x(2)] by metis
  have "is_external (stamp_origin (g_log g) ev)"
    using t m by (intro is_external_stamp) auto
  moreover have "ev_type (stamp_origin (g_log g) ev) = FILE_WRITTEN_T"
    using m by (simp add: stamp_origin_def)
  ultimately show ?thesis
    unfolding g' h by (auto simp: prepare_event_def is_external_def)
qed

end
