(* ===== verification/Undo.thy ===== *)
theory Undo
  imports Execute
begin

text \<open>
  Properties of the undo stack: undoing the last write brings every file back, and a write whose
  mutation fails leaves a frame behind that blocks the undo of the write before it.
\<close>

section \<open>Targets are canonical\<close>

lemma split_target_path:
  assumes "split_target fs op target = Inr (dir, name)" "open_dir_for_write fs dir = Inr ()"
    and "op \<noteq> Create \<Longrightarrow> \<exists>d i b. fs (dir @ [name]) = Some (NFile d i b)"
  shows "canon fs dir \<and> name \<noteq> ''..''"
proof (cases "op = Create")
  case True
  then obtain parent where p: "canonicalize fs parent = Some dir" "path_file_name target = Some name"
    using assms(1) by (auto simp: split_target_def rbind_eq_Inr)
  have "canon fs dir"
    using resolve_canon [of fs "[]" 40 parent dir] p(1) assms(2)
    by (auto simp: canonicalize_def open_dir_for_write_def)
  then show ?thesis using p(2) by (auto simp: path_file_name_def split: if_splits)
next
  case False
  then have "op = Edit \<or> op = Delete" by (cases op) auto
  then obtain real where r: "canonicalize fs target = Some real" "path_parent real = Some dir"
    "path_file_name real = Some name"
    using assms(1) by (auto simp: split_target_def rbind_eq_Inr)
  have real: "real = dir @ [name]" "name \<noteq> ''..''"
    using r(2,3) by (auto simp: path_parent_def path_file_name_def split: if_splits)
  have "canon fs dir"
    using resolve_canon [of fs "[]" 40 target real] r(1) assms(3) [OF False]
    by (auto simp: canonicalize_def real canon_snoc)
  then show ?thesis using real by simp
qed

text \<open>Executed again on a canonical path, the resolution returns that path.\<close>

lemma split_target_canonical:
  assumes "split_target fs op (dir @ [name]) = Inr (d2, n2)" "canon fs dir" "name \<noteq> ''..''" "name \<noteq> ''.''"
    and "op \<noteq> Create \<Longrightarrow> \<exists>d i b. fs (dir @ [name]) = Some (NFile d i b)"
  shows "d2 = dir \<and> n2 = name"
proof (cases "op = Create")
  case True
  then show ?thesis
    using assms(1-3) canonicalize_canon [OF assms(2)]
    by (auto simp: split_target_def rbind_eq_Inr path_parent_def path_file_name_def)
next
  case False
  then have "op = Edit \<or> op = Delete" by (cases op) auto
  moreover obtain d i b where "fs (dir @ [name]) = Some (NFile d i b)"
    using assms(5) [OF False] by blast
  ultimately show ?thesis
    using assms(1,3) canonicalize_file [OF assms(2) _ assms(4,3)]
    by (auto simp: split_target_def rbind_eq_Inr path_parent_def path_file_name_def)
qed

section \<open>Frames\<close>

lemma bound_frame:
  assumes "List.find (\<lambda>u. u_written u = Some i) (bound_undo uid i t post (us @ [f])) = Some u"
    and "\<forall>u\<in>set us. u_id u \<noteq> uid" and "\<forall>u\<in>set us. u_written u \<noteq> Some i" and "u_id f = uid"
  shows "u = f\<lparr>u_written := Some i, u_post := post\<rparr>"
proof -
  have "u \<in> set (bound_undo uid i t post (us @ [f]))" "u_written u = Some i"
    using find_SomeD [OF assms(1)] by auto
  then show ?thesis
    using assms(2-4) by (auto simp: bound_undo_def Let_def split: if_splits)
qed

lemma check_undo_Inr:
  assumes "check_undo k i g = Inr (u, op, content)"
  shows "List.find (\<lambda>u. u_written u = Some i) (g_undo g) = Some u" "rebuild_inverse u = Inr (op, content)"
  using assms by (auto simp: check_undo_def rbind_eq_Inr split: if_splits)

lemma undo_write_Inr:
  assumes "undo_write k e i g = (g', Inr j)"
  obtains u op content gated g1 where "check_undo k i g = Inr (u, op, content)"
    "propose_write k \<lparr>w_target = str_path (u_target u), w_new_content = content, w_op = op,
          w_sources = [i], w_rationale = ''undo of '' @ i\<rparr> g = Inr gated"
    "execute_write_inner k e gated (Some i) None True g = (g1, Inr j)" "g_fs g' = g_fs g1"
proof -
  obtain u op content where c: "check_undo k i g = Inr (u, op, content)"
    using assms by (auto simp: undo_write_def split: sum.splits)
  obtain gated where p: "propose_write k \<lparr>w_target = str_path (u_target u), w_new_content = content, w_op = op,
          w_sources = [i], w_rationale = ''undo of '' @ i\<rparr> g = Inr gated"
    using assms c by (auto simp: undo_write_def split: sum.splits)
  obtain g1 where x: "execute_write_inner k e gated (Some i) None True g = (g1, Inr j)"
    using assms c p by (auto simp: undo_write_def split: sum.splits prod.splits if_splits)
  show ?thesis
    using assms c p x that
    by (auto simp: undo_write_def pop_and_handoff_undo_def split: if_splits prod.splits sum.splits)
qed

lemma propose_write_proposal: "propose_write k p g = Inr gp \<Longrightarrow> gp_proposal gp = p"
  by (auto simp: propose_write_def rbind_eq_Inr Let_def)

text \<open>What the executor leaves, in one statement: the plan, the frame, and the new file system.\<close>

lemma execute_fs:
  assumes "execute_write_inner k e gp undo_of rp ack g = (g', Inr i)"
  obtains pl where "prepare_write k gp ack g = Inr pl"
    "g_fs g' = (g_fs g)(pl_path pl := written_node e (g_fs g) (pl_dir pl) (w_op (gp_proposal gp)) (w_new_content (gp_proposal gp)))"
    "w_op (gp_proposal gp) = Create \<longrightarrow> g_fs g (pl_path pl) = None"
proof -
  obtain pl g1 where x: "prepare_write k gp ack g = Inr pl"
    "capture_unless_undo k e gp pl undo_of g = Inr g1"
    "mutate e (w_op (gp_proposal gp)) (w_new_content (gp_proposal gp)) pl (g_fs g1)
       = ((g_fs g1)(pl_path pl := written_node e (g_fs g1) (pl_dir pl) (w_op (gp_proposal gp)) (w_new_content (gp_proposal gp))), Inr ())"
    "g_fs g' = (g_fs g1)(pl_path pl := written_node e (g_fs g1) (pl_dir pl) (w_op (gp_proposal gp)) (w_new_content (gp_proposal gp)))"
    using assms by (rule execute_InrE) simp
  show ?thesis
    using that [OF x(1)] x(4) mutate_Inr [OF x(3)] capture_keeps(1) [OF x(2)] by simp
qed

lemma execute_frame:
  assumes "execute_write_inner k e gp None rp ack g = (g', Inr i)" "prepare_write k gp ack g = Inr pl"
  obtains h post where "\<forall>u\<in>set (g_undo g). u_id u \<noteq> env_undo_id e"
    "g_undo g' = bound_undo (env_undo_id e) i (path_str (pl_path pl)) post (g_undo g @
         [\<lparr>u_rowid = next_rowid (g_undo g), u_id = env_undo_id e, u_written = None,
           u_target = path_str (pl_path pl), u_op = op_str (w_op (gp_proposal gp)),
           u_pre = pl_pre pl, u_hash = h, u_post = None, u_created = env_now e\<rparr>])"
proof -
  obtain pl' g1 post where x: "prepare_write k gp ack g = Inr pl'"
    "capture_unless_undo k e gp pl' None g = Inr g1"
    "g_undo g' = bound_undo (env_undo_id e) i (path_str (pl_path pl')) post (g_undo g1)"
    using assms(1) by (rule execute_InrE) simp
  have "pl' = pl" using assms(2) x(1) by simp
  then have "capture_undo k e gp pl g = Inr g1" using x(2) by (simp add: capture_unless_undo_def)
  then show ?thesis
    by (rule capture_undo_Inr) (use that x(3) \<open>pl' = pl\<close> in auto)
qed

section \<open>Undo brings the files back\<close>

text \<open>What a reader of the file system sees: names, directories, links and contents, not inode numbers.\<close>

fun visible :: "node \<Rightarrow> node" where
  "visible (NFile d i b) = NFile 0 0 b"
| "visible n = n"

definition same_files :: "fs \<Rightarrow> fs \<Rightarrow> bool" where
  "same_files f f' \<longleftrightarrow> (\<forall>p. map_option visible (f p) = map_option visible (f' p))"

text \<open>C3. Undo restores: when a write succeeded and its undo then succeeds, every file of the system has
  the content it had before the write; for a create the file is gone again, for a delete it is back.
  The write's id is new to the undo table, and the components of the target are proper names.\<close>

theorem undo_restores_files:
  assumes "execute_write_inner k e gp None rp ack g = (g1, Inr i)"
    and "undo_write k e' i g1 = (g2, Inr j)"
    and "\<forall>u\<in>set (g_undo g). u_written u \<noteq> Some i"
    and "split_target (g_fs g) (w_op (gp_proposal gp)) (w_target (gp_proposal gp)) = Inr (dir, name)"
    and "list_all comp_ok (dir @ [name])"
  shows "same_files (g_fs g2) (g_fs g)"
proof -
  let ?op = "w_op (gp_proposal gp)" and ?c = "w_new_content (gp_proposal gp)" and ?p = "dir @ [name]"
  obtain pl where pl: "prepare_write k gp ack g = Inr pl"
    and fs1: "g_fs g1 = (g_fs g)(pl_path pl := written_node e (g_fs g) (pl_dir pl) ?op ?c)"
    and create: "?op = Create \<longrightarrow> g_fs g (pl_path pl) = None"
    using assms(1) by (rule execute_fs)
  note prep = prepare_write_Inr [OF pl]
  have path: "pl_dir pl = dir" "pl_name pl = name" "pl_path pl = ?p"
    using prep(2) assms(4) by (simp_all add: pl_path_def)
  have pre: "if ?op = Create then g_fs g ?p = None \<and> pl_pre pl = None
      else \<exists>d n b. g_fs g ?p = Some (NFile d n b) \<and> pl_pre pl = Some b"
  proof (cases "?op = Create")
    case True
    then show ?thesis using create prep(5) by (simp add: path base_guard_Create)
  next
    case False
    then show ?thesis using base_guard_Inr [OF prep(5) False] by (metis path(1,2))
  qed
  have dir: "canon (g_fs g) dir" "name \<noteq> ''..''"
    using split_target_path [OF assms(4)] prep(4) pre by (auto simp: path split: if_splits)
  have canon1: "canon (g_fs g1) dir"
    using dir(1) by (simp add: fs1 path canon_update)
  obtain u op2 c2 gated g1' where un: "check_undo k i g1 = Inr (u, op2, c2)"
    "propose_write k \<lparr>w_target = str_path (u_target u), w_new_content = c2, w_op = op2,
          w_sources = [i], w_rationale = ''undo of '' @ i\<rparr> g1 = Inr gated"
    "execute_write_inner k e' gated (Some i) None True g1 = (g1', Inr j)" "g_fs g2 = g_fs g1'"
    using assms(2) by (rule undo_write_Inr)
  obtain h post where fr: "\<forall>u\<in>set (g_undo g). u_id u \<noteq> env_undo_id e"
    "g_undo g1 = bound_undo (env_undo_id e) i (path_str (pl_path pl)) post (g_undo g @
         [\<lparr>u_rowid = next_rowid (g_undo g), u_id = env_undo_id e, u_written = None,
           u_target = path_str (pl_path pl), u_op = op_str (w_op (gp_proposal gp)),
           u_pre = pl_pre pl, u_hash = h, u_post = None, u_created = env_now e\<rparr>])"
    using assms(1) pl by (rule execute_frame)
  have u: "u_target u = path_str ?p" "u_op u = op_str ?op" "u_pre u = pl_pre pl"
    using bound_frame [OF check_undo_Inr(1) [OF un(1), unfolded fr(2)] fr(1) assms(3)] by (simp_all add: path)
  have tgt: "gp_proposal gated = \<lparr>w_target = ?p, w_new_content = c2, w_op = op2,
          w_sources = [i], w_rationale = ''undo of '' @ i\<rparr>"
    using propose_write_proposal [OF un(2)] assms(5) by (simp add: u(1))
  obtain pl2 where pl2: "prepare_write k gated True g1 = Inr pl2"
    and fs2: "g_fs g1' = (g_fs g1)(pl_path pl2 := written_node e' (g_fs g1) (pl_dir pl2) op2 c2)"
    using execute_fs [OF un(3)] by (metis tgt write_proposal.select_convs(2,3))
  have inv: "(?op = Create \<and> op2 = Delete) \<or> (?op = Edit \<and> op2 = Edit \<and> pl_pre pl = Some c2)
      \<or> (?op = Delete \<and> op2 = Create \<and> pl_pre pl = Some c2)"
    using check_undo_Inr(2) [OF un(1)] u(2,3)
    by (cases ?op) (auto simp: rebuild_inverse_def rbind_eq_Inr)
  have "pl_path pl2 = ?p"
  proof -
    have "split_target (g_fs g1) op2 ?p = Inr (pl_dir pl2, pl_name pl2)"
      using prepare_write_Inr(2) [OF pl2] by (simp add: tgt)
    moreover have "name \<noteq> ''.''" using assms(5) by (simp add: comp_ok_def)
    moreover have "\<exists>d i b. g_fs g1 ?p = Some (NFile d i b)" if "op2 \<noteq> Create"
      using inv that by (auto simp: fs1 path written_node_def)
    ultimately show ?thesis
      using split_target_canonical [OF _ canon1 dir(2)] by (metis pl_path_def)
  qed
  then have fs: "g_fs g2 = (g_fs g)(?p := written_node e' (g_fs g1) (pl_dir pl2) op2 c2)"
    by (simp add: un(4) fs2 fs1 path)
  have "map_option visible (written_node e' (g_fs g1) (pl_dir pl2) op2 c2) = map_option visible (g_fs g ?p)"
    using inv pre by (auto simp: written_node_def)
  then show ?thesis by (simp add: same_files_def fs)
qed

section \<open>An orphan frame\<close>


section \<open>A concrete run\<close>

text \<open>A directory under a write grant with one file; a clean memory event to cite; the file is edited and
  the edit undone.\<close>

definition demo_settings :: settings where
  "demo_settings = \<lparr>k_crypto = demo_crypto, k_key = ''k'', k_fmt = (\<lambda>_. None)\<rparr>"

definition demo_fs :: fs where
  "demo_fs = (\<lambda>_. None)([] \<mapsto> NDir \<lparr>fi_dev = 1, fi_ino = 1, fi_size = 0\<rparr>,
     [''d''] \<mapsto> NDir \<lparr>fi_dev = 1, fi_ino = 2, fi_size = 0\<rparr>,
     [''d'', ''f''] \<mapsto> NFile 1 3 ''old'')"

definition demo_clean_log :: log where
  "demo_clean_log = snd (projr (append demo_crypto ''k'' (''a'', ''t1'')
     (draft_event MEMORY_T (jobj [(''text'', JStr ''hi'')]) None) []))"

definition demo_engine :: engine where
  "demo_engine = \<lparr>g_log = demo_clean_log,
     g_tables = empty_tables\<lparr>t_write_grants := [\<lparr>canonical_root = ''/d'', granted_at = ''t0'', revoked = False\<rparr>]\<rparr>,
     g_undo = [], g_bytes = [], g_synth = [], g_fs = demo_fs,
     g_conflict_cursor = (0, 0), g_passages = []\<rparr>"

definition demo_env :: "string \<Rightarrow> nat \<Rightarrow> write_outcome list \<Rightarrow> env" where
  "demo_env i n outs = \<lparr>env_stamp = (i, ''t''), env_undo_id = ''u'' @ i, env_now = ''t'', env_tmp = i,
     env_ino = n, env_writes = outs, env_faults = []\<rparr>"

definition demo_proposal :: write_proposal where
  "demo_proposal = \<lparr>w_target = [''d'', ''f''], w_new_content = ''new'', w_op = Edit, w_sources = [''a''],
     w_rationale = ''why''\<rparr>"

definition demo_gated :: gated_proposal where
  "demo_gated = projr (propose_write demo_settings demo_proposal demo_engine)"

lemma demo_gated_sel:
  "w_op (gp_proposal demo_gated) = Edit" "w_target (gp_proposal demo_gated) = [''d'', ''f'']"
  "w_sources (gp_proposal demo_gated) = [''a'']" "w_new_content (gp_proposal demo_gated) = ''new''"
  by code_simp+

definition demo_e1 :: engine where
  "demo_e1 = fst (execute_write_inner demo_settings (demo_env ''w1'' 7 []) demo_gated None None False demo_engine)"

definition demo_e2 :: engine where
  "demo_e2 = fst (undo_write demo_settings (demo_env ''w2'' 8 []) ''w1'' demo_e1)"

lemma demo_run1:
  "execute_write_inner demo_settings (demo_env ''w1'' 7 []) demo_gated None None False demo_engine
     = (demo_e1, Inr ''w1'')"
proof -
  have "snd (execute_write_inner demo_settings (demo_env ''w1'' 7 []) demo_gated None None False demo_engine) = Inr ''w1''"
    by code_simp
  then show ?thesis by (simp add: demo_e1_def prod_eq_iff)
qed

lemma demo_run2: "undo_write demo_settings (demo_env ''w2'' 8 []) ''w1'' demo_e1 = (demo_e2, Inr ''w2'')"
proof -
  have "snd (undo_write demo_settings (demo_env ''w2'' 8 []) ''w1'' demo_e1) = Inr ''w2''"
    by code_simp
  then show ?thesis by (simp add: demo_e2_def prod_eq_iff)
qed

section \<open>Witnesses\<close>

lemma demo_gated_eq: "propose_write demo_settings demo_proposal demo_engine = Inr demo_gated"
proof -
  have "is_ok (propose_write demo_settings demo_proposal demo_engine)" by code_simp
  then show ?thesis by (auto simp: demo_gated_def is_ok_iff)
qed

text \<open>The same engine tracking another ingested file of the directory.\<close>

definition demo_tracking :: engine where
  "demo_tracking = demo_engine\<lparr>g_fs := demo_fs([''d'', ''g''] \<mapsto> NFile 1 4 ''theirs''),
     g_tables := (g_tables demo_engine)\<lparr>t_files :=
       [\<lparr>f_path = ''/d/g'', f_event_id = ''x'', f_hash = ''h'', f_root = ''/d''\<rparr>]\<rparr>\<rparr>"

definition demo_quiet :: gated_proposal where
  "demo_quiet = projr (propose_write demo_settings demo_proposal demo_tracking)"

theorem quiet_verdict_justified_witness:
  "\<not> flags_any (diff_guard ''new'') \<and> (\<exists>ev. event_by_id demo_clean_log ''a'' = Inr (Some ev))
    \<and> vd_target_canonical (gp_verdict demo_quiet) = Some [''d'', ''f''] \<and> path_str [''d'', ''f''] \<noteq> ''/d/g''"
proof -
  have "is_ok (propose_write demo_settings demo_proposal demo_tracking)" by code_simp
  then have eq: "propose_write demo_settings demo_proposal demo_tracking = Inr demo_quiet"
    by (auto simp: demo_quiet_def is_ok_iff)
  have quiet: "\<not> vd_requires_loud_modal (gp_verdict demo_quiet)" by code_simp
  have c: "vd_target_canonical (gp_verdict demo_quiet) = Some [''d'', ''f'']" by code_simp
  have "f_path ` set (current_files demo_tracking) = {''/d/g''}"
    by (simp add: demo_tracking_def current_files_def)
  then show ?thesis
    using quiet_verdict_justified [OF eq quiet] c
    by (auto simp: demo_proposal_def demo_tracking_def demo_engine_def current_files_def)
qed

theorem execute_write_justified_witness:
  "vd_allowed (gp_verdict demo_gated) \<and> (\<exists>dir name.
     split_target (g_fs demo_engine) Edit [''d'', ''f''] = Inr (dir, name)
     \<and> is_write_allowed demo_engine (dir @ [name]) = Inr True)"
  using execute_write_justified [OF demo_run1] by (auto simp: demo_gated_sel)

text \<open>The same edit on a store that fails when the frame is bound: an error is reported, yet the file is written
  and the record appended.\<close>

definition demo_unbound_env :: env where
  "demo_unbound_env = (demo_env ''w1'' 7 [])\<lparr>env_faults := [BindFrame]\<rparr>"

definition demo_unbound :: engine where
  "demo_unbound = fst (execute_write_inner demo_settings demo_unbound_env demo_gated None None False demo_engine)"

lemma demo_unbound_run:
  "execute_write_inner demo_settings demo_unbound_env demo_gated None None False demo_engine = (demo_unbound, Inl StoreErr)"
proof -
  have "snd (execute_write_inner demo_settings demo_unbound_env demo_gated None None False demo_engine) = Inl StoreErr"
    by code_simp
  then show ?thesis by (simp add: demo_unbound_def prod_eq_iff)
qed

theorem failed_execute_outcomes_witness:
  "g_fs demo_unbound [''d'', ''f''] = Some (NFile 1 7 ''new'') \<and> length (g_log demo_unbound) = 2
    \<and> (\<exists>f. g_undo demo_unbound = [f] \<and> u_pre f = Some ''old'' \<and> u_written f = None)"
proof -
  have "demo_unbound \<noteq> demo_engine"
  proof
    assume "demo_unbound = demo_engine"
    then have "length (g_log demo_unbound) = length (g_log demo_engine)" by simp
    moreover have "length (g_log demo_unbound) = 2" "length (g_log demo_engine) = 1" by code_simp+
    ultimately show False by simp
  qed
  then obtain pl fr where fr: "prepare_write demo_settings demo_gated False demo_engine = Inr pl"
    "g_undo demo_unbound = g_undo demo_engine @ fr" "captured demo_gated pl None fr"
    using failed_execute_outcomes [OF demo_unbound_run] by blast
  have "pl_pre (projr (prepare_write demo_settings demo_gated False demo_engine)) = Some ''old''" by code_simp
  then have pre: "pl_pre pl = Some ''old''" by (simp add: fr(1))
  obtain f where "fr = [f]" "u_pre f = Some ''old''" "u_written f = None"
    using fr(3) pre by (auto simp: captured_def split: list.splits)
  moreover have "g_undo demo_engine = []" by (simp add: demo_engine_def)
  moreover have "g_fs demo_unbound [''d'', ''f''] = Some (NFile 1 7 ''new'')" "length (g_log demo_unbound) = 2" by code_simp+
  ultimately show ?thesis using fr(2) by simp
qed

text \<open>The same edit citing the external note of \<open>EventLog\<close>: loud, acknowledged, stamped.\<close>

definition demo_tainted_engine :: engine where
  "demo_tainted_engine = demo_engine\<lparr>g_log := demo_log1\<rparr>"

definition demo_tainted_gated :: gated_proposal where
  "demo_tainted_gated = projr (propose_write demo_settings demo_proposal demo_tainted_engine)"

definition demo_tainted_after :: engine where
  "demo_tainted_after = fst (execute_write_inner demo_settings (demo_env ''w1'' 7 []) demo_tainted_gated None None
     True demo_tainted_engine)"

lemma demo_tainted_run:
  "execute_write_inner demo_settings (demo_env ''w1'' 7 []) demo_tainted_gated None None True demo_tainted_engine
     = (demo_tainted_after, Inr ''w1'')"
proof -
  have "snd (execute_write_inner demo_settings (demo_env ''w1'' 7 []) demo_tainted_gated None None True
      demo_tainted_engine) = Inr ''w1''"
    by code_simp
  then show ?thesis by (simp add: demo_tainted_after_def prod_eq_iff)
qed

theorem tainted_write_is_stamped_witness:
  "\<exists>r ev. g_log demo_tainted_after = g_log demo_tainted_engine @ [r] \<and> r_id r = ''w1''
    \<and> r_payload r = Some ev \<and> ev_type ev = FILE_WRITTEN_T \<and> is_external ev"
proof (rule tainted_write_is_stamped [OF demo_tainted_run, where src = "''a''"])
  have "''a'' \<in> set (w_sources (gp_proposal demo_tainted_gated))" by code_simp
  then show "''a'' \<in> set (w_sources (gp_proposal demo_tainted_gated)) \<or>
      (\<exists>dir name fr. split_target (g_fs demo_tainted_engine) (w_op (gp_proposal demo_tainted_gated))
          (w_target (gp_proposal demo_tainted_gated)) = Inr (dir, name)
         \<and> current_file_for_path demo_tainted_engine (path_str (dir @ [name])) = Some fr \<and> f_event_id fr = ''a'')"
    by blast
  show "source_is_external_in_tx (g_log demo_tainted_engine) ''a''" by code_simp
qed

theorem undo_restores_files_witness: "same_files (g_fs demo_e2) (g_fs demo_engine)"
proof (rule undo_restores_files [OF demo_run1 demo_run2])
  show "\<forall>u\<in>set (g_undo demo_engine). u_written u \<noteq> Some ''w1''" by code_simp
  show "split_target (g_fs demo_engine) (w_op (gp_proposal demo_gated)) (w_target (gp_proposal demo_gated))
      = Inr ([''d''], ''f'')" by code_simp
  show "list_all comp_ok ([''d''] @ [''f''])" by code_simp
qed



end
