(* ===== verification/Sessions.thy ===== *)
theory Sessions
  imports Undo
begin

text \<open>
  Captured sessions and remembered notes of \<open>log.rs\<close>: the folds that project the current sessions and
  notes from the log, capture with dedup and supersession, deletion that is never undone, and the
  reversible retirement of notes and passages.

  The embedder is external: \<open>derive_vector_for\<close> is the argument \<open>dv\<close>, which may fail after the event
  is appended.  \<open>chrono\<close> is the arguments \<open>date_label\<close> and \<open>unix\<close>.
\<close>

section \<open>The fold\<close>

record current_session =
  cs_event_id :: string
  cs_session_id :: string
  cs_title :: string
  cs_project :: string
  cs_tool :: string
  cs_started_at :: int
  cs_ended_at :: int
  cs_path :: string
  cs_sha256 :: string
  cs_approx_bytes :: int

definition parse_session_content :: "event \<Rightarrow> current_session option" where
  "parse_session_content ev =
     (let c = ev_content ev in
      Option.bind (get_str c ''session_id'') (\<lambda>sid.
      Option.bind (get_str c ''title'') (\<lambda>title.
      Option.bind (get_str c ''project'') (\<lambda>project.
      Option.bind (get_str c ''tool'') (\<lambda>tool.
      Option.bind (get_i64 c ''started_at'') (\<lambda>started.
      Option.bind (get_i64 c ''ended_at'') (\<lambda>ended.
      Option.bind (get_str c ''path'') (\<lambda>p.
      Option.bind (get_str c ''sha256'') (\<lambda>sha.
      Option.bind (get_u64 c ''approx_bytes'') (\<lambda>n.
        Some \<lparr>cs_event_id = ev_id ev, cs_session_id = sid, cs_title = title, cs_project = project,
          cs_tool = tool, cs_started_at = started, cs_ended_at = ended, cs_path = p, cs_sha256 = sha,
          cs_approx_bytes = n\<rparr>))))))))))"

record session_marks =
  sm_deleted :: "string set"
  sm_superseded :: "string set"
  sm_retired_notes :: "string set"
  sm_retired_passages :: "(string \<times> nat) set"

definition no_marks :: session_marks where
  "no_marks = \<lparr>sm_deleted = {}, sm_superseded = {}, sm_retired_notes = {}, sm_retired_passages = {}\<rparr>"

definition passage_of :: "event \<Rightarrow> (string \<times> nat) option" where
  "passage_of ev = (case (get_str (ev_content ev) ''session_id'', get_u64 (ev_content ev) ''passage_id'') of
     (Some s, Some p) \<Rightarrow> Some (s, nat p) | _ \<Rightarrow> None)"

definition add_opt :: "'a option \<Rightarrow> 'a set \<Rightarrow> 'a set" where
  "add_opt x s = (case x of None \<Rightarrow> s | Some y \<Rightarrow> insert y s)"

definition mark_step :: "event \<Rightarrow> session_marks \<Rightarrow> session_marks" where
  "mark_step ev m =
     (if ev_type ev = SUPERSEDE_T
      then m\<lparr>sm_superseded := add_opt (get_str (ev_content ev) ''supersedes'') (sm_superseded m)\<rparr>
      else if ev_type ev = SESSION_DELETED_T
      then m\<lparr>sm_deleted := add_opt (get_str (ev_content ev) ''session_id'') (sm_deleted m)\<rparr>
      else if ev_type ev = NOTE_RETIRED_T
      then m\<lparr>sm_retired_notes := add_opt (get_str (ev_content ev) ''retires'') (sm_retired_notes m)\<rparr>
      else if ev_type ev = PASSAGE_RETIRED_T
      then m\<lparr>sm_retired_passages := add_opt (passage_of ev) (sm_retired_passages m)\<rparr>
      else if ev_type ev = UNRETIRE_T
      then (case get_str (ev_content ev) ''unretires'' of
          Some i \<Rightarrow> m\<lparr>sm_retired_notes := sm_retired_notes m - {i}\<rparr>
        | None \<Rightarrow> (case passage_of ev of None \<Rightarrow> m
            | Some sp \<Rightarrow> m\<lparr>sm_retired_passages := sm_retired_passages m - {sp}\<rparr>))
      else m)"

definition session_entry :: "session_marks \<Rightarrow> event \<Rightarrow> (string \<times> current_session) option" where
  "session_entry m ev =
     (if ev_type ev \<noteq> SESSION_CAPTURED_T \<or> ev_id ev \<in> sm_superseded m then None
      else (case parse_session_content ev of None \<Rightarrow> None
        | Some cs \<Rightarrow> if cs_session_id cs \<in> sm_deleted m then None else Some (cs_session_id cs, cs)))"

definition session_marks_of :: "event list \<Rightarrow> session_marks" where
  "session_marks_of events = fold mark_step events no_marks"

text \<open>The fold: the marks of one pass, and the current sessions of a second.\<close>

definition fold_sessions :: "event list \<Rightarrow> current_session list \<times> session_marks" where
  "fold_sessions events =
     (let m = session_marks_of events in
      (bt_values (fold (\<lambda>ev cur. case session_entry m ev of None \<Rightarrow> cur
         | Some (sid, cs) \<Rightarrow> bt_insert sid cs cur) events []), m))"

definition session_events_ordered :: "log \<Rightarrow> (boss_error, event list) result" where
  "session_events_ordered log = events_of_types [SESSION_CAPTURED_T, SESSION_DELETED_T, SUPERSEDE_T,
     NOTE_RETIRED_T, PASSAGE_RETIRED_T, UNRETIRE_T] log"

definition current_sessions :: "log \<Rightarrow> (boss_error, current_session list) result" where
  "current_sessions log = rbind (session_events_ordered log) (\<lambda>evs. Inr (fst (fold_sessions evs)))"

section \<open>Notes\<close>

record current_note =
  cn_event_id :: string
  cn_text :: string
  cn_created_at :: int

definition note_of :: "(string \<Rightarrow> int option) \<Rightarrow> event \<Rightarrow> current_note" where
  "note_of unix ev = \<lparr>cn_event_id = ev_id ev,
     cn_text = (case get_str (ev_content ev) ''text'' of None \<Rightarrow> [] | Some t \<Rightarrow> t),
     cn_created_at = (case unix (ev_ts ev) of None \<Rightarrow> 0 | Some n \<Rightarrow> n)\<rparr>"

definition note_mark_step :: "event \<Rightarrow> string set \<times> string set \<Rightarrow> string set \<times> string set" where
  "note_mark_step ev = (\<lambda>(superseded, retired).
     if ev_type ev = SUPERSEDE_T
     then (add_opt (get_str (ev_content ev) ''supersedes'') superseded, retired)
     else if ev_type ev = NOTE_RETIRED_T
     then (superseded, add_opt (get_str (ev_content ev) ''retires'') retired)
     else if ev_type ev = UNRETIRE_T
     then (superseded, case get_str (ev_content ev) ''unretires'' of None \<Rightarrow> retired | Some i \<Rightarrow> retired - {i})
     else (superseded, retired))"

text \<open>Newest first, ties by descending id.\<close>

definition fold_notes :: "(string \<Rightarrow> int option) \<Rightarrow> event list \<Rightarrow> current_note list" where
  "fold_notes unix events =
     (let (superseded, retired) = fold note_mark_step events ({}, {}) in
      rev (sort_key (\<lambda>n. (cn_created_at n, cn_event_id n))
        (map (note_of unix) (filter (\<lambda>ev. ev_type ev = MEMORY_T \<and> ev_id ev \<notin> superseded \<and> ev_id ev \<notin> retired)
          events))))"

definition note_types :: "string list" where
  "note_types = [MEMORY_T, SUPERSEDE_T, NOTE_RETIRED_T, UNRETIRE_T]"

definition current_notes :: "(string \<Rightarrow> int option) \<Rightarrow> log \<Rightarrow> (boss_error, current_note list) result" where
  "current_notes unix log = rbind (events_of_types note_types log) (\<lambda>evs. Inr (fold_notes unix evs))"

section \<open>Appending notes and sessions\<close>

text \<open>\<open>derive_vector_for\<close> after the append: its error is returned, the event stays.\<close>

type_synonym deriver = "log \<Rightarrow> string \<Rightarrow> (boss_error, unit) result"

definition then_derive :: "deriver \<Rightarrow> string outcome \<Rightarrow> string outcome" where
  "then_derive dv = (\<lambda>(g, r). case r of Inl e \<Rightarrow> (g, Inl e)
     | Inr i \<Rightarrow> (case dv (g_log g) i of Inl e \<Rightarrow> (g, Inl e) | Inr _ \<Rightarrow> (g, Inr i)))"

definition append_pair_to :: "settings \<Rightarrow> stamp \<Rightarrow> event \<Rightarrow> stamp \<Rightarrow> event \<Rightarrow> engine \<Rightarrow> string outcome" where
  "append_pair_to k s1 e1 s2 e2 g =
     (case append_pair (k_crypto k) (k_key k) s1 e1 s2 e2 (g_log g) of
        Inl e \<Rightarrow> (g, Inl e) | Inr ((_, i2), log) \<Rightarrow> (g\<lparr>g_log := log\<rparr>, Inr i2))"

definition is_blank :: "string \<Rightarrow> bool" where
  "is_blank t \<longleftrightarrow> trim_start t = []"

definition external_note_event :: "string \<Rightarrow> event" where
  "external_note_event t = draft_event MEMORY_T
     (jobj [(''text'', JStr t), (''origin'', JStr EXTERNAL_ORIGIN)]) None"

definition remember :: "settings \<Rightarrow> stamp \<Rightarrow> deriver \<Rightarrow> string \<Rightarrow> engine \<Rightarrow> string outcome" where
  "remember k st dv t g =
     (if is_blank t then (g, Inl (InvalidInput ''cannot remember empty or blank text''))
      else then_derive dv (append_to k st (external_note_event t) g))"

definition ground_truth_supersede_event :: "string \<Rightarrow> event" where
  "ground_truth_supersede_event prior = draft_event SUPERSEDE_T (jobj [(''supersedes'', JStr prior)]) None"

definition superseded_event_ids :: "log \<Rightarrow> (boss_error, string set) result" where
  "superseded_event_ids log = rbind (events_of_types [SUPERSEDE_T] log) (\<lambda>evs.
     Inr (set (List.map_filter (\<lambda>e. get_str (ev_content e) ''supersedes'') evs)))"

definition assert_note_event :: "string \<Rightarrow> log \<Rightarrow> string \<Rightarrow> (boss_error, unit) result" where
  "assert_note_event what log target =
     rbind (event_by_id log target) (\<lambda>found. case found of
        None \<Rightarrow> Inl (InvalidInput (what @ '': no such event''))
      | Some ev \<Rightarrow> if ev_type ev \<noteq> MEMORY_T then Inl (InvalidInput (what @ '': not a remembered note''))
          else Inr ())"

definition supersede_note :: "settings \<Rightarrow> stamp \<Rightarrow> stamp \<Rightarrow> deriver \<Rightarrow> string \<Rightarrow> string \<Rightarrow> engine \<Rightarrow> string outcome" where
  "supersede_note k s1 s2 dv target t g =
     (if is_blank t then (g, Inl (InvalidInput ''cannot remember empty or blank text''))
      else case rbind (assert_note_event ''cannot supersede'' (g_log g) target) (\<lambda>_.
          rbind (superseded_event_ids (g_log g)) (\<lambda>gone.
            if target \<in> gone then Inl (InvalidInput ''cannot supersede: already superseded'') else Inr ())) of
        Inl e \<Rightarrow> (g, Inl e)
      | Inr _ \<Rightarrow> then_derive dv
          (append_pair_to k s1 (ground_truth_supersede_event target) s2 (external_note_event t) g))"

record session_meta =
  me_session_id :: string
  me_title :: string
  me_project :: string
  me_tool :: string
  me_started_at :: int
  me_ended_at :: int
  me_path :: string
  me_sha256 :: string
  me_approx_bytes :: int

definition session_captured_content :: "(int \<Rightarrow> string) \<Rightarrow> session_meta \<Rightarrow> json" where
  "session_captured_content date_label m = jobj
     [(''text'', JStr (me_title m @ '' '' @ [CHR 0xE2, CHR 0x80, CHR 0x94] @ '' '' @ me_project m @ '' (''
        @ date_label (me_ended_at m) @ '')'')),
      (''origin'', JStr EXTERNAL_ORIGIN), (''session_id'', JStr (me_session_id m)),
      (''title'', JStr (me_title m)), (''project'', JStr (me_project m)), (''tool'', JStr (me_tool m)),
      (''started_at'', JNum (me_started_at m)), (''ended_at'', JNum (me_ended_at m)),
      (''path'', JStr (me_path m)), (''sha256'', JStr (me_sha256 m)),
      (''approx_bytes'', JNum (me_approx_bytes m))]"

definition session_captured_event :: "(int \<Rightarrow> string) \<Rightarrow> session_meta \<Rightarrow> event" where
  "session_captured_event date_label m =
     draft_event SESSION_CAPTURED_T (session_captured_content date_label m) None"

definition capture_session :: "settings \<Rightarrow> (int \<Rightarrow> string) \<Rightarrow> stamp \<Rightarrow> stamp \<Rightarrow> deriver \<Rightarrow> session_meta
    \<Rightarrow> engine \<Rightarrow> string outcome" where
  "capture_session k date_label s1 s2 dv meta g =
     (case session_events_ordered (g_log g) of Inl e \<Rightarrow> (g, Inl e)
      | Inr evs \<Rightarrow>
        let (current, marks) = fold_sessions evs; ev = session_captured_event date_label meta in
        if me_session_id meta \<in> sm_deleted marks
        then (g, Inl (InvalidInput ''session was deleted and cannot be recaptured (I9)''))
        else (case List.find (\<lambda>cs. cs_session_id cs = me_session_id meta) current of
            Some prev \<Rightarrow>
              if cs_sha256 prev = me_sha256 meta then (g, Inr (cs_event_id prev))
              else then_derive dv (append_pair_to k s1 (ground_truth_supersede_event (cs_event_id prev)) s2 ev g)
          | None \<Rightarrow> then_derive dv (append_to k s2 ev g)))"

definition delete_session :: "settings \<Rightarrow> stamp \<Rightarrow> string \<Rightarrow> engine \<Rightarrow> string outcome" where
  "delete_session k st sid g =
     (case current_sessions (g_log g) of Inl e \<Rightarrow> (g, Inl e)
      | Inr current \<Rightarrow>
        if \<not> list_ex (\<lambda>cs. cs_session_id cs = sid) current
        then (g, Inl (InvalidInput ''cannot delete session: no current captured session with that id''))
        else append_to k st (draft_event SESSION_DELETED_T (jobj [(''session_id'', JStr sid)]) None) g)"

section \<open>Retiring\<close>

text \<open>The marker of a retirement resolved from a conflict names the proposal.\<close>

definition via_conflict :: "string option \<Rightarrow> (string \<times> json) list" where
  "via_conflict pid = (case pid of None \<Rightarrow> []
     | Some i \<Rightarrow> [(''via'', JStr ''conflict''), (''proposal_id'', JStr i)])"

definition rewind_conflict_cursor :: "nat \<Rightarrow> nat \<Rightarrow> engine \<Rightarrow> engine" where
  "rewind_conflict_cursor seq within g =
     (if (seq, within) < g_conflict_cursor g then g\<lparr>g_conflict_cursor := (seq, within)\<rparr> else g)"

definition assert_retirable_note :: "log \<Rightarrow> string \<Rightarrow> (boss_error, unit) result" where
  "assert_retirable_note log target =
     rbind (assert_note_event ''cannot retire'' log target) (\<lambda>_.
     rbind (session_events_ordered log) (\<lambda>evs.
       let m = session_marks_of evs in
       if target \<in> sm_superseded m then Inl (InvalidInput ''cannot retire: already superseded'')
       else if target \<in> sm_retired_notes m then Inl (InvalidInput ''cannot retire: already retired'')
       else Inr ()))"

definition assert_note_retired :: "log \<Rightarrow> string \<Rightarrow> (boss_error, unit) result" where
  "assert_note_retired log target =
     rbind (session_events_ordered log) (\<lambda>evs.
       if target \<notin> sm_retired_notes (session_marks_of evs)
       then Inl (InvalidInput ''cannot unretire: not retired'') else Inr ())"

definition retire_memory :: "settings \<Rightarrow> stamp \<Rightarrow> string \<Rightarrow> string option \<Rightarrow> engine \<Rightarrow> string outcome" where
  "retire_memory k st target pid g =
     (case assert_retirable_note (g_log g) target of Inl e \<Rightarrow> (g, Inl e)
      | Inr _ \<Rightarrow> append_to k st
          (draft_event NOTE_RETIRED_T (jobj ((''retires'', JStr target) # via_conflict pid)) None) g)"

definition unretire :: "settings \<Rightarrow> stamp \<Rightarrow> string \<Rightarrow> engine \<Rightarrow> string outcome" where
  "unretire k st target g =
     (case assert_note_retired (g_log g) target of Inl e \<Rightarrow> (g, Inl e)
      | Inr _ \<Rightarrow> (case append_to k st (draft_event UNRETIRE_T (jobj [(''unretires'', JStr target)]) None) g of
          (g', Inl e) \<Rightarrow> (g', Inl e)
        | (g', Inr i) \<Rightarrow> (case seq_of_event (g_log g') target of
            None \<Rightarrow> (g', Inr i) | Some seq \<Rightarrow> (rewind_conflict_cursor seq 0 g', Inr i))))"

definition session_passage_count :: "engine \<Rightarrow> string \<Rightarrow> nat" where
  "session_passage_count g i = length (filter (\<lambda>(e, _, _). e = i) (g_passages g))"

definition find_session :: "string \<Rightarrow> current_session list \<Rightarrow> current_session option" where
  "find_session sid current = List.find (\<lambda>cs. cs_session_id cs = sid) current"

definition passage_content :: "string \<Rightarrow> nat \<Rightarrow> (string \<times> json) list" where
  "passage_content sid pid = [(''session_id'', JStr sid), (''passage_id'', JNum (int pid))]"

definition retire_passage :: "settings \<Rightarrow> stamp \<Rightarrow> string \<Rightarrow> nat \<Rightarrow> string option \<Rightarrow> engine \<Rightarrow> string outcome" where
  "retire_passage k st sid pid proposal g =
     (case session_events_ordered (g_log g) of Inl e \<Rightarrow> (g, Inl e)
      | Inr evs \<Rightarrow>
        let (current, marks) = fold_sessions evs in
        case find_session sid current of
          None \<Rightarrow> (g, Inl (InvalidInput ''cannot retire passage: no current session''))
        | Some cs \<Rightarrow>
          if pid \<ge> session_passage_count g (cs_event_id cs)
          then (g, Inl (InvalidInput ''cannot retire passage: out of range''))
          else if (sid, pid) \<in> sm_retired_passages marks
          then (g, Inl (InvalidInput ''cannot retire passage: already retired''))
          else append_to k st (draft_event PASSAGE_RETIRED_T
            (jobj (passage_content sid pid @ via_conflict proposal)) None) g)"

definition unretire_passage :: "settings \<Rightarrow> stamp \<Rightarrow> string \<Rightarrow> nat \<Rightarrow> engine \<Rightarrow> string outcome" where
  "unretire_passage k st sid pid g =
     (case session_events_ordered (g_log g) of Inl e \<Rightarrow> (g, Inl e)
      | Inr evs \<Rightarrow>
        let (current, marks) = fold_sessions evs in
        if (sid, pid) \<notin> sm_retired_passages marks
        then (g, Inl (InvalidInput ''cannot unretire passage: not retired''))
        else case append_to k st (draft_event UNRETIRE_T (jobj (passage_content sid pid)) None) g of
          (g', Inl e) \<Rightarrow> (g', Inl e)
        | (g', Inr i) \<Rightarrow> (case find_session sid current of None \<Rightarrow> (g', Inr i)
            | Some cs \<Rightarrow> (case seq_of_event (g_log g') (cs_event_id cs) of None \<Rightarrow> (g', Inr i)
                | Some seq \<Rightarrow> (rewind_conflict_cursor seq pid g', Inr i))))"

definition deleted_session_ids :: "log \<Rightarrow> (boss_error, string list) result" where
  "deleted_session_ids log =
     rbind (session_events_ordered log) (\<lambda>evs. Inr (sorted_list_of_set (sm_deleted (session_marks_of evs))))"

definition embed_excluded_event_ids :: "log \<Rightarrow> (boss_error, string set) result" where
  "embed_excluded_event_ids log =
     rbind (session_events_ordered log) (\<lambda>evs.
       let m = session_marks_of evs in
       Inr (sm_superseded m \<union> sm_retired_notes m \<union>
         set (map ev_id (filter (\<lambda>ev. ev_type ev = SESSION_CAPTURED_T \<and>
           (case get_str (ev_content ev) ''session_id'' of None \<Rightarrow> False | Some sid \<Rightarrow> sid \<in> sm_deleted m)) evs))))"

section \<open>The marks\<close>

lemma marks_snoc [fold_simps]: "session_marks_of (evs @ [ev]) = mark_step ev (session_marks_of evs)"
  by (simp add: session_marks_of_def)

lemma add_opt_iff [simp]: "x \<in> add_opt y s \<longleftrightarrow> y = Some x \<or> x \<in> s"
  by (auto simp: add_opt_def split: option.split)

lemma deleted_iff:
  "sid \<in> sm_deleted (session_marks_of evs) \<longleftrightarrow>
     (\<exists>ev\<in>set evs. ev_type ev = SESSION_DELETED_T \<and> get_str (ev_content ev) ''session_id'' = Some sid)"
proof (induction evs rule: rev_induct)
  case Nil
  then show ?case by (simp add: session_marks_of_def no_marks_def)
next
  case (snoc ev evs)
  have "sm_deleted (mark_step ev m) = (if ev_type ev = SESSION_DELETED_T
      then add_opt (get_str (ev_content ev) ''session_id'') (sm_deleted m) else sm_deleted m)" for m
    by (auto simp: mark_step_def split: option.split)
  then show ?case using snoc by (auto simp: fold_simps)
qed

lemma superseded_iff:
  "i \<in> sm_superseded (session_marks_of evs) \<longleftrightarrow> i \<in> superseded_ids evs"
proof (induction evs rule: rev_induct)
  case Nil
  then show ?case by (simp add: session_marks_of_def no_marks_def superseded_ids_def)
next
  case (snoc ev evs)
  have "sm_superseded (mark_step ev m) = (if ev_type ev = SUPERSEDE_T
      then add_opt (get_str (ev_content ev) ''supersedes'') (sm_superseded m) else sm_superseded m)" for m
    by (auto simp: mark_step_def split: option.split)
  then show ?case using snoc by (auto simp: fold_simps superseded_ids_def split: option.splits)
qed

lemma fold_sessions_upsert:
  "fst (fold_sessions evs) = bt_values (fold (bt.upsert (session_entry (session_marks_of evs))) evs [])"
  by (simp add: fold_sessions_def Let_def bt.upsert_def [abs_def])

lemma fold_sessions_iff:
  "cs \<in> set (fst (fold_sessions evs)) \<longleftrightarrow>
     (\<exists>ev. find_last (bt.keyed (session_entry (session_marks_of evs)) (cs_session_id cs)) evs = Some ev
       \<and> session_entry (session_marks_of evs) ev = Some (cs_session_id cs, cs))"
proof -
  have "session_entry m ev = Some (k, cs) \<Longrightarrow> k = cs_session_id cs" for m ev k
    by (auto simp: session_entry_def split: if_splits option.splits)
  then show ?thesis
    unfolding fold_sessions_upsert bt_upsert_value_iff by metis
qed

lemma current_not_deleted:
  "cs \<in> set (fst (fold_sessions evs)) \<Longrightarrow> cs_session_id cs \<notin> sm_deleted (session_marks_of evs)"
  by (auto simp: fold_sessions_iff session_entry_def split: if_splits option.splits)

lemma current_unique:
  "cs \<in> set (fst (fold_sessions evs)) \<Longrightarrow> cs' \<in> set (fst (fold_sessions evs)) \<Longrightarrow>
   cs_session_id cs = cs_session_id cs' \<Longrightarrow> cs = cs'"
  by (auto simp: fold_sessions_iff)

section \<open>Properties\<close>

text \<open>C8. A deletion is for good: once a session was deleted, it is current in no later state of the log,
  and capturing it again, whatever the new content is, is refused and changes nothing.\<close>

theorem deleted_session_never_returns:
  assumes "session_events_ordered (g_log g) = Inr evs" and "ev \<in> set evs"
    and "ev_type ev = SESSION_DELETED_T" and "get_str (ev_content ev) ''session_id'' = Some (me_session_id meta)"
  shows "me_session_id meta \<notin> cs_session_id ` set (fst (fold_sessions evs))
    \<and> capture_session k date_label s1 s2 dv meta g =
      (g, Inl (InvalidInput ''session was deleted and cannot be recaptured (I9)''))"
proof -
  have del: "me_session_id meta \<in> sm_deleted (session_marks_of evs)"
    using assms(2-4) by (auto simp: deleted_iff)
  then have "me_session_id meta \<notin> cs_session_id ` set (fst (fold_sessions evs))"
    using current_not_deleted by auto
  then show ?thesis
    using del by (simp add: capture_session_def assms(1) fold_sessions_def Let_def)
qed

section \<open>What an append adds\<close>

lemma stamp_no_meta [simp]: "ev_meta ev = None \<Longrightarrow> stamp_origin log ev = ev"
  by (simp add: stamp_origin_def tainted_def)

lemma append_to_events:
  assumes "append_to k st ev g = (g', Inr i)" "ev_meta ev = None" "types \<noteq> []"
    and "events_of_types types (g_log g) = Inr evs"
  obtains ev' where "events_of_types types (g_log g') = Inr (if ev_type ev \<in> set types then evs @ [ev'] else evs)"
    "ev_id ev' = i" "ev_type ev' = ev_type ev" "ev_content ev' = ev_content ev" "g' = g\<lparr>g_log := g_log g'\<rparr>"
proof -
  obtain log where log: "append (k_crypto k) (k_key k) st ev (g_log g) = Inr (i, log)" "g' = g\<lparr>g_log := log\<rparr>"
    using assms(1) by (auto simp: append_to_Inr)
  obtain r ev' where r: "log = g_log g @ [r]" "r_type r = ev_type ev" "r_payload r = Some ev'"
    "ev_id ev' = i" "ev_type ev' = ev_type ev" "ev_content ev' = ev_content ev"
    using append_row [OF log(1)] assms(2) by (metis stamp_no_meta)
  show ?thesis
    using that [of ev'] r log assms(3,4) by (simp add: events_of_types_snoc)
qed

lemma append_pair_to_split:
  assumes "append_pair_to k s1 e1 s2 e2 g = (g', Inr i)"
  obtains g1 i1 where "append_to k s1 e1 g = (g1, Inr i1)" "append_to k s2 e2 g1 = (g', Inr i)"
proof -
  obtain i1 log where p: "append_pair (k_crypto k) (k_key k) s1 e1 s2 e2 (g_log g) = Inr ((i1, i), log)"
    "g' = g\<lparr>g_log := log\<rparr>"
    using assms by (auto simp: append_pair_to_def split: sum.splits)
  obtain log1 where "append (k_crypto k) (k_key k) s1 e1 (g_log g) = Inr (i1, log1)"
    "append (k_crypto k) (k_key k) s2 e2 log1 = Inr (i, log)"
    using p(1) by (rule append_pair_InrD)
  then show ?thesis
    using that [of "g\<lparr>g_log := log1\<rparr>" i1] p(2) by (auto simp: append_to_Inr)
qed

lemma then_derive_Inr: "then_derive dv r = (g, Inr i) \<Longrightarrow> r = (g, Inr i)"
  by (cases r) (auto simp: then_derive_def split: sum.splits)

definition session_of :: "string \<Rightarrow> session_meta \<Rightarrow> current_session" where
  "session_of i m = \<lparr>cs_event_id = i, cs_session_id = me_session_id m, cs_title = me_title m,
     cs_project = me_project m, cs_tool = me_tool m, cs_started_at = me_started_at m,
     cs_ended_at = me_ended_at m, cs_path = me_path m, cs_sha256 = me_sha256 m,
     cs_approx_bytes = me_approx_bytes m\<rparr>"

definition meta_ok :: "session_meta \<Rightarrow> bool" where
  "meta_ok m \<longleftrightarrow> in_i64 (me_started_at m) \<and> in_i64 (me_ended_at m) \<and> in_u64 (me_approx_bytes m)"

lemma parse_captured:
  "meta_ok m \<Longrightarrow> ev_content ev = session_captured_content dl m \<Longrightarrow>
   parse_session_content ev = Some (session_of (ev_id ev) m)"
  by (simp add: parse_session_content_def session_captured_content_def meta_ok_def session_of_def Let_def
      get_i64_jobj get_u64_jobj)

lemma captured_is_current:
  assumes "meta_ok m" "ev_type ev = SESSION_CAPTURED_T" "ev_content ev = session_captured_content dl m"
    and "ev_id ev \<notin> superseded_ids (evs @ [ev])" "me_session_id m \<notin> sm_deleted (session_marks_of (evs @ [ev]))"
  shows "session_of (ev_id ev) m \<in> set (fst (fold_sessions (evs @ [ev])))"
proof -
  have "session_entry (session_marks_of (evs @ [ev])) ev = Some (me_session_id m, session_of (ev_id ev) m)"
    using assms parse_captured [OF assms(1,3)]
    by (simp add: session_entry_def superseded_iff session_of_def)
  moreover have "cs_session_id (session_of (ev_id ev) m) = me_session_id m"
    by (simp add: session_of_def)
  ultimately show ?thesis
    by (simp add: fold_sessions_iff bt.keyed_def)
qed

lemma find_current:
  assumes "cs \<in> set (fst (fold_sessions evs))"
  shows "List.find (\<lambda>c. cs_session_id c = cs_session_id cs) (fst (fold_sessions evs)) = Some cs"
proof (cases "List.find (\<lambda>c. cs_session_id c = cs_session_id cs) (fst (fold_sessions evs))")
  case None
  then show ?thesis using assms by (auto simp: find_None_iff2)
next
  case (Some c)
  then show ?thesis using find_SomeD [OF Some] current_unique assms by auto
qed

text \<open>Capturing what is current changes nothing.\<close>

lemma capture_dedup:
  assumes "session_events_ordered (g_log g) = Inr evs" "cs \<in> set (fst (fold_sessions evs))"
    and "cs_session_id cs = me_session_id meta" "cs_sha256 cs = me_sha256 meta"
  shows "capture_session k dl s1 s2 dv meta g = (g, Inr (cs_event_id cs))"
proof -
  have "me_session_id meta \<notin> sm_deleted (session_marks_of evs)"
    using current_not_deleted [OF assms(2)] assms(3) by simp
  then show ?thesis
    using find_current [OF assms(2)] assms(1,3,4)
    by (simp add: capture_session_def fold_sessions_def Let_def)
qed

definition session_types :: "string list" where
  "session_types = [SESSION_CAPTURED_T, SESSION_DELETED_T, SUPERSEDE_T, NOTE_RETIRED_T, PASSAGE_RETIRED_T, UNRETIRE_T]"

lemma session_events_types: "session_events_ordered log = events_of_types session_types log"
  by (simp add: session_events_ordered_def session_types_def)

lemma marks_captured:
  "ev_type ev = SESSION_CAPTURED_T \<Longrightarrow> mark_step ev m = m"
  by (simp add: mark_step_def)

text \<open>Capture is idempotent: when a capture returned an id, capturing the same session content again
  returns that id and appends nothing; the session has exactly one current version, the captured one.
  The id it returned is named by no supersede event.\<close>

lemma capture_session_idempotent:
  assumes "capture_session k dl s1 s2 dv meta g = (g1, Inr i)" and "meta_ok meta"
    and "session_events_ordered (g_log g1) = Inr evs1" and "i \<notin> superseded_ids evs1"
  shows "capture_session k dl' s3 s4 dv' meta g1 = (g1, Inr i)
    \<and> cs_event_id ` {c \<in> set (fst (fold_sessions evs1)). cs_session_id c = me_session_id meta} = {i}"
proof -
  obtain evs where evs: "session_events_ordered (g_log g) = Inr evs"
    using assms(1) by (auto simp: capture_session_def split: sum.splits)
  have del: "me_session_id meta \<notin> sm_deleted (session_marks_of evs)"
    using assms(1) by (auto simp: capture_session_def evs fold_sessions_def Let_def split: if_splits)
  let ?ev = "session_captured_event dl meta"
  have cap: "ev_type ?ev = SESSION_CAPTURED_T" "ev_meta ?ev = None"
    "ev_content ?ev = session_captured_content dl meta"
    by (simp_all add: session_captured_event_def)
  have new: "\<exists>cs\<in>set (fst (fold_sessions evs1)). cs_session_id cs = me_session_id meta
      \<and> cs_sha256 cs = me_sha256 meta \<and> cs_event_id cs = i"
    if app: "append_to k s2 ?ev g' = (g1, Inr i)" and g': "session_events_ordered (g_log g') = Inr evs'"
      and del': "me_session_id meta \<notin> sm_deleted (session_marks_of evs')" for g' evs'
  proof -
    obtain ev' where ev': "session_events_ordered (g_log g1) = Inr (evs' @ [ev'])" "ev_id ev' = i"
      "ev_type ev' = SESSION_CAPTURED_T" "ev_content ev' = session_captured_content dl meta"
      using append_to_events [OF app cap(2), of session_types evs'] g' cap
      by (auto simp: session_events_types session_types_def)
    have "session_of (ev_id ev') meta \<in> set (fst (fold_sessions (evs' @ [ev'])))"
      using ev' assms(3,4) del'
      by (intro captured_is_current [OF assms(2)]) (simp_all add: fold_simps marks_captured)
    then show ?thesis
      using ev' assms(3) by (intro bexI) (auto simp: session_of_def)
  qed
  have "\<exists>cs\<in>set (fst (fold_sessions evs1)). cs_session_id cs = me_session_id meta
      \<and> cs_sha256 cs = me_sha256 meta \<and> cs_event_id cs = i"
  proof (cases "List.find (\<lambda>cs. cs_session_id cs = me_session_id meta) (fst (fold_sessions evs))")
    case None
    then have "append_to k s2 ?ev g = (g1, Inr i)"
      using assms(1) del by (auto simp: capture_session_def evs fold_sessions_def Let_def dest: then_derive_Inr)
    then show ?thesis using new evs del by blast
  next
    case (Some prev)
    show ?thesis
    proof (cases "cs_sha256 prev = me_sha256 meta")
      case True
      then have "g1 = g" "i = cs_event_id prev"
        using assms(1) del Some by (auto simp: capture_session_def evs fold_sessions_def Let_def)
      then show ?thesis using find_SomeD [OF Some] True evs assms(3) by auto
    next
      case False
      let ?s = "ground_truth_supersede_event (cs_event_id prev)"
      have "append_pair_to k s1 ?s s2 ?ev g = (g1, Inr i)"
        using assms(1) del Some False
        by (auto simp: capture_session_def evs fold_sessions_def Let_def dest: then_derive_Inr)
      then obtain g' i1 where a: "append_to k s1 ?s g = (g', Inr i1)" "append_to k s2 ?ev g' = (g1, Inr i)"
        by (rule append_pair_to_split)
      have sup: "ev_type ?s = SUPERSEDE_T" "ev_meta ?s = None"
        by (simp_all add: ground_truth_supersede_event_def)
      obtain ev' where ev': "session_events_ordered (g_log g') = Inr (evs @ [ev'])" "ev_type ev' = SUPERSEDE_T"
        using append_to_events [OF a(1) sup(2), of session_types evs] evs sup
        by (auto simp: session_events_types session_types_def)
      have "sm_deleted (session_marks_of (evs @ [ev'])) = sm_deleted (session_marks_of evs)"
        using ev'(2) by (simp add: fold_simps mark_step_def)
      then show ?thesis using new [OF a(2) ev'(1)] del by simp
    qed
  qed
  then obtain cs where cs: "cs \<in> set (fst (fold_sessions evs1))" "cs_session_id cs = me_session_id meta"
    "cs_sha256 cs = me_sha256 meta" "cs_event_id cs = i" by blast
  have "{c \<in> set (fst (fold_sessions evs1)). cs_session_id c = me_session_id meta} = {cs}"
    using cs(1,2) current_unique by auto
  then show ?thesis
    using capture_dedup [OF assms(3) cs(1,2,3)] cs(4) by simp
qed

section \<open>Retiring a note and taking it back\<close>

definition gone_notes :: "event list \<Rightarrow> string set \<times> string set" where
  "gone_notes evs = fold note_mark_step evs ({}, {})"

lemma gone_notes_snoc [fold_simps]: "gone_notes (evs @ [ev]) = note_mark_step ev (gone_notes evs)"
  by (simp add: gone_notes_def)

lemma snd_note_mark_step:
  "snd (note_mark_step ev p) = (if ev_type ev = NOTE_RETIRED_T
     then add_opt (get_str (ev_content ev) ''retires'') (snd p)
     else if ev_type ev = UNRETIRE_T
     then (case get_str (ev_content ev) ''unretires'' of None \<Rightarrow> snd p | Some i \<Rightarrow> snd p - {i}) else snd p)"
  by (simp add: note_mark_step_def split_def)

lemma retired_mark_step:
  "sm_retired_notes (mark_step ev m) = (if ev_type ev = NOTE_RETIRED_T
     then add_opt (get_str (ev_content ev) ''retires'') (sm_retired_notes m)
     else if ev_type ev = UNRETIRE_T
     then (case get_str (ev_content ev) ''unretires'' of None \<Rightarrow> sm_retired_notes m
       | Some i \<Rightarrow> sm_retired_notes m - {i}) else sm_retired_notes m)"
  by (simp add: mark_step_def split: option.split)

lemma gone_notes_retired: "snd (gone_notes evs) = sm_retired_notes (session_marks_of evs)"
proof (induction evs rule: rev_induct)
  case Nil
  then show ?case by (simp add: gone_notes_def session_marks_of_def no_marks_def)
next
  case (snoc ev evs)
  then show ?case by (simp only: fold_simps snd_note_mark_step retired_mark_step)
qed

text \<open>The session events and the note events of one log agree on which notes are retired.\<close>

lemma retired_same:
  assumes "events_of_types session_types log = Inr evs" "events_of_types note_types log = Inr nevs"
    and "\<forall>r\<in>set log. row_ok r"
  shows "sm_retired_notes (session_marks_of evs) = snd (gone_notes nevs)"
  using assms
proof (induction log arbitrary: evs nevs rule: rev_induct)
  case Nil
  then show ?case
    by (simp add: events_of_types_def session_types_def note_types_def gone_notes_retired)
next
  case (snoc r log)
  obtain ev where ev: "r_payload r = Some ev" "ev_type ev = r_type r"
    using snoc.prems(3) by (auto simp: row_ok_iff)
  have ne: "session_types \<noteq> []" "note_types \<noteq> []"
    by (simp_all add: session_types_def note_types_def)
  obtain e0 n0 where e0: "events_of_types session_types log = Inr e0" "events_of_types note_types log = Inr n0"
    and eq: "evs = (if r_type r \<in> set session_types then e0 @ [ev] else e0)"
      "nevs = (if r_type r \<in> set note_types then n0 @ [ev] else n0)"
    using snoc.prems(1,2) by (auto simp: events_of_types_snoc [OF _ ev(1)] ne rbind_eq_Inr)
  have IH: "sm_retired_notes (session_marks_of e0) = sm_retired_notes (session_marks_of n0)"
    using snoc.IH [OF e0] snoc.prems(3) by (simp add: gone_notes_retired)
  show ?case
  proof (cases "r_type r \<in> {NOTE_RETIRED_T, UNRETIRE_T}")
    case True
    then have "r_type r \<in> set session_types" "r_type r \<in> set note_types"
      by (auto simp: session_types_def note_types_def)
    then show ?thesis
      unfolding eq gone_notes_retired by (simp add: marks_snoc retired_mark_step IH split: option.split)
  next
    case False
    then show ?thesis
      unfolding eq gone_notes_retired using ev(2) by (auto simp: marks_snoc retired_mark_step IH split: option.split)
  qed
qed

lemma get_str_retires: "get_str (jobj ((''retires'', JStr t) # via_conflict pid)) ''retires'' = Some t"
  by (simp add: via_conflict_def split: option.split)

lemma fold_notes_gone:
  "fold_notes unix evs = rev (sort_key (\<lambda>n. (cn_created_at n, cn_event_id n))
     (map (note_of unix) (filter (\<lambda>ev. ev_type ev = MEMORY_T \<and> ev_id ev \<notin> fst (gone_notes evs)
        \<and> ev_id ev \<notin> snd (gone_notes evs)) evs)))"
  by (cases "gone_notes evs") (simp add: fold_notes_def gone_notes_def)

text \<open>Retirement is exactly reversible: retiring a note takes it off the list of current notes, and
  unretiring it restores that list, its order and every text included.\<close>

lemma retire_unretire_roundtrip:
  assumes "\<forall>r\<in>set (g_log g). row_ok r" and "current_notes unix (g_log g) = Inr notes"
    and "retire_memory k s1 target pid g = (g1, Inr m1)" and "unretire k s2 target g1 = (g2, Inr m2)"
  shows "(\<exists>notes1. current_notes unix (g_log g1) = Inr notes1 \<and> target \<notin> cn_event_id ` set notes1)
    \<and> current_notes unix (g_log g2) = Inr notes"
proof -
  let ?r = "draft_event NOTE_RETIRED_T (jobj ((''retires'', JStr target) # via_conflict pid)) None"
  let ?u = "draft_event UNRETIRE_T (jobj [(''unretires'', JStr target)]) None"
  obtain nevs where nevs: "events_of_types note_types (g_log g) = Inr nevs" "notes = fold_notes unix nevs"
    using assms(2) by (auto simp: current_notes_def rbind_eq_Inr)
  obtain evs where evs: "events_of_types session_types (g_log g) = Inr evs"
    and fresh: "target \<notin> sm_retired_notes (session_marks_of evs)" and a1: "append_to k s1 ?r g = (g1, Inr m1)"
    using assms(3) by (auto simp: retire_memory_def assert_retirable_note_def rbind_eq_Inr Let_def
        session_events_types split: sum.splits if_splits)
  obtain r' where r': "events_of_types note_types (g_log g1) = Inr (nevs @ [r'])"
    "ev_type r' = NOTE_RETIRED_T" "ev_content r' = jobj ((''retires'', JStr target) # via_conflict pid)"
    using append_to_events [OF a1 _ _ nevs(1)] by (auto simp: note_types_def)
  have rget: "get_str (ev_content r') ''retires'' = Some target"
    by (simp only: r'(3) get_str_retires)
  obtain g1' where a2: "append_to k s2 ?u g1 = (g1', Inr m2)" "g_log g2 = g_log g1'"
    using assms(4) by (auto simp: unretire_def rewind_conflict_cursor_def split: sum.splits prod.splits option.splits if_splits)
  obtain u' where u': "events_of_types note_types (g_log g2) = Inr ((nevs @ [r']) @ [u'])"
    "ev_type u' = UNRETIRE_T" "ev_content u' = jobj [(''unretires'', JStr target)]"
    using append_to_events [OF a2(1) _ _ r'(1)] a2(2) by (auto simp: note_types_def)
  have uget: "get_str (ev_content u') ''unretires'' = Some target"
    by (simp add: u'(3))
  have "target \<notin> snd (gone_notes nevs)"
    using retired_same [OF evs nevs(1) assms(1)] fresh by simp
  then have undone: "gone_notes ((nevs @ [r']) @ [u']) = gone_notes nevs"
    using r'(2) rget u'(2) uget unfolding gone_notes_snoc
    by (cases "gone_notes nevs") (auto simp: note_mark_step_def add_opt_def)
  have off: "snd (gone_notes (nevs @ [r'])) = insert target (snd (gone_notes nevs))"
    using r'(2) rget by (cases "gone_notes nevs") (simp add: fold_simps note_mark_step_def add_opt_def)
  have "fold_notes unix ((nevs @ [r']) @ [u']) = notes"
    using r'(2) u'(2) unfolding nevs(2) fold_notes_gone undone by simp
  moreover have "target \<notin> cn_event_id ` set (fold_notes unix (nevs @ [r']))"
    by (auto simp: fold_notes_gone off note_of_def)
  ultimately show ?thesis
    using r'(1) u'(1) by (simp add: current_notes_def)
qed

section \<open>Witnesses\<close>

definition demo_meta :: session_meta where
  "demo_meta = \<lparr>me_session_id = ''s'', me_title = ''T'', me_project = ''P'', me_tool = ''t'',
     me_started_at = 1, me_ended_at = 2, me_path = ''/x'', me_sha256 = ''h'', me_approx_bytes = 3\<rparr>"

abbreviation demo_capture :: "stamp \<Rightarrow> engine \<Rightarrow> string outcome" where
  "demo_capture st \<equiv> capture_session demo_settings (\<lambda>_. ''d'') (''x'', ''t'') st (\<lambda>_ _. Inr ()) demo_meta"

definition demo_captured :: engine where
  "demo_captured = fst (demo_capture (''c'', ''t'') demo_engine)"

lemma demo_captured: "demo_capture (''c'', ''t'') demo_engine = (demo_captured, Inr ''c'')"
proof -
  have "snd (demo_capture (''c'', ''t'') demo_engine) = Inr ''c''" by code_simp
  then show ?thesis by (simp add: demo_captured_def prod_eq_iff)
qed

definition demo_captured_events :: "event list" where
  "demo_captured_events = projr (session_events_ordered (g_log demo_captured))"

lemma demo_captured_events: "session_events_ordered (g_log demo_captured) = Inr demo_captured_events"
proof -
  have "is_ok (session_events_ordered (g_log demo_captured))" by code_simp
  then show ?thesis by (auto simp: demo_captured_events_def is_ok_iff)
qed

lemma capture_session_idempotent_witness:
  "demo_capture (''c2'', ''t2'') demo_captured = (demo_captured, Inr ''c'')"
proof -
  have "meta_ok demo_meta" "''c'' \<notin> superseded_ids demo_captured_events" by code_simp+
  then show ?thesis
    using capture_session_idempotent [OF demo_captured _ demo_captured_events] by blast
qed

definition demo_deleted :: engine where
  "demo_deleted = fst (delete_session demo_settings (''del'', ''t'') ''s'' demo_captured)"

theorem deleted_session_never_returns_witness:
  "demo_capture (''c3'', ''t3'') demo_deleted =
     (demo_deleted, Inl (InvalidInput ''session was deleted and cannot be recaptured (I9)''))"
proof -
  let ?evs = "projr (session_events_ordered (g_log demo_deleted))"
  have "is_ok (session_events_ordered (g_log demo_deleted))" by code_simp
  then have "session_events_ordered (g_log demo_deleted) = Inr ?evs" by (auto simp: is_ok_iff)
  moreover have "last ?evs \<in> set ?evs" "ev_type (last ?evs) = SESSION_DELETED_T"
    "get_str (ev_content (last ?evs)) ''session_id'' = Some (me_session_id demo_meta)" by code_simp+
  ultimately show ?thesis by (blast dest: deleted_session_never_returns)
qed

definition demo_retired :: engine where
  "demo_retired = fst (retire_memory demo_settings (''r'', ''t'') ''a'' None demo_engine)"

definition demo_unretired :: engine where
  "demo_unretired = fst (unretire demo_settings (''n'', ''t'') ''a'' demo_retired)"

lemma retire_unretire_roundtrip_witness:
  "current_notes (\<lambda>_. None) (g_log demo_unretired) = Inr [\<lparr>cn_event_id = ''a'', cn_text = ''hi'', cn_created_at = 0\<rparr>]"
proof -
  have "\<forall>r\<in>set (g_log demo_engine). row_ok r"
    by code_simp
  moreover have "current_notes (\<lambda>_. None) (g_log demo_engine) = Inr [\<lparr>cn_event_id = ''a'', cn_text = ''hi'', cn_created_at = 0\<rparr>]"
    by code_simp
  moreover have "retire_memory demo_settings (''r'', ''t'') ''a'' None demo_engine = (demo_retired, Inr ''r'')"
  proof -
    have "snd (retire_memory demo_settings (''r'', ''t'') ''a'' None demo_engine) = Inr ''r''" by code_simp
    then show ?thesis by (simp add: demo_retired_def prod_eq_iff)
  qed
  moreover have "unretire demo_settings (''n'', ''t'') ''a'' demo_retired = (demo_unretired, Inr ''n'')"
  proof -
    have "snd (unretire demo_settings (''n'', ''t'') ''a'' demo_retired) = Inr ''n''" by code_simp
    then show ?thesis by (simp add: demo_unretired_def prod_eq_iff)
  qed
  ultimately show ?thesis by (rule retire_unretire_roundtrip [THEN conjunct2])
qed

end
