(* ===== verification/Proposals.thy ===== *)
theory Proposals
  imports Undo
begin

text \<open>
  The proposal queue of \<open>log.rs\<close>: appending, declining and rejecting write proposals, the open-queue
  projection, the two suppression rules that keep the proposers from asking twice, and the side
  tables of proposed bytes and cached syntheses.
\<close>

abbreviation "M6B_PROPOSER_PRODUCER \<equiv> ''m6b-reconciler''"
abbreviation "M6C_PROPOSER_PRODUCER \<equiv> ''m6c-mandate-proposer''"

section \<open>Writing proposal events\<close>

definition build_proposer_event :: "string \<Rightarrow> string \<Rightarrow> json \<Rightarrow> string list \<Rightarrow> event" where
  "build_proposer_event producer t content sources =
     draft_event t content (Some \<lparr>model_id = producer, prompt_hash = [], source_event_ids = sources\<rparr>)"

definition append_write_proposal_with :: "settings \<Rightarrow> stamp \<Rightarrow> string \<Rightarrow> string \<Rightarrow> string \<Rightarrow> nat \<Rightarrow> string
    \<Rightarrow> json \<Rightarrow> json \<Rightarrow> string list \<Rightarrow> string \<Rightarrow> engine \<Rightarrow> string outcome" where
  "append_write_proposal_with k st target op new_content_hash byte_size rationale inducing_key
       verdict_summary sources producer g =
     append_to k st (build_proposer_event producer WRITE_PROPOSAL_T
       (jobj [(''target'', JStr target), (''op'', JStr op), (''new_content_hash'', JStr new_content_hash),
              (''byte_size'', JNum (int byte_size)), (''rationale'', JStr rationale),
              (''inducing_key'', inducing_key), (''verdict_summary'', verdict_summary)]) sources) g"

definition append_write_rejected_with :: "settings \<Rightarrow> stamp \<Rightarrow> string option \<Rightarrow> string \<Rightarrow> json
    \<Rightarrow> string list \<Rightarrow> string \<Rightarrow> engine \<Rightarrow> string outcome" where
  "append_write_rejected_with k st target reason inducing_key sources producer g =
     append_to k st (build_proposer_event producer WRITE_REJECTED_T
       (jobj [(''target'', case target of None \<Rightarrow> JNull | Some t \<Rightarrow> JStr t), (''reason'', JStr reason),
              (''inducing_key'', inducing_key)]) sources) g"

text \<open>\<open>source_ids_of_event\<close>: the lineage of an event, if it exists and has one.\<close>

definition source_ids_of_event :: "log \<Rightarrow> string \<Rightarrow> (boss_error, string list option) result" where
  "source_ids_of_event log i =
     rbind (event_by_id log i) (\<lambda>found.
       Inr (Option.bind found (\<lambda>ev. map_option source_event_ids (ev_meta ev))))"

definition decline_write_proposal_with :: "settings \<Rightarrow> stamp \<Rightarrow> string \<Rightarrow> string \<Rightarrow> string \<Rightarrow> engine
    \<Rightarrow> string outcome" where
  "decline_write_proposal_with k st proposal_id reason producer g =
     (case source_ids_of_event (g_log g) proposal_id of Inl e \<Rightarrow> (g, Inl e)
      | Inr found \<Rightarrow>
        let sources = (case found of None \<Rightarrow> [] | Some s \<Rightarrow> s) in
        if sources = [] then (g, Inl (InvalidInput ''unknown or non-Tier-B proposal id''))
        else append_to k st (build_proposer_event producer WRITE_DECLINED_T
          (jobj [(''resolves_proposal'', JStr proposal_id), (''reason'', JStr reason)]) sources) g)"

section \<open>Suppression\<close>

definition proposal_events :: "log \<Rightarrow> (boss_error, event list) result" where
  "proposal_events log =
     events_of_types [WRITE_PROPOSAL_T, WRITE_REJECTED_T, WRITE_DECLINED_T, FILE_WRITTEN_T] log"

definition about :: "string \<Rightarrow> json \<Rightarrow> event \<Rightarrow> bool" where
  "about path key ev \<longleftrightarrow> get_str (ev_content ev) ''target'' = Some path
     \<and> json_get (ev_content ev) ''inducing_key'' = Some key"

definition resolves :: "event \<Rightarrow> string option" where
  "resolves ev = get_str (ev_content ev) ''resolves_proposal''"

definition add_resolved :: "event \<Rightarrow> string set \<Rightarrow> string set" where
  "add_resolved ev s = (case resolves ev of None \<Rightarrow> s | Some i \<Rightarrow> insert i s)"

fun suppressed_loop :: "string \<Rightarrow> json \<Rightarrow> string set \<Rightarrow> string set \<Rightarrow> event list \<Rightarrow> bool" where
  "suppressed_loop path key open_ids resolved [] = (\<exists>i\<in>open_ids. i \<notin> resolved)"
| "suppressed_loop path key open_ids resolved (ev # evs) =
     (if ev_type ev = WRITE_PROPOSAL_T
      then suppressed_loop path key (if about path key ev then insert (ev_id ev) open_ids else open_ids) resolved evs
      else if ev_type ev = WRITE_REJECTED_T
      then (if about path key ev then True else suppressed_loop path key open_ids resolved evs)
      else suppressed_loop path key open_ids (add_resolved ev resolved) evs)"

definition is_proposal_suppressed :: "log \<Rightarrow> string \<Rightarrow> json \<Rightarrow> (boss_error, bool) result" where
  "is_proposal_suppressed log path key =
     rbind (proposal_events log) (\<lambda>evs. Inr (suppressed_loop path key {} {} evs))"

fun mandate_suppressed_loop ::
    "string \<Rightarrow> json \<Rightarrow> string set \<Rightarrow> string set \<Rightarrow> string set \<Rightarrow> event list \<Rightarrow> bool" where
  "mandate_suppressed_loop path key matching declined resolved [] =
     (\<exists>i\<in>matching. i \<notin> resolved \<or> i \<in> declined)"
| "mandate_suppressed_loop path key matching declined resolved (ev # evs) =
     (if ev_type ev = WRITE_PROPOSAL_T
      then mandate_suppressed_loop path key (if about path key ev then insert (ev_id ev) matching else matching)
        declined resolved evs
      else if ev_type ev = WRITE_REJECTED_T
      then (if about path key ev then True else mandate_suppressed_loop path key matching declined resolved evs)
      else if ev_type ev = WRITE_DECLINED_T
      then mandate_suppressed_loop path key matching (add_resolved ev declined) (add_resolved ev resolved) evs
      else mandate_suppressed_loop path key matching declined (add_resolved ev resolved) evs)"

definition is_mandate_proposal_suppressed :: "log \<Rightarrow> string \<Rightarrow> json \<Rightarrow> (boss_error, bool) result" where
  "is_mandate_proposal_suppressed log path key =
     rbind (proposal_events log) (\<lambda>evs. Inr (mandate_suppressed_loop path key {} {} {} evs))"

section \<open>The open queue\<close>

record pending_proposal =
  pp_id :: string
  pp_target :: string
  pp_op :: string
  pp_new_content_hash :: string
  pp_rationale :: string
  pp_inducing_key :: json
  pp_source_event_ids :: "string list"
  pp_producer :: string
  pp_verdict_summary :: json
  pp_base_content_hash :: "string option"

definition str_or_empty :: "json \<Rightarrow> string \<Rightarrow> string" where
  "str_or_empty c f = (case get_str c f of None \<Rightarrow> [] | Some s \<Rightarrow> s)"

definition field_or_null :: "json \<Rightarrow> string \<Rightarrow> json" where
  "field_or_null c f = (case json_get c f of None \<Rightarrow> JNull | Some v \<Rightarrow> v)"

definition pending_of :: "event \<Rightarrow> pending_proposal" where
  "pending_of ev =
     (let c = ev_content ev; vs = field_or_null c ''verdict_summary'' in
      \<lparr>pp_id = ev_id ev, pp_target = str_or_empty c ''target'', pp_op = str_or_empty c ''op'',
       pp_new_content_hash = str_or_empty c ''new_content_hash'',
       pp_rationale = str_or_empty c ''rationale'',
       pp_inducing_key = field_or_null c ''inducing_key'',
       pp_source_event_ids = (case ev_meta ev of None \<Rightarrow> [] | Some m \<Rightarrow> source_event_ids m),
       pp_producer = (case ev_meta ev of None \<Rightarrow> [] | Some m \<Rightarrow> model_id m),
       pp_verdict_summary = vs, pp_base_content_hash = get_str vs ''base_content_hash''\<rparr>)"

text \<open>The code keys the rejections by the key's text; two JSON values have the same text exactly when they
  are equal.\<close>

record queue_scan =
  qs_open :: "pending_proposal list"
  qs_resolved :: "string set"
  qs_rejected :: "(string \<times> json) set"
  qs_keys :: "string \<Rightarrow> (string \<times> json) option"

definition queue_step :: "event \<Rightarrow> queue_scan \<Rightarrow> queue_scan" where
  "queue_step ev q =
     (if ev_type ev = WRITE_PROPOSAL_T
      then let p = pending_of ev in
        q\<lparr>qs_open := qs_open q @ [p],
          qs_keys := (qs_keys q)(ev_id ev \<mapsto> (pp_target p, pp_inducing_key p))\<rparr>
      else if ev_type ev = WRITE_REJECTED_T
      then q\<lparr>qs_rejected := insert (str_or_empty (ev_content ev) ''target'',
               field_or_null (ev_content ev) ''inducing_key'') (qs_rejected q)\<rparr>
      else q\<lparr>qs_resolved := add_resolved ev (qs_resolved q)\<rparr>)"

definition pending_proposals :: "log \<Rightarrow> (boss_error, pending_proposal list) result" where
  "pending_proposals log = rbind (proposal_events log) (\<lambda>evs.
     let q = fold queue_step evs \<lparr>qs_open = [], qs_resolved = {}, qs_rejected = {}, qs_keys = (\<lambda>_. None)\<rparr>
     in Inr (filter (\<lambda>p. pp_id p \<notin> qs_resolved q
       \<and> (case qs_keys q (pp_id p) of Some kk \<Rightarrow> kk \<notin> qs_rejected q | None \<Rightarrow> True)) (qs_open q)))"

definition requires_loud_modal :: "pending_proposal \<Rightarrow> bool" where
  "requires_loud_modal p =
     (case Option.bind (json_get (pp_verdict_summary p) ''requires_loud_modal'') as_bool of
        None \<Rightarrow> True | Some b \<Rightarrow> b)"

section \<open>Side tables\<close>

definition put_proposal_bytes :: "string \<Rightarrow> bytes \<Rightarrow> string \<Rightarrow> engine \<Rightarrow> engine" where
  "put_proposal_bytes proposal_id content content_hash g =
     g\<lparr>g_bytes := filter (\<lambda>b. pb_proposal b \<noteq> proposal_id) (g_bytes g) @
       [\<lparr>pb_proposal = proposal_id, pb_content = content, pb_hash = content_hash\<rparr>]\<rparr>"

definition get_proposal_bytes_checked :: "settings \<Rightarrow> string \<Rightarrow> string \<Rightarrow> engine \<Rightarrow> (boss_error, bytes) result" where
  "get_proposal_bytes_checked k proposal_id expected_hash g =
     (case List.find (\<lambda>b. pb_proposal b = proposal_id) (g_bytes g) of
        None \<Rightarrow> Inl (InvalidInput ''proposal_bytes fail-closed: no cached bytes for this proposal id (unknown or GC'd)'')
      | Some b \<Rightarrow>
        if sha_hex k (pb_content b) \<noteq> pb_hash b
        then Inl (InvalidInput ''proposal_bytes fail-closed: cached bytes no longer match their stored content_hash (row tampered)'')
        else if sha_hex k (pb_content b) \<noteq> expected_hash
        then Inl (InvalidInput ''proposal_bytes fail-closed: cached bytes do not match the signed proposal's recorded hash'')
        else Inr (pb_content b))"

text \<open>The row of a mandate and source state replaces its predecessor; rows of other source states of the
  mandate are dropped.\<close>

definition put_synthesis_cache :: "string \<Rightarrow> string \<Rightarrow> bytes \<Rightarrow> string \<Rightarrow> string list \<Rightarrow> engine \<Rightarrow> engine" where
  "put_synthesis_cache mandate_id sources_hash b expected_hash lineage g =
     g\<lparr>g_synth := filter (\<lambda>y. \<not> (sy_mandate y = mandate_id \<and> sy_sources_hash y \<noteq> sources_hash))
       (filter (\<lambda>y. \<not> (sy_mandate y = mandate_id \<and> sy_sources_hash y = sources_hash)) (g_synth g) @
        [\<lparr>sy_mandate = mandate_id, sy_sources_hash = sources_hash, sy_expected_hash = expected_hash,
          sy_bytes = b, sy_lineage = Some lineage\<rparr>])\<rparr>"

definition get_synthesis_cache :: "string \<Rightarrow> string \<Rightarrow> engine
    \<Rightarrow> (boss_error, (bytes \<times> string \<times> string list) option) result" where
  "get_synthesis_cache mandate_id sources_hash g =
     (case List.find (\<lambda>y. sy_mandate y = mandate_id \<and> sy_sources_hash y = sources_hash) (g_synth g) of
        None \<Rightarrow> Inr None
      | Some y \<Rightarrow> (case sy_lineage y of None \<Rightarrow> Inl SerdeErr
          | Some l \<Rightarrow> Inr (Some (sy_bytes y, sy_expected_hash y, l))))"

section \<open>What suppression means\<close>

definition is_resolution :: "event \<Rightarrow> bool" where
  "is_resolution ev \<longleftrightarrow> ev_type ev \<noteq> WRITE_PROPOSAL_T \<and> ev_type ev \<noteq> WRITE_REJECTED_T"

lemma add_resolved_iff: "i \<in> add_resolved ev s \<longleftrightarrow> resolves ev = Some i \<or> i \<in> s"
  by (auto simp: add_resolved_def split: option.split)

lemma suppressed_loop_iff:
  "suppressed_loop path key open_ids resolved evs \<longleftrightarrow>
     (\<exists>ev\<in>set evs. ev_type ev = WRITE_REJECTED_T \<and> about path key ev)
     \<or> (\<exists>i. (i \<in> open_ids \<or> (\<exists>ev\<in>set evs. ev_type ev = WRITE_PROPOSAL_T \<and> about path key ev \<and> ev_id ev = i))
          \<and> i \<notin> resolved \<and> \<not> (\<exists>ev\<in>set evs. is_resolution ev \<and> resolves ev = Some i))"
proof (induction evs arbitrary: open_ids resolved)
  case Nil
  then show ?case by auto
next
  case (Cons ev evs)
  consider "ev_type ev = WRITE_PROPOSAL_T" | "ev_type ev = WRITE_REJECTED_T" | "is_resolution ev"
    by (auto simp: is_resolution_def)
  then show ?case
  proof cases
    case 1
    then have "\<not> is_resolution ev" by (simp add: is_resolution_def)
    then show ?thesis using 1 by (auto simp: Cons.IH)
  next
    case 2
    then have "\<not> is_resolution ev" by (simp add: is_resolution_def)
    then show ?thesis using 2 by (auto simp: Cons.IH)
  next
    case 3
    then have "ev_type ev \<noteq> WRITE_PROPOSAL_T" "ev_type ev \<noteq> WRITE_REJECTED_T"
      by (simp_all add: is_resolution_def)
    then show ?thesis using 3 by (auto simp: Cons.IH add_resolved_iff)
  qed
qed

lemma mandate_suppressed_loop_iff:
  "mandate_suppressed_loop path key matching declined resolved evs \<longleftrightarrow>
     (\<exists>ev\<in>set evs. ev_type ev = WRITE_REJECTED_T \<and> about path key ev)
     \<or> (\<exists>i. (i \<in> matching \<or> (\<exists>ev\<in>set evs. ev_type ev = WRITE_PROPOSAL_T \<and> about path key ev \<and> ev_id ev = i))
          \<and> ((i \<notin> resolved \<and> \<not> (\<exists>ev\<in>set evs. is_resolution ev \<and> resolves ev = Some i))
             \<or> i \<in> declined \<or> (\<exists>ev\<in>set evs. ev_type ev = WRITE_DECLINED_T \<and> resolves ev = Some i)))"
proof (induction evs arbitrary: matching declined resolved)
  case Nil
  then show ?case by auto
next
  case (Cons ev evs)
  consider "ev_type ev = WRITE_PROPOSAL_T" | "ev_type ev = WRITE_REJECTED_T" | "ev_type ev = WRITE_DECLINED_T"
    | "is_resolution ev" "ev_type ev \<noteq> WRITE_DECLINED_T"
    by (auto simp: is_resolution_def)
  then show ?case
  proof cases
    case 1
    then have "\<not> is_resolution ev" by (simp add: is_resolution_def)
    then show ?thesis using 1 by (auto simp: Cons.IH)
  next
    case 2
    then have "\<not> is_resolution ev" by (simp add: is_resolution_def)
    then show ?thesis using 2 by (auto simp: Cons.IH)
  next
    case 3
    then have "is_resolution ev" by (simp add: is_resolution_def)
    then show ?thesis using 3 by (auto simp: Cons.IH add_resolved_iff)
  next
    case 4
    then have "ev_type ev \<noteq> WRITE_PROPOSAL_T" "ev_type ev \<noteq> WRITE_REJECTED_T"
      by (simp_all add: is_resolution_def)
    then show ?thesis using 4 by (auto simp: Cons.IH add_resolved_iff)
  qed
qed

lemma pending_of_id [simp]: "pp_id (pending_of ev) = ev_id ev"
  by (simp add: pending_of_def Let_def)

lemma pending_of_key:
  "pp_target (pending_of ev) = str_or_empty (ev_content ev) ''target''"
  "pp_inducing_key (pending_of ev) = field_or_null (ev_content ev) ''inducing_key''"
  by (simp_all add: pending_of_def Let_def)

definition key_of :: "event \<Rightarrow> string \<times> json" where
  "key_of ev = (str_or_empty (ev_content ev) ''target'', field_or_null (ev_content ev) ''inducing_key'')"

lemma queue_open [fold_simps]:
  "qs_open (fold queue_step evs q) = qs_open q @ map pending_of (filter (\<lambda>ev. ev_type ev = WRITE_PROPOSAL_T) evs)"
  by (induction evs rule: rev_induct) (simp_all add: queue_step_def Let_def)

lemma queue_resolved [fold_simps]:
  "i \<in> qs_resolved (fold queue_step evs q) \<longleftrightarrow>
     i \<in> qs_resolved q \<or> (\<exists>ev\<in>set evs. is_resolution ev \<and> resolves ev = Some i)"
  by (induction evs rule: rev_induct) (auto simp: queue_step_def Let_def is_resolution_def add_resolved_iff)

lemma queue_rejected [fold_simps]:
  "kk \<in> qs_rejected (fold queue_step evs q) \<longleftrightarrow>
     kk \<in> qs_rejected q \<or> (\<exists>ev\<in>set evs. ev_type ev = WRITE_REJECTED_T \<and> key_of ev = kk)"
  by (induction evs rule: rev_induct) (auto simp: queue_step_def Let_def key_of_def)

lemma queue_keys [fold_simps]:
  "qs_keys (fold queue_step evs q) i =
     (case find_last (\<lambda>ev. ev_type ev = WRITE_PROPOSAL_T \<and> ev_id ev = i) evs of
        None \<Rightarrow> qs_keys q i | Some ev \<Rightarrow> Some (key_of ev))"
  by (induction evs rule: rev_induct) (simp_all add: queue_step_def Let_def key_of_def pending_of_key)

lemma queue_key_distinct:
  assumes "distinct (map ev_id evs)" "ev \<in> set evs" "ev_type ev = WRITE_PROPOSAL_T"
  shows "find_last (\<lambda>e. ev_type e = WRITE_PROPOSAL_T \<and> ev_id e = ev_id ev) evs = Some ev"
proof (cases "find_last (\<lambda>e. ev_type e = WRITE_PROPOSAL_T \<and> ev_id e = ev_id ev) evs")
  case None
  then show ?thesis using assms(2,3) by (auto simp: find_last_None)
next
  case (Some ev')
  then have "ev' \<in> set evs" "ev_id ev' = ev_id ev" by (auto dest: find_last_Some)
  then show ?thesis using Some assms(1,2) by (auto simp: distinct_map dest: inj_onD)
qed

text \<open>The open queue is exactly the write proposals that no decline and no applied write resolves and
  whose target and inducing key were never terminally rejected.\<close>

lemma pending_iff:
  assumes "proposal_events log = Inr evs" and "distinct (map ev_id evs)"
  shows "\<exists>ps. pending_proposals log = Inr ps \<and> (\<forall>p. p \<in> set ps \<longleftrightarrow>
     (\<exists>ev\<in>set evs. p = pending_of ev \<and> ev_type ev = WRITE_PROPOSAL_T
        \<and> \<not> (\<exists>r\<in>set evs. is_resolution r \<and> resolves r = Some (ev_id ev))
        \<and> \<not> (\<exists>r\<in>set evs. ev_type r = WRITE_REJECTED_T \<and> key_of r = key_of ev)))"
proof -
  have key: "find_last (\<lambda>e. ev_type e = WRITE_PROPOSAL_T \<and> ev_id e = ev_id ev) evs = Some ev"
    if "ev \<in> set evs" "ev_type ev = WRITE_PROPOSAL_T" for ev
    using queue_key_distinct assms(2) that by blast
  let ?q = "fold queue_step evs \<lparr>qs_open = [], qs_resolved = {}, qs_rejected = {}, qs_keys = (\<lambda>_. None)\<rparr>"
  let ?ok = "\<lambda>p. pp_id p \<notin> qs_resolved ?q
       \<and> (case qs_keys ?q (pp_id p) of Some kk \<Rightarrow> kk \<notin> qs_rejected ?q | None \<Rightarrow> True)"
  let ?open = "\<lambda>ev. \<not> (\<exists>r\<in>set evs. is_resolution r \<and> resolves r = Some (ev_id ev))
        \<and> \<not> (\<exists>r\<in>set evs. ev_type r = WRITE_REJECTED_T \<and> key_of r = key_of ev)"
  have ok: "?ok (pending_of ev) \<longleftrightarrow> \<not> (\<exists>r\<in>set evs. is_resolution r \<and> resolves r = Some (ev_id ev))
        \<and> \<not> (\<exists>r\<in>set evs. ev_type r = WRITE_REJECTED_T \<and> key_of r = key_of ev)"
    if "ev \<in> set evs" "ev_type ev = WRITE_PROPOSAL_T" for ev
    unfolding pending_of_id queue_keys key [OF that] queue_resolved queue_rejected by simp
  have "pending_proposals log = Inr (filter ?ok (qs_open ?q))"
    by (simp add: pending_proposals_def assms(1) Let_def)
  moreover have "p \<in> set (filter ?ok (qs_open ?q)) \<longleftrightarrow>
     (\<exists>ev\<in>set evs. p = pending_of ev \<and> ev_type ev = WRITE_PROPOSAL_T \<and> ?open ev)" for p
  proof -
    have "p \<in> set (filter ?ok (qs_open ?q)) \<longleftrightarrow>
        (\<exists>ev\<in>set evs. p = pending_of ev \<and> ev_type ev = WRITE_PROPOSAL_T \<and> ?ok (pending_of ev))"
      unfolding queue_open by auto
    then show ?thesis using ok by blast
  qed
  ultimately show ?thesis by blast
qed

text \<open>What is on the queue is never asked again: the target and inducing key of every open proposal
  that names both are suppressed, for the reconciler and for the mandate sweep.\<close>

lemma pending_is_suppressed:
  assumes "pending_proposals log = Inr ps" and "p \<in> set ps"
    and "proposal_events log = Inr evs" and "ev \<in> set evs" and "ev_type ev = WRITE_PROPOSAL_T"
    and "pp_id p = ev_id ev" and "about path key ev"
  shows "is_proposal_suppressed log path key = Inr True
    \<and> is_mandate_proposal_suppressed log path key = Inr True"
proof -
  have "\<not> (\<exists>r\<in>set evs. is_resolution r \<and> resolves r = Some (ev_id ev))"
    using assms(1-3,6) by (auto simp: pending_proposals_def Let_def fold_simps)
  then show ?thesis
    using assms(3-5,7)
    by (auto simp: is_proposal_suppressed_def is_mandate_proposal_suppressed_def suppressed_loop_iff
        mandate_suppressed_loop_iff)
qed

text \<open>A decline silences a mandate's proposal for good and an applied write does not: with no terminal
  rejection, the mandate sweep may ask about a target and key again exactly when every earlier
  proposal about them was applied and none of them was declined.\<close>

lemma mandate_reasks_iff_applied:
  assumes "proposal_events log = Inr evs"
    and "\<not> (\<exists>ev\<in>set evs. ev_type ev = WRITE_REJECTED_T \<and> about path key ev)"
  shows "is_mandate_proposal_suppressed log path key = Inr False \<longleftrightarrow>
    \<not> (\<exists>ev\<in>set evs. ev_type ev = WRITE_PROPOSAL_T \<and> about path key ev
       \<and> (\<not> (\<exists>r\<in>set evs. is_resolution r \<and> resolves r = Some (ev_id ev))
          \<or> (\<exists>r\<in>set evs. ev_type r = WRITE_DECLINED_T \<and> resolves r = Some (ev_id ev))))"
  using assms by (auto simp: is_mandate_proposal_suppressed_def mandate_suppressed_loop_iff)

section \<open>Resolving takes a proposal off the queue\<close>

text \<open>Applying a proposal takes it off the queue: after a successful \<open>execute_write_resolving\<close> the
  proposal it names is no longer open.\<close>

lemma applied_proposal_leaves_queue:
  assumes "execute_write_resolving k e gp pid ack g = (g', Inr i)"
    and "pending_proposals (g_log g') = Inr ps"
  shows "pid \<notin> pp_id ` set ps"
proof -
  obtain pl g1 ev log where x: "capture_unless_undo k e gp pl None g = Inr g1"
    "written_event k gp pl None (Some pid) = Inr ev"
    "append (k_crypto k) (k_key k) (env_stamp e) ev (g_log g1) = Inr (i, log)" "g_log g' = log"
    using assms(1) unfolding execute_write_resolving_def by (rule execute_InrE) simp
  obtain r ev' where r: "log = g_log g1 @ [r]" "r_type r = ev_type ev" "r_payload r = Some ev'"
    "ev_type ev' = ev_type ev" "ev_content ev' = ev_content (stamp_origin (g_log g1) ev)"
    using x(3) by (rule append_row)
  have ty: "ev_type ev = FILE_WRITTEN_T" using written_event_meta [OF x(2)] by simp
  have "resolves ev' = Some pid"
    using x(2) by (auto simp: resolves_def r(5) get_str_stamp written_event_def rbind_eq_Inr opt_field_def
        split: option.splits)
  moreover have "is_resolution ev'" by (simp add: is_resolution_def r(4) ty)
  moreover obtain evs where "proposal_events (g_log g') = Inr (evs @ [ev'])"
  proof -
    obtain all where all: "proposal_events (g_log g') = Inr all"
      using assms(2) by (auto simp: pending_proposals_def rbind_eq_Inr)
    then show ?thesis
      using that by (auto simp: proposal_events_def x(4) r(1) events_of_types_snoc r(2,3) ty rbind_eq_Inr)
  qed
  ultimately show ?thesis
    using assms(2) by (auto simp: pending_proposals_def Let_def fold_simps)
qed

section \<open>Witnesses\<close>

definition demo_queue :: engine where
  "demo_queue = fst (append_write_proposal_with demo_settings (''p'', ''t2'') ''/d/f'' ''edit'' ''h'' 3 ''why''
     (JStr ''key'') JNull [''a''] M6B_PROPOSER_PRODUCER demo_engine)"

definition demo_queue_events :: "event list" where
  "demo_queue_events = projr (proposal_events (g_log demo_queue))"

lemma demo_queue_events: "proposal_events (g_log demo_queue) = Inr demo_queue_events"
proof -
  have "is_ok (proposal_events (g_log demo_queue))" by code_simp
  then show ?thesis by (auto simp: demo_queue_events_def is_ok_iff)
qed

lemma demo_pending: "pending_proposals (g_log demo_queue) = Inr [pending_of (hd demo_queue_events)]"
  by code_simp

lemma pending_iff_witness:
  "\<exists>ps. pending_proposals (g_log demo_queue) = Inr ps \<and> ps \<noteq> [] \<and> (\<forall>p. p \<in> set ps \<longleftrightarrow>
     (\<exists>ev\<in>set demo_queue_events. p = pending_of ev \<and> ev_type ev = WRITE_PROPOSAL_T
        \<and> \<not> (\<exists>r\<in>set demo_queue_events. is_resolution r \<and> resolves r = Some (ev_id ev))
        \<and> \<not> (\<exists>r\<in>set demo_queue_events. ev_type r = WRITE_REJECTED_T \<and> key_of r = key_of ev)))"
proof -
  have "distinct (map ev_id demo_queue_events)" by code_simp
  from pending_iff [OF demo_queue_events this] show ?thesis
    using demo_pending by auto
qed

lemma pending_is_suppressed_witness:
  "is_proposal_suppressed (g_log demo_queue) ''/d/f'' (JStr ''key'') = Inr True
    \<and> is_mandate_proposal_suppressed (g_log demo_queue) ''/d/f'' (JStr ''key'') = Inr True"
proof (rule pending_is_suppressed [OF demo_pending _ demo_queue_events, where ev = "hd demo_queue_events"
      and p = "pending_of (hd demo_queue_events)"])
  show "pp_id (pending_of (hd demo_queue_events)) = ev_id (hd demo_queue_events)"
    by (rule pending_of_id)
  show "hd demo_queue_events \<in> set demo_queue_events" by code_simp
  show "ev_type (hd demo_queue_events) = WRITE_PROPOSAL_T" by code_simp
  show "about ''/d/f'' (JStr ''key'') (hd demo_queue_events)" by code_simp
qed simp_all

lemma mandate_reasks_iff_applied_witness:
  "is_mandate_proposal_suppressed (g_log demo_queue) ''/d/f'' (JStr ''key'') = Inr False \<longleftrightarrow>
    \<not> (\<exists>ev\<in>set demo_queue_events. ev_type ev = WRITE_PROPOSAL_T \<and> about ''/d/f'' (JStr ''key'') ev
       \<and> (\<not> (\<exists>r\<in>set demo_queue_events. is_resolution r \<and> resolves r = Some (ev_id ev))
          \<or> (\<exists>r\<in>set demo_queue_events. ev_type r = WRITE_DECLINED_T \<and> resolves r = Some (ev_id ev))))"
  by (rule mandate_reasks_iff_applied [OF demo_queue_events]) code_simp

definition demo_applied :: engine where
  "demo_applied = fst (execute_write_resolving demo_settings (demo_env ''w1'' 7 []) demo_gated ''p'' False demo_queue)"

lemma demo_apply:
  "execute_write_resolving demo_settings (demo_env ''w1'' 7 []) demo_gated ''p'' False demo_queue = (demo_applied, Inr ''w1'')"
proof -
  have "snd (execute_write_resolving demo_settings (demo_env ''w1'' 7 []) demo_gated ''p'' False demo_queue) = Inr ''w1''"
    by code_simp
  then show ?thesis by (simp add: demo_applied_def prod_eq_iff)
qed

lemma applied_proposal_leaves_queue_witness:
  "pending_proposals (g_log demo_applied) = Inr [] \<and> ''p'' \<notin> pp_id ` set ([] :: pending_proposal list)"
proof
  show empty: "pending_proposals (g_log demo_applied) = Inr []" by code_simp
  show "''p'' \<notin> pp_id ` set ([] :: pending_proposal list)"
    by (rule applied_proposal_leaves_queue [OF demo_apply empty])
qed

end
