(* ===== verification/Conflicts.thy ===== *)
theory Conflicts
  imports Sessions Proposals
begin

text \<open>
  Conflict proposals of \<open>log.rs\<close> and the typed references of \<open>index.rs\<close>: pair identity, the open
  queue that withdraws a proposal when a side is gone, and \<open>resolve_conflict\<close> with its terminal
  markers.
\<close>

section \<open>References\<close>

datatype conflict_ref = Note string | Passage string nat

function show_nat :: "nat \<Rightarrow> string" where
  "show_nat n = (if n < 10 then [char_of (48 + n)] else show_nat (n div 10) @ [char_of (48 + n mod 10)])"
  by pat_completeness auto
termination by (relation "measure id") auto

declare show_nat.simps [simp del]

abbreviation "US \<equiv> CHR 0x1F"
abbreviation "RS \<equiv> CHR 0x1E"

fun pair_key :: "conflict_ref \<Rightarrow> string" where
  "pair_key (Note i) = ''N'' @ [US] @ i"
| "pair_key (Passage s p) = ''P'' @ [US] @ s @ [US] @ show_nat p"

definition unordered_pair_key :: "conflict_ref \<Rightarrow> conflict_ref \<Rightarrow> string" where
  "unordered_pair_key a b =
     (let ka = pair_key a; kb = pair_key b in if ka \<le> kb then ka @ [RS] @ kb else kb @ [RS] @ ka)"

fun ref_to_json :: "conflict_ref \<Rightarrow> json" where
  "ref_to_json (Note i) = jobj [(''kind'', JStr ''note''), (''event_id'', JStr i)]"
| "ref_to_json (Passage s p) = jobj [(''kind'', JStr ''passage''), (''session_id'', JStr s), (''passage_id'', JNum (int p))]"

definition ref_from_json :: "json \<Rightarrow> conflict_ref option" where
  "ref_from_json v = Option.bind (get_str v ''kind'') (\<lambda>kind.
     if kind = ''note'' then map_option Note (get_str v ''event_id'')
     else if kind = ''passage''
     then Option.bind (get_str v ''session_id'') (\<lambda>s.
       map_option (\<lambda>n. Passage s (nat n)) (get_u64 v ''passage_id''))
     else None)"

lemma ref_json_roundtrip:
  "(case r of Note _ \<Rightarrow> True | Passage _ p \<Rightarrow> in_u64 (int p)) \<Longrightarrow> ref_from_json (ref_to_json r) = Some r"
  by (cases r) (simp_all add: ref_from_json_def)

section \<open>Pair identity\<close>

definition digit_val :: "char \<Rightarrow> nat" where
  "digit_val c = of_char c - 48"

lemma digit_val_char: "d < 10 \<Longrightarrow> digit_val (char_of (48 + d)) = d"
  by (simp add: digit_val_def)

lemma show_nat_value: "foldl (\<lambda>v c. 10 * v + digit_val c) 0 (show_nat n) = n"
proof (induction n rule: show_nat.induct)
  case (1 n)
  then show ?case
    by (subst show_nat.simps) (auto simp: digit_val_char)
qed

lemma show_nat_inj: "show_nat m = show_nat n \<longleftrightarrow> m = n"
  using show_nat_value by metis

lemma show_nat_digits: "c \<in> set (show_nat n) \<Longrightarrow> 48 \<le> (of_char c :: nat)"
proof (induction n rule: show_nat.induct)
  case (1 n)
  then show ?case
    by (subst (asm) show_nat.simps) (auto split: if_splits)
qed

lemma show_nat_no_sep: "US \<notin> set (show_nat n)" "RS \<notin> set (show_nat n)"
  using show_nat_digits by fastforce+

lemma sep_unique:
  "c \<notin> set xs \<Longrightarrow> c \<notin> set xs' \<Longrightarrow> xs @ c # ys = xs' @ c # ys' \<longleftrightarrow> xs = xs' \<and> ys = ys'"
proof (induction xs arbitrary: xs')
  case Nil
  then show ?case by (cases xs') auto
next
  case (Cons x xs)
  then show ?case by (cases xs') auto
qed

definition ref_plain :: "conflict_ref \<Rightarrow> bool" where
  "ref_plain r = (case r of Note i \<Rightarrow> US \<notin> set i \<and> RS \<notin> set i | Passage s p \<Rightarrow> US \<notin> set s \<and> RS \<notin> set s)"

lemma pair_key_inj: "ref_plain a \<Longrightarrow> ref_plain b \<Longrightarrow> pair_key a = pair_key b \<longleftrightarrow> a = b"
  by (cases a; cases b) (auto simp: ref_plain_def sep_unique show_nat_inj)

lemma pair_key_no_RS: "ref_plain a \<Longrightarrow> RS \<notin> set (pair_key a)"
  by (cases a) (auto simp: ref_plain_def show_nat_no_sep)

text \<open>The pair key identifies the unordered pair: for references whose ids hold neither separator, two
  pairs have the same key exactly when they are the same pair in either order.\<close>

lemma unordered_pair_key_iff:
  assumes "ref_plain a" "ref_plain b" "ref_plain c" "ref_plain d"
  shows "unordered_pair_key a b = unordered_pair_key c d \<longleftrightarrow> a = c \<and> b = d \<or> a = d \<and> b = c"
proof -
  have eq: "x @ [RS] @ y = u @ [RS] @ v \<longleftrightarrow> x = u \<and> y = v"
    if "RS \<notin> set x" "RS \<notin> set u" for x y u v :: string
    using sep_unique [OF that, of y v] by simp
  show ?thesis
    using assms pair_key_no_RS pair_key_inj unfolding unordered_pair_key_def Let_def
    by (smt (verit) eq antisym linear)
qed

section \<open>The queue\<close>

abbreviation "CONFLICT_PROPOSER_PRODUCER \<equiv> ''rung3-conflict-detector''"

record open_conflict =
  oc_id :: string
  oc_a :: conflict_ref
  oc_b :: conflict_ref
  oc_winner_hint :: string
  oc_confidence_band :: string
  oc_why :: string
  oc_detected_at :: int

definition append_conflict_proposal :: "settings \<Rightarrow> stamp \<Rightarrow> conflict_ref \<Rightarrow> conflict_ref \<Rightarrow> string \<Rightarrow> string
    \<Rightarrow> string \<Rightarrow> int \<Rightarrow> string list \<Rightarrow> engine \<Rightarrow> string outcome" where
  "append_conflict_proposal k st a b winner_hint confidence_band why detected_at sources g =
     append_to k st (build_proposer_event CONFLICT_PROPOSER_PRODUCER CONFLICT_PROPOSAL_T
       (jobj [(''a_ref'', ref_to_json a), (''b_ref'', ref_to_json b), (''winner_hint'', JStr winner_hint),
              (''confidence_band'', JStr confidence_band), (''why'', JStr why),
              (''detected_at'', JNum detected_at)]) sources) g"

definition proposal_refs :: "event \<Rightarrow> (conflict_ref \<times> conflict_ref) option" where
  "proposal_refs ev =
     (case (Option.bind (json_get (ev_content ev) ''a_ref'') ref_from_json,
            Option.bind (json_get (ev_content ev) ''b_ref'') ref_from_json) of
        (Some a, Some b) \<Rightarrow> Some (a, b) | _ \<Rightarrow> None)"

definition ref_is_current :: "engine \<Rightarrow> string set \<Rightarrow> current_session list \<Rightarrow> session_marks \<Rightarrow> conflict_ref \<Rightarrow> bool" where
  "ref_is_current g note_ids current marks r =
     (case r of Note i \<Rightarrow> i \<in> note_ids
      | Passage sid pid \<Rightarrow> (sid, pid) \<notin> sm_retired_passages marks
          \<and> (case find_session sid current of None \<Rightarrow> False
             | Some cs \<Rightarrow> pid < session_passage_count g (cs_event_id cs)))"

definition open_conflict_of :: "event \<Rightarrow> conflict_ref \<times> conflict_ref \<Rightarrow> open_conflict" where
  "open_conflict_of ev = (\<lambda>(a, b). \<lparr>oc_id = ev_id ev, oc_a = a, oc_b = b,
     oc_winner_hint = str_or_empty (ev_content ev) ''winner_hint'',
     oc_confidence_band = str_or_empty (ev_content ev) ''confidence_band'',
     oc_why = str_or_empty (ev_content ev) ''why'',
     oc_detected_at = (case get_i64 (ev_content ev) ''detected_at'' of None \<Rightarrow> 0 | Some n \<Rightarrow> n)\<rparr>)"

definition open_conflict_proposals :: "engine \<Rightarrow> (boss_error, open_conflict list) result" where
  "open_conflict_proposals g =
     rbind (current_notes (\<lambda>_. None) (g_log g)) (\<lambda>notes.
     rbind (session_events_ordered (g_log g)) (\<lambda>evs.
     let (current, marks) = fold_sessions evs;
         ok = ref_is_current g (set (map cn_event_id notes)) current marks in
     rbind (events_of_types [CONFLICT_PROPOSAL_T] (g_log g)) (\<lambda>props.
       Inr (List.map_filter (\<lambda>ev. case proposal_refs ev of None \<Rightarrow> None
         | Some (a, b) \<Rightarrow> if \<not> ok a \<or> \<not> ok b then None else Some (open_conflict_of ev (a, b))) props))))"

definition conflict_proposal_by_id :: "log \<Rightarrow> string \<Rightarrow> (boss_error, (conflict_ref \<times> conflict_ref) option) result" where
  "conflict_proposal_by_id log i =
     rbind (event_by_id log i) (\<lambda>found. Inr (case found of None \<Rightarrow> None
       | Some ev \<Rightarrow> if ev_type ev \<noteq> CONFLICT_PROPOSAL_T then None else proposal_refs ev))"

section \<open>Resolutions\<close>

datatype resolution_kind = KRetireOlder | KRetireNewer | KKeepBoth | KDismiss

datatype resolve_action = RetireOlder | RetireNewer | KeepBoth | Dismiss

datatype resolve_outcome = Applied string | NoOp

fun action_kind :: "resolve_action \<Rightarrow> resolution_kind" where
  "action_kind RetireOlder = KRetireOlder"
| "action_kind RetireNewer = KRetireNewer"
| "action_kind KeepBoth = KKeepBoth"
| "action_kind Dismiss = KDismiss"

fun retired_id_of :: "conflict_ref \<Rightarrow> string" where
  "retired_id_of (Note i) = i"
| "retired_id_of (Passage s p) = s @ ''#'' @ show_nat p"

definition head_of :: "current_session list \<Rightarrow> string \<Rightarrow> string option" where
  "head_of current sid = map_option cs_event_id (find_session sid current)"

text \<open>A dismissal holds while the heads it recorded are still the heads.\<close>

definition dismissal_live :: "current_session list \<Rightarrow> event \<Rightarrow> bool" where
  "dismissal_live current ev =
     (case Option.bind (json_get (ev_content ev) ''session_heads'') as_object of None \<Rightarrow> True
      | Some heads \<Rightarrow> list_all (\<lambda>(sid, stored). head_of current sid = as_str stored) heads)"

definition excluded_pairs :: "current_session list \<Rightarrow> event list \<Rightarrow> string set" where
  "excluded_pairs current evs = set (List.map_filter (\<lambda>ev.
     case get_str (ev_content ev) ''pair_key'' of None \<Rightarrow> None
     | Some pk \<Rightarrow> if ev_type ev = COEXIST_ALLOWED_T \<or> dismissal_live current ev then Some pk else None) evs)"

definition resolution_exclusions :: "log \<Rightarrow> (boss_error, string set) result" where
  "resolution_exclusions log =
     rbind (session_events_ordered log) (\<lambda>evs.
     rbind (events_of_types [COEXIST_ALLOWED_T, DISMISSED_T] log) (\<lambda>terms.
       Inr (excluded_pairs (fst (fold_sessions evs)) terms)))"

definition pending_conflict_proposals :: "engine \<Rightarrow> (boss_error, open_conflict list) result" where
  "pending_conflict_proposals g =
     rbind (resolution_exclusions (g_log g)) (\<lambda>excluded.
     rbind (open_conflict_proposals g) (\<lambda>ps.
       Inr (filter (\<lambda>p. unordered_pair_key (oc_a p) (oc_b p) \<notin> excluded) ps)))"

definition is_conflict_proposal_suppressed :: "engine \<Rightarrow> conflict_ref \<Rightarrow> conflict_ref \<Rightarrow> (boss_error, bool) result" where
  "is_conflict_proposal_suppressed g a b =
     rbind (open_conflict_proposals g) (\<lambda>ps.
       Inr (list_ex (\<lambda>p. unordered_pair_key (oc_a p) (oc_b p) = unordered_pair_key a b) ps))"

definition marker_types :: "string list" where
  "marker_types = [CONFLICT_RESOLVED_T, COEXIST_ALLOWED_T, DISMISSED_T]"

text \<open>The kind a marker records; a malformed \<open>conflict_resolved\<close> records none.\<close>

definition marker_kind :: "event \<Rightarrow> resolution_kind option" where
  "marker_kind ev =
     (if ev_type ev = CONFLICT_RESOLVED_T
      then (if get_str (ev_content ev) ''action'' = Some ''retire_older'' then Some KRetireOlder
            else if get_str (ev_content ev) ''action'' = Some ''retire_newer'' then Some KRetireNewer else None)
      else if ev_type ev = COEXIST_ALLOWED_T then Some KKeepBoth else Some KDismiss)"

definition marker_step :: "event \<Rightarrow> (string \<Rightarrow> resolution_kind option) \<Rightarrow> (string \<Rightarrow> resolution_kind option)" where
  "marker_step ev m =
     (case get_str (ev_content ev) ''proposal_id'' of None \<Rightarrow> m
      | Some pid \<Rightarrow> if m pid \<noteq> None then m
          else (case marker_kind ev of None \<Rightarrow> m | Some kd \<Rightarrow> m(pid \<mapsto> kd)))"

definition resolution_markers :: "log \<Rightarrow> (boss_error, string \<Rightarrow> resolution_kind option) result" where
  "resolution_markers log = rbind (events_of_types marker_types log) (\<lambda>evs.
     Inr (fold marker_step evs (\<lambda>_. None)))"

definition append_conflict_resolved :: "settings \<Rightarrow> stamp \<Rightarrow> string \<Rightarrow> resolve_action \<Rightarrow> string \<Rightarrow> engine \<Rightarrow> string outcome" where
  "append_conflict_resolved k st pid action retired g =
     append_to k st (draft_event CONFLICT_RESOLVED_T
       (jobj [(''proposal_id'', JStr pid),
              (''action'', JStr (if action = RetireOlder then ''retire_older'' else ''retire_newer'')),
              (''retired_event_id'', JStr retired)]) None) g"

definition append_pair_terminal :: "settings \<Rightarrow> stamp \<Rightarrow> string \<Rightarrow> string \<Rightarrow> conflict_ref \<Rightarrow> conflict_ref
    \<Rightarrow> json option \<Rightarrow> engine \<Rightarrow> string outcome" where
  "append_pair_terminal k st t pid a b heads g =
     append_to k st (draft_event t
       (jobj ([(''proposal_id'', JStr pid), (''pair_key'', JStr (unordered_pair_key a b)),
              (''a_ref'', ref_to_json a), (''b_ref'', ref_to_json b)]
         @ opt_field ''session_heads'' heads)) None) g"

definition heads_of_pair :: "current_session list \<Rightarrow> conflict_ref list \<Rightarrow> json" where
  "heads_of_pair current refs = JObj (fold (\<lambda>r m. case r of Note _ \<Rightarrow> m
     | Passage sid _ \<Rightarrow> (case head_of current sid of None \<Rightarrow> m | Some h \<Rightarrow> bt_insert sid (JStr h) m)) refs [])"

definition already_retired :: "session_marks \<Rightarrow> conflict_ref \<Rightarrow> bool" where
  "already_retired m r = (case r of Note i \<Rightarrow> i \<in> sm_retired_notes m
     | Passage s p \<Rightarrow> (s, p) \<in> sm_retired_passages m)"

definition retire_ref :: "settings \<Rightarrow> stamp \<Rightarrow> string \<Rightarrow> conflict_ref \<Rightarrow> engine \<Rightarrow> string outcome" where
  "retire_ref k st pid r g = (case r of Note i \<Rightarrow> retire_memory k st i (Some pid) g
     | Passage s p \<Rightarrow> retire_passage k st s p (Some pid) g)"

definition resolve_retire :: "settings \<Rightarrow> stamp \<Rightarrow> stamp \<Rightarrow> string \<Rightarrow> resolve_action \<Rightarrow> conflict_ref
    \<Rightarrow> engine \<Rightarrow> resolve_outcome outcome" where
  "resolve_retire k s1 s2 pid action loser g =
     (case session_events_ordered (g_log g) of Inl e \<Rightarrow> (g, Inl e)
      | Inr evs \<Rightarrow>
        let done_before = already_retired (session_marks_of evs) loser in
        case (if done_before then (g, Inr []) else retire_ref k s1 pid loser g) of
          (g1, Inl e) \<Rightarrow> (g1, Inl e)
        | (g1, Inr _) \<Rightarrow> (case append_conflict_resolved k s2 pid action (retired_id_of loser) g1 of
            (g2, Inl e) \<Rightarrow> (g2, Inl e)
          | (g2, Inr i) \<Rightarrow> (g2, Inr (if done_before then NoOp else Applied i))))"

definition applied :: "string outcome \<Rightarrow> resolve_outcome outcome" where
  "applied = (\<lambda>(g, r). (g, case r of Inl e \<Rightarrow> Inl e | Inr i \<Rightarrow> Inr (Applied i)))"

definition resolve_conflict :: "settings \<Rightarrow> stamp \<Rightarrow> stamp \<Rightarrow> string \<Rightarrow> resolve_action \<Rightarrow> engine
    \<Rightarrow> resolve_outcome outcome" where
  "resolve_conflict k s1 s2 pid action g =
     (case rbind (conflict_proposal_by_id (g_log g) pid) (\<lambda>found.
         rbind (ok_or (InvalidInput ''unknown conflict proposal'') found) (\<lambda>refs.
         rbind (resolution_markers (g_log g)) (\<lambda>m. Inr (refs, m pid)))) of
        Inl e \<Rightarrow> (g, Inl e)
      | Inr ((a, b), Some kd) \<Rightarrow>
          if kd = action_kind action then (g, Inr NoOp)
          else (g, Inl (InvalidInput ''conflict proposal is already resolved''))
      | Inr ((a, b), None) \<Rightarrow>
          (case action of
             RetireOlder \<Rightarrow> resolve_retire k s1 s2 pid action a g
           | RetireNewer \<Rightarrow> resolve_retire k s1 s2 pid action b g
           | KeepBoth \<Rightarrow> applied (append_pair_terminal k s2 COEXIST_ALLOWED_T pid a b None g)
           | Dismiss \<Rightarrow> (case current_sessions (g_log g) of Inl e \<Rightarrow> (g, Inl e)
               | Inr current \<Rightarrow> applied (append_pair_terminal k s2 DISMISSED_T pid a b
                   (Some (heads_of_pair current [a, b])) g))))"

section \<open>A resolution is final\<close>

lemma event_by_id_append_to:
  assumes "append_to k st ev g = (g', Inr i)" "event_by_id (g_log g) j = Inr (Some e)"
  shows "event_by_id (g_log g') j = Inr (Some e)"
proof -
  obtain log where log: "append (k_crypto k) (k_key k) st ev (g_log g) = Inr (i, log)" "g' = g\<lparr>g_log := log\<rparr>"
    using assms(1) by (auto simp: append_to_Inr)
  obtain r where "log = g_log g @ [r]"
    using log(1) by (rule append_row)
  then show ?thesis
    using assms(2) log(2) by (auto simp: event_by_id_def lookup_row_append split: option.splits)
qed

lemma proposal_append_to:
  assumes "append_to k st ev g = (g', Inr i)" "conflict_proposal_by_id (g_log g) j = Inr (Some refs)"
  shows "conflict_proposal_by_id (g_log g') j = Inr (Some refs)"
proof -
  obtain e where "event_by_id (g_log g) j = Inr (Some e)"
    "ev_type e = CONFLICT_PROPOSAL_T" "proposal_refs e = Some refs"
    using assms(2) by (auto simp: conflict_proposal_by_id_def rbind_eq_Inr split: option.splits if_splits)
  then show ?thesis
    using event_by_id_append_to [OF assms(1)] by (simp add: conflict_proposal_by_id_def)
qed

lemma markers_other:
  assumes "append_to k st ev g = (g', Inr i)" "ev_meta ev = None" "ev_type ev \<notin> set marker_types"
    and "resolution_markers (g_log g) = Inr m"
  shows "resolution_markers (g_log g') = Inr m"
proof -
  obtain evs where evs: "events_of_types marker_types (g_log g) = Inr evs" "m = fold marker_step evs (\<lambda>_. None)"
    using assms(4) by (auto simp: resolution_markers_def rbind_eq_Inr)
  have "marker_types \<noteq> []" by (simp add: marker_types_def)
  then have "events_of_types marker_types (g_log g') = Inr evs"
    using assms(3) by (rule_tac append_to_events [OF assms(1,2) _ evs(1)]) simp_all
  then show ?thesis
    using evs(2) by (simp add: resolution_markers_def)
qed

lemma markers_new:
  assumes "append_to k st ev g = (g', Inr i)" "ev_meta ev = None" "ev_type ev \<in> set marker_types"
    and "resolution_markers (g_log g) = Inr m" "m pid = None"
    and "get_str (ev_content ev) ''proposal_id'' = Some pid" "marker_kind ev = Some kd"
  obtains m' where "resolution_markers (g_log g') = Inr m'" "m' pid = Some kd"
proof -
  obtain evs where evs: "events_of_types marker_types (g_log g) = Inr evs" "m = fold marker_step evs (\<lambda>_. None)"
    using assms(4) by (auto simp: resolution_markers_def rbind_eq_Inr)
  have "marker_types \<noteq> []" by (simp add: marker_types_def)
  then obtain ev' where ev': "events_of_types marker_types (g_log g') = Inr (evs @ [ev'])"
    "ev_type ev' = ev_type ev" "ev_content ev' = ev_content ev"
    using assms(3) by (rule_tac append_to_events [OF assms(1,2) _ evs(1)]) simp_all
  have "marker_kind ev' = marker_kind ev"
    by (simp add: marker_kind_def ev'(2,3))
  then have "marker_step ev' m pid = Some kd"
    using assms(5-7) ev'(3) by (simp add: marker_step_def)
  then show ?thesis
    using that [of "marker_step ev' m"] ev'(1) evs(2) by (simp add: resolution_markers_def)
qed

lemma retire_ref_append:
  assumes "retire_ref k st pid r g = (g', Inr i)"
  obtains ev where "append_to k st ev g = (g', Inr i)" "ev_meta ev = None" "ev_type ev \<notin> set marker_types"
proof (cases r)
  case (Note j)
  let ?ev = "draft_event NOTE_RETIRED_T (jobj ((''retires'', JStr j) # via_conflict (Some pid))) None"
  have "append_to k st ?ev g = (g', Inr i)"
    using assms by (auto simp: Note retire_ref_def retire_memory_def split: sum.splits)
  then show ?thesis by (rule that) (simp_all add: marker_types_def)
next
  case (Passage s p)
  let ?ev = "draft_event PASSAGE_RETIRED_T (jobj (passage_content s p @ via_conflict (Some pid))) None"
  have "append_to k st ?ev g = (g', Inr i)"
    using assms by (auto simp: Passage retire_ref_def retire_passage_def Let_def
        split: sum.splits prod.splits option.splits if_splits)
  then show ?thesis by (rule that) (simp_all add: marker_types_def)
qed

text \<open>The marker that the first resolution of a proposal appends, and the state it appends to.\<close>

definition is_marker_for :: "string \<Rightarrow> resolve_action \<Rightarrow> event \<Rightarrow> bool" where
  "is_marker_for pid action ev \<longleftrightarrow> ev_meta ev = None \<and> ev_type ev \<in> set marker_types
     \<and> get_str (ev_content ev) ''proposal_id'' = Some pid \<and> marker_kind ev = Some (action_kind action)"

lemma resolve_retire_cases:
  assumes "resolve_retire k s1 s2 pid action loser g = (g', Inr out)" "action = RetireOlder \<or> action = RetireNewer"
    and "conflict_proposal_by_id (g_log g) pid = Inr (Some refs)" "resolution_markers (g_log g) = Inr m"
  obtains g1 ev i where "append_to k s2 ev g1 = (g', Inr i)" "is_marker_for pid action ev"
    "conflict_proposal_by_id (g_log g1) pid = Inr (Some refs)" "resolution_markers (g_log g1) = Inr m"
proof -
  obtain evs where evs: "session_events_ordered (g_log g) = Inr evs"
    using assms(1) by (auto simp: resolve_retire_def split: sum.splits)
  obtain g1 r where r: "(if already_retired (session_marks_of evs) loser then (g, Inr []) else
      retire_ref k s1 pid loser g) = (g1, Inr r)"
    using assms(1) by (auto simp: resolve_retire_def evs Let_def split: prod.splits sum.splits if_splits)
  let ?ev = "draft_event CONFLICT_RESOLVED_T
       (jobj [(''proposal_id'', JStr pid),
              (''action'', JStr (if action = RetireOlder then ''retire_older'' else ''retire_newer'')),
              (''retired_event_id'', JStr (retired_id_of loser))]) None"
  obtain i where "append_to k s2 ?ev g1 = (g', Inr i)"
    using assms(1) r by (auto simp: resolve_retire_def evs Let_def append_conflict_resolved_def
        split: prod.splits sum.splits if_splits)
  moreover have "is_marker_for pid action ?ev"
    using assms(2) by (auto simp: is_marker_for_def marker_types_def marker_kind_def)
  moreover have "conflict_proposal_by_id (g_log g1) pid = Inr (Some refs) \<and> resolution_markers (g_log g1) = Inr m"
  proof (cases "already_retired (session_marks_of evs) loser")
    case True
    then show ?thesis using r assms(3,4) by simp
  next
    case False
    then have "retire_ref k s1 pid loser g = (g1, Inr r)" using r by simp
    then show ?thesis
      using assms(3,4) by (rule_tac retire_ref_append) (auto intro: proposal_append_to markers_other)
  qed
  ultimately show ?thesis using that by blast
qed

lemma resolve_fresh_cases:
  assumes "resolve_conflict k s1 s2 pid action g = (g', Inr out)"
    and "conflict_proposal_by_id (g_log g) pid = Inr (Some refs)" "resolution_markers (g_log g) = Inr m"
    and "m pid = None"
  obtains g1 ev i where "append_to k s2 ev g1 = (g', Inr i)" "is_marker_for pid action ev"
    "conflict_proposal_by_id (g_log g1) pid = Inr (Some refs)" "resolution_markers (g_log g1) = Inr m"
proof -
  note found = that
  obtain a b where ab: "refs = (a, b)" by (cases refs)
  have pair: thesis if t: "append_pair_terminal k s2 t pid a b h g = (g', Inr i)"
    "t \<in> {COEXIST_ALLOWED_T, DISMISSED_T}" "action_kind action = (if t = COEXIST_ALLOWED_T then KKeepBoth else KDismiss)"
    for t h i
    using t(1) unfolding append_pair_terminal_def
  proof (rule found)
    show "is_marker_for pid action (draft_event t
       (jobj ([(''proposal_id'', JStr pid), (''pair_key'', JStr (unordered_pair_key a b)),
              (''a_ref'', ref_to_json a), (''b_ref'', ref_to_json b)] @ opt_field ''session_heads'' h)) None)"
      using t(2,3) by (auto simp: is_marker_for_def marker_types_def marker_kind_def opt_field_def split: option.split)
  qed (use assms in auto)
  have run: "resolve_conflict k s1 s2 pid action g = (case action of
      RetireOlder \<Rightarrow> resolve_retire k s1 s2 pid action a g
    | RetireNewer \<Rightarrow> resolve_retire k s1 s2 pid action b g
    | KeepBoth \<Rightarrow> applied (append_pair_terminal k s2 COEXIST_ALLOWED_T pid a b None g)
    | Dismiss \<Rightarrow> (case current_sessions (g_log g) of Inl e \<Rightarrow> (g, Inl e)
        | Inr current \<Rightarrow> applied (append_pair_terminal k s2 DISMISSED_T pid a b
            (Some (heads_of_pair current [a, b])) g)))"
    using assms by (simp add: resolve_conflict_def ab)
  show ?thesis
  proof (cases action)
    case RetireOlder
    then have "resolve_retire k s1 s2 pid action a g = (g', Inr out)"
      using assms(1) run by simp
    then show ?thesis
      by (rule resolve_retire_cases [OF _ _ assms(2,3)]) (use found RetireOlder in auto)
  next
    case RetireNewer
    then have "resolve_retire k s1 s2 pid action b g = (g', Inr out)"
      using assms(1) run by simp
    then show ?thesis
      by (rule resolve_retire_cases [OF _ _ assms(2,3)]) (use found RetireNewer in auto)
  next
    case KeepBoth
    then show ?thesis using assms(1) run pair
      by (auto simp: applied_def split: prod.splits sum.splits)
  next
    case Dismiss
    then show ?thesis using assms(1) run pair
      by (auto simp: applied_def split: prod.splits sum.splits)
  qed
qed

lemma resolved_marker:
  assumes "resolve_conflict k s1 s2 pid action g = (g', Inr out)"
  obtains refs m where "conflict_proposal_by_id (g_log g') pid = Inr (Some refs)"
    "resolution_markers (g_log g') = Inr m" "m pid = Some (action_kind action)"
proof -
  obtain refs m where pre: "conflict_proposal_by_id (g_log g) pid = Inr (Some refs)" "resolution_markers (g_log g) = Inr m"
    using assms by (auto simp: resolve_conflict_def rbind_def ok_or_def split: sum.splits option.splits)
  show ?thesis
  proof (cases "m pid")
    case None
    obtain g1 ev i where ap: "append_to k s2 ev g1 = (g', Inr i)" "is_marker_for pid action ev"
      "conflict_proposal_by_id (g_log g1) pid = Inr (Some refs)" "resolution_markers (g_log g1) = Inr m"
      using assms pre None by (rule resolve_fresh_cases)
    obtain m' where "resolution_markers (g_log g') = Inr m'" "m' pid = Some (action_kind action)"
      using ap(1) _ _ ap(4) None by (rule markers_new) (use ap(2) in \<open>auto simp: is_marker_for_def\<close>)
    then show ?thesis using that proposal_append_to [OF ap(1,3)] by blast
  next
    case (Some kd)
    then have "kd = action_kind action \<and> g' = g"
      using assms pre by (cases refs) (auto simp: resolve_conflict_def split: if_splits)
    then show ?thesis using that pre Some by blast
  qed
qed

lemma action_kind_inj: "action_kind a = action_kind b \<longleftrightarrow> a = b"
  by (cases a; cases b) simp_all

text \<open>C9. A resolution is final and idempotent: after a conflict was resolved, resolving it the same way
  again appends nothing and answers NoOp, and resolving it any other way is refused and appends nothing.\<close>

theorem resolve_conflict_final:
  assumes "resolve_conflict k s1 s2 pid action g = (g', Inr out)"
  shows "resolve_conflict k s3 s4 pid action' g' = (g', if action' = action then Inr NoOp
     else Inl (InvalidInput ''conflict proposal is already resolved''))"
proof -
  obtain refs m where "conflict_proposal_by_id (g_log g') pid = Inr (Some refs)"
    "resolution_markers (g_log g') = Inr m" "m pid = Some (action_kind action)"
    using assms by (rule resolved_marker)
  then show ?thesis
    by (cases refs) (auto simp: resolve_conflict_def action_kind_inj)
qed

section \<open>A dismissal and its lifetime\<close>

lemma heads_of_pair_ok:
  "bt_ok (fold (\<lambda>r m. case r of Note _ \<Rightarrow> m
     | Passage sid _ \<Rightarrow> (case head_of current sid of None \<Rightarrow> m | Some h \<Rightarrow> bt_insert sid (JStr h) m)) rs [])"
proof (induction rs rule: rev_induct)
  case Nil
  then show ?case by simp
next
  case (snoc r rs)
  then show ?case by (simp split: conflict_ref.split option.split)
qed

lemma heads_of_pair_get:
  "map_of (fold (\<lambda>r m. case r of Note _ \<Rightarrow> m
     | Passage sid _ \<Rightarrow> (case head_of current sid of None \<Rightarrow> m | Some h \<Rightarrow> bt_insert sid (JStr h) m)) rs []) sid =
   (if \<exists>p. Passage sid p \<in> set rs then map_option JStr (head_of current sid) else None)"
proof (induction rs rule: rev_induct)
  case Nil
  then show ?case by simp
next
  case (snoc r rs)
  then show ?case
    by (cases r) (auto simp: bt_get_insert [OF heads_of_pair_ok] split: option.split)
qed

lemma dismissal_live_heads:
  assumes "ev_content ev = jobj (fs @ opt_field ''session_heads'' (Some (heads_of_pair current0 rs)))"
  shows "dismissal_live current ev \<longleftrightarrow>
    (\<forall>sid p h. Passage sid p \<in> set rs \<longrightarrow> head_of current0 sid = Some h \<longrightarrow> head_of current sid = Some h)"
proof -
  let ?m = "fold (\<lambda>r m. case r of Note _ \<Rightarrow> m
     | Passage sid _ \<Rightarrow> (case head_of current0 sid of None \<Rightarrow> m | Some h \<Rightarrow> bt_insert sid (JStr h) m)) rs []"
  have "json_get (ev_content ev) ''session_heads'' = Some (JObj ?m)"
    using assms by (simp add: opt_field_def heads_of_pair_def)
  then have "dismissal_live current ev \<longleftrightarrow>
      (\<forall>sid v. map_of ?m sid = Some v \<longrightarrow> head_of current sid = as_str v)"
    using bt_ok_get [OF heads_of_pair_ok] by (fastforce simp: dismissal_live_def list_all_iff)
  also have "\<dots> \<longleftrightarrow> (\<forall>sid p h. Passage sid p \<in> set rs \<longrightarrow> head_of current0 sid = Some h \<longrightarrow>
      head_of current sid = Some h)"
    by (auto simp: heads_of_pair_get split: if_splits)
  finally show ?thesis .
qed

lemma session_events_other:
  assumes "append_to k st ev g = (g', Inr i)" "ev_meta ev = None" "ev_type ev \<notin> set session_types"
    and "session_events_ordered (g_log g) = Inr evs"
  shows "session_events_ordered (g_log g') = Inr evs"
proof -
  have "session_types \<noteq> []" by (simp add: session_types_def)
  then have "events_of_types session_types (g_log g') = Inr evs"
    using assms(3,4)
    by (rule_tac append_to_events [OF assms(1,2), where evs = evs and types = session_types])
      (simp_all add: session_events_types)
  then show ?thesis by (simp add: session_events_types)
qed

text \<open>A dismissal lives exactly as long as the session versions it judged: the marker written for a
  pair excludes it while every session version of the pair that was current then still is, and no
  longer once one of them is captured anew or deleted.\<close>

lemma dismissal_live_iff:
  assumes "append_pair_terminal k st DISMISSED_T pid a b (Some (heads_of_pair current0 [a, b])) g = (g', Inr i)"
  shows "\<exists>r ev. g_log g' = g_log g @ [r] \<and> r_payload r = Some ev \<and> ev_type ev = DISMISSED_T
    \<and> dismissal_live current ev = (\<forall>sid p. Passage sid p \<in> {a, b} \<longrightarrow> head_of current0 sid \<noteq> None \<longrightarrow>
        head_of current sid = head_of current0 sid)"
proof -
  let ?fs = "[(''proposal_id'', JStr pid), (''pair_key'', JStr (unordered_pair_key a b)),
              (''a_ref'', ref_to_json a), (''b_ref'', ref_to_json b)]"
  let ?c = "jobj (?fs @ opt_field ''session_heads'' (Some (heads_of_pair current0 [a, b])))"
  obtain log where log: "append (k_crypto k) (k_key k) st (draft_event DISMISSED_T ?c None) (g_log g) = Inr (i, log)"
    "g' = g\<lparr>g_log := log\<rparr>"
    using assms by (auto simp: append_pair_terminal_def append_to_Inr)
  obtain r ev where r: "log = g_log g @ [r]" "r_payload r = Some ev" "ev_type ev = DISMISSED_T" "ev_content ev = ?c"
    using log(1) by (rule append_row) simp
  have "dismissal_live current ev \<longleftrightarrow> (\<forall>sid p h. Passage sid p \<in> set [a, b] \<longrightarrow>
      head_of current0 sid = Some h \<longrightarrow> head_of current sid = Some h)"
    by (rule dismissal_live_heads [OF r(4)])
  then show ?thesis
    using r(1-3) log(2) by fastforce
qed

text \<open>A pair that was kept or dismissed leaves the queue of pending conflicts: no pending proposal is
  about the same unordered pair, whichever proposal raised it.\<close>

lemma settled_pair_not_pending:
  assumes "resolve_conflict k s1 s2 pid action g = (g', Inr (Applied i))" and "action \<in> {KeepBoth, Dismiss}"
    and "conflict_proposal_by_id (g_log g) pid = Inr (Some (a, b))"
    and "pending_conflict_proposals g' = Inr ps"
  shows "unordered_pair_key a b \<notin> (\<lambda>p. unordered_pair_key (oc_a p) (oc_b p)) ` set ps"
proof -
  obtain t h where app: "append_pair_terminal k s2 t pid a b h g = (g', Inr i)"
    and t: "t = COEXIST_ALLOWED_T \<and> h = None \<or> t = DISMISSED_T \<and>
      (\<exists>cur. current_sessions (g_log g) = Inr cur \<and> h = Some (heads_of_pair cur [a, b]))"
    using assms(1-3) by (auto simp: resolve_conflict_def applied_def rbind_def ok_or_def
        split: sum.splits option.splits prod.splits if_splits)
  let ?c = "jobj ([(''proposal_id'', JStr pid), (''pair_key'', JStr (unordered_pair_key a b)),
              (''a_ref'', ref_to_json a), (''b_ref'', ref_to_json b)] @ opt_field ''session_heads'' h)"
  have to: "append_to k s2 (draft_event t ?c None) g = (g', Inr i)"
    using app by (simp add: append_pair_terminal_def)
  obtain evs terms where evs: "session_events_ordered (g_log g') = Inr evs"
    "events_of_types [COEXIST_ALLOWED_T, DISMISSED_T] (g_log g') = Inr terms"
    "ps = filter (\<lambda>p. unordered_pair_key (oc_a p) (oc_b p) \<notin> excluded_pairs (fst (fold_sessions evs)) terms) ps"
    using assms(4) by (auto simp: pending_conflict_proposals_def resolution_exclusions_def rbind_eq_Inr)
  obtain log where log: "append (k_crypto k) (k_key k) s2 (draft_event t ?c None) (g_log g) = Inr (i, log)"
    "g' = g\<lparr>g_log := log\<rparr>"
    using to by (auto simp: append_to_Inr)
  obtain r ev where r: "log = g_log g @ [r]" "r_type r = t" "r_payload r = Some ev" "ev_type ev = t" "ev_content ev = ?c"
    using log(1) by (rule append_row) simp
  have "ev \<in> set terms"
    using evs(2) t r log(2) by (auto simp: events_of_types_snoc rbind_eq_Inr)
  moreover have "t \<noteq> COEXIST_ALLOWED_T \<longrightarrow> dismissal_live (fst (fold_sessions evs)) ev"
  proof
    assume "t \<noteq> COEXIST_ALLOWED_T"
    then obtain evs0 where e0: "session_events_ordered (g_log g) = Inr evs0"
      and h: "h = Some (heads_of_pair (fst (fold_sessions evs0)) [a, b])" and t': "t = DISMISSED_T"
      using t by (auto simp: current_sessions_def rbind_eq_Inr)
    have "session_events_ordered (g_log g') = Inr evs0"
      using to e0 by (rule_tac session_events_other [OF to _ _ e0]) (simp_all add: t' session_types_def)
    then have "evs = evs0" using evs(1) by simp
    then show "dismissal_live (fst (fold_sessions evs)) ev"
      using dismissal_live_heads [OF r(5) [unfolded h]] by simp
  qed
  moreover have "get_str (ev_content ev) ''pair_key'' = Some (unordered_pair_key a b)"
    by (simp add: r(5) opt_field_def split: option.split)
  ultimately have "unordered_pair_key a b \<in> excluded_pairs (fst (fold_sessions evs)) terms"
    using r(4) by (force simp: excluded_pairs_def map_filter_def)
  then show ?thesis
    using evs(3) [symmetric] by (auto simp: filter_id_conv)
qed

section \<open>Witnesses\<close>

text \<open>A note and a passage of the captured session in conflict, dismissed.\<close>

abbreviation "demo_a \<equiv> Note ''a''"
abbreviation "demo_p \<equiv> Passage ''s'' 0"

definition demo_conflict :: engine where
  "demo_conflict = fst (append_conflict_proposal demo_settings (''q'', ''t'') demo_a demo_p ''none'' ''low'' ''why'' 1
     [''a''] (demo_captured\<lparr>g_passages := [(''c'', 0, [])]\<rparr>))"

definition demo_dismissed :: engine where
  "demo_dismissed = fst (resolve_conflict demo_settings (''x1'', ''t'') (''x2'', ''t'') ''q'' Dismiss demo_conflict)"

lemma demo_dismiss: "resolve_conflict demo_settings (''x1'', ''t'') (''x2'', ''t'') ''q'' Dismiss demo_conflict
    = (demo_dismissed, Inr (Applied ''x2''))"
proof -
  have "snd (resolve_conflict demo_settings (''x1'', ''t'') (''x2'', ''t'') ''q'' Dismiss demo_conflict)
    = Inr (Applied ''x2'')" by code_simp
  then show ?thesis by (simp add: demo_dismissed_def prod_eq_iff)
qed

lemma unordered_pair_key_iff_witness: "unordered_pair_key demo_a demo_p = unordered_pair_key demo_p demo_a"
  using unordered_pair_key_iff [of demo_a demo_p demo_p demo_a] by (simp add: ref_plain_def)

theorem resolve_conflict_final_witness:
  "resolve_conflict demo_settings (''y1'', ''t'') (''y2'', ''t'') ''q'' KeepBoth demo_dismissed =
     (demo_dismissed, Inl (InvalidInput ''conflict proposal is already resolved''))"
  using resolve_conflict_final [OF demo_dismiss, of "(''y1'', ''t'')" "(''y2'', ''t'')" KeepBoth] by simp

lemma settled_pair_not_pending_witness:
  "length (projr (pending_conflict_proposals demo_conflict)) = 1 \<and>
   unordered_pair_key demo_a demo_p \<notin> (\<lambda>p. unordered_pair_key (oc_a p) (oc_b p)) `
      set (projr (pending_conflict_proposals demo_dismissed))"
proof
  show "length (projr (pending_conflict_proposals demo_conflict)) = 1" by code_simp
  have "is_ok (pending_conflict_proposals demo_dismissed)" by code_simp
  then have "pending_conflict_proposals demo_dismissed = Inr (projr (pending_conflict_proposals demo_dismissed))"
    by (auto simp: is_ok_iff)
  moreover have "conflict_proposal_by_id (g_log demo_conflict) ''q'' = Inr (Some (demo_a, demo_p))" by code_simp
  ultimately show "unordered_pair_key demo_a demo_p \<notin> (\<lambda>p. unordered_pair_key (oc_a p) (oc_b p)) `
      set (projr (pending_conflict_proposals demo_dismissed))"
    using settled_pair_not_pending [OF demo_dismiss] by blast
qed

definition demo_current :: "current_session list" where
  "demo_current = projr (current_sessions (g_log demo_captured))"

definition demo_terminal :: "string outcome" where
  "demo_terminal = append_pair_terminal demo_settings (''x2'', ''t'') DISMISSED_T ''q'' demo_a demo_p
     (Some (heads_of_pair demo_current [demo_a, demo_p])) demo_captured"

lemma demo_terminal: "append_pair_terminal demo_settings (''x2'', ''t'') DISMISSED_T ''q'' demo_a demo_p
     (Some (heads_of_pair demo_current [demo_a, demo_p])) demo_captured = (fst demo_terminal, Inr ''x2'')"
proof -
  have "snd demo_terminal = Inr ''x2''" by code_simp
  then show ?thesis unfolding demo_terminal_def [symmetric] by (metis prod.collapse)
qed

lemma dismissal_live_iff_witness:
  "\<exists>(r :: row) (ev :: event). r_payload r = Some ev \<and> dismissal_live demo_current ev \<and> ev_type ev = DISMISSED_T"
  using dismissal_live_iff [OF demo_terminal, of demo_current]
proof (elim exE conjE)
  fix r :: row and ev :: event
  assume "r_payload r = Some ev" "ev_type ev = DISMISSED_T"
    "dismissal_live demo_current ev = (\<forall>sid p. Passage sid p \<in> {demo_a, demo_p} \<longrightarrow>
       head_of demo_current sid \<noteq> None \<longrightarrow> head_of demo_current sid = head_of demo_current sid)"
  then show ?thesis by (intro exI [of _ r] exI [of _ ev]) simp
qed

end
