(* ===== verification/AgentPolicy.thy ===== *)
theory AgentPolicy
  imports Ordmap
begin

text \<open>
  The autonomy dial and the auto-send budget of \<open>air-rs/src/inbox/policy_store.rs\<close>: the policy file,
  \<open>decide\<close>, and \<open>reserve\<close>, \<open>confirm\<close>, \<open>cancel\<close> with their pruning.  The file is \<open>None\<close> when it is
  missing or does not parse.  \<open>load\<close> also answers with the default when the read of an existing file
  fails, and the next write then replaces every contact's dial and ledger; the budget theorems speak of
  runs in which a read returns what the last write stored.  The contacts are an association list by DID (no
  operation depends on the order), and a write succeeds or not as the argument \<open>io\<close> says.  \<open>tm\<close> is the RFC
  3339 parser, giving nanoseconds; \<open>token\<close> is the fresh uuid.
\<close>

section \<open>The policy file\<close>

datatype autonomy = Off | Draft | Auto

record auto_send =
  as_token :: string
  as_envelope_id :: string
  as_thread_id :: string
  as_at :: string
  as_pending :: bool

record contact_policy =
  ai_autonomy :: autonomy
  auto_ledger :: "string list"
  auto_sends :: "auto_send list"

record agent_policy =
  po_version :: nat
  po_contacts :: "(string \<times> contact_policy) list"

definition default_contact :: contact_policy where
  "default_contact = \<lparr>ai_autonomy = Draft, auto_ledger = [], auto_sends = []\<rparr>"

definition default_policy :: agent_policy where
  "default_policy = \<lparr>po_version = 1, po_contacts = []\<rparr>"

type_synonym policy_file = "agent_policy option"

definition load_policy :: "policy_file \<Rightarrow> agent_policy" where
  "load_policy f = (case f of None \<Rightarrow> default_policy | Some p \<Rightarrow> p)"

definition contact_of :: "agent_policy \<Rightarrow> string \<Rightarrow> contact_policy option" where
  "contact_of p did = map_of (po_contacts p) did"

definition entry_or_default :: "agent_policy \<Rightarrow> string \<Rightarrow> contact_policy" where
  "entry_or_default p did = (case contact_of p did of None \<Rightarrow> default_contact | Some c \<Rightarrow> c)"

definition put_contact :: "string \<Rightarrow> contact_policy \<Rightarrow> agent_policy \<Rightarrow> agent_policy" where
  "put_contact did c p = p\<lparr>po_contacts := bt_insert did c (po_contacts p)\<rparr>"

definition write_policy :: "bool \<Rightarrow> agent_policy \<Rightarrow> policy_file \<Rightarrow> policy_file \<times> (string, unit) result" where
  "write_policy io p f = (if io then (Some p, Inr ()) else (f, Inl ''io''))"

definition autonomy_for :: "policy_file \<Rightarrow> string \<Rightarrow> autonomy" where
  "autonomy_for f did = (case contact_of (load_policy f) did of None \<Rightarrow> Draft | Some c \<Rightarrow> ai_autonomy c)"

definition set_autonomy :: "bool \<Rightarrow> string \<Rightarrow> autonomy \<Rightarrow> policy_file \<Rightarrow> policy_file \<times> (string, agent_policy) result" where
  "set_autonomy io did v f =
     (let p = load_policy f; p' = put_contact did ((entry_or_default p did)\<lparr>ai_autonomy := v\<rparr>) p
      in case write_policy io p' f of (f', Inl e) \<Rightarrow> (f', Inl e) | (f', Inr _) \<Rightarrow> (f', Inr p'))"

definition reset_to_draft :: "bool \<Rightarrow> string \<Rightarrow> policy_file \<Rightarrow> policy_file \<times> (string, agent_policy) result" where
  "reset_to_draft io did f = set_autonomy io did Draft f"

section \<open>The decision\<close>

abbreviation "PER_CONTACT_HOURLY \<equiv> (3 :: nat)"
abbreviation "PER_CONTACT_DAILY \<equiv> (10 :: nat)"
abbreviation "GLOBAL_DAILY \<equiv> (30 :: nat)"
abbreviation "HOURLY_WINDOW_SECS \<equiv> (3600 :: int)"
abbreviation "STRUCTURAL_WINDOW_SECS \<equiv> (1800 :: int)"
abbreviation "AUTO_RECENCY_SECS \<equiv> (600 :: int)"
abbreviation "STALE_PENDING_SECS \<equiv> (900 :: int)"
abbreviation "RETENTION_SECS \<equiv> (86400 :: int)"
abbreviation "LEDGER_CAP \<equiv> (500 :: nat)"

text \<open>\<open>num_seconds\<close> of a duration in nanoseconds truncates towards zero.\<close>

definition num_seconds :: "int \<Rightarrow> int" where
  "num_seconds d = (if d < 0 then - ((- d) div 1000000000) else d div 1000000000)"

definition within :: "(string \<Rightarrow> int option) \<Rightarrow> string \<Rightarrow> string \<Rightarrow> int \<Rightarrow> bool" where
  "within tm at now secs = (case (tm at, tm now) of
     (Some a, Some n) \<Rightarrow> 0 \<le> num_seconds (n - a) \<and> num_seconds (n - a) \<le> secs
   | _ \<Rightarrow> False)"

definition sends_of :: "agent_policy \<Rightarrow> string \<Rightarrow> auto_send list" where
  "sends_of p did = (case contact_of p did of None \<Rightarrow> [] | Some c \<Rightarrow> auto_sends c)"

definition count_within :: "(string \<Rightarrow> int option) \<Rightarrow> string \<Rightarrow> int \<Rightarrow> auto_send list \<Rightarrow> nat" where
  "count_within tm now secs xs = length (filter (\<lambda>a. within tm (as_at a) now secs) xs)"

definition all_sends :: "agent_policy \<Rightarrow> auto_send list" where
  "all_sends p = concat (map (auto_sends \<circ> snd) (po_contacts p))"

definition decide :: "(string \<Rightarrow> int option) \<Rightarrow> agent_policy \<Rightarrow> string \<Rightarrow> string option \<Rightarrow> string \<Rightarrow> string
    \<Rightarrow> autonomy \<times> string" where
  "decide tm p did thread_id received_at now =
     (case (case contact_of p did of None \<Rightarrow> Draft | Some c \<Rightarrow> ai_autonomy c) of
        Off \<Rightarrow> (Off, ''dial off'')
      | Draft \<Rightarrow> (Draft, ''dial draft'')
      | Auto \<Rightarrow>
        if \<not> within tm received_at now AUTO_RECENCY_SECS
        then (Draft, ''auto skipped: message too old (replay)'')
        else if (case (thread_id, contact_of p did) of (Some tid, Some c) \<Rightarrow>
              list_ex (\<lambda>a. as_thread_id a = tid \<and> within tm (as_at a) now STRUCTURAL_WINDOW_SECS) (auto_sends c)
            | _ \<Rightarrow> False)
        then (Draft, ''auto paused: just auto-replied in this thread'')
        else if count_within tm now HOURLY_WINDOW_SECS (sends_of p did) \<ge> PER_CONTACT_HOURLY
        then (Draft, ''auto paused: hourly cap'')
        else if count_within tm now RETENTION_SECS (sends_of p did) \<ge> PER_CONTACT_DAILY
        then (Draft, ''auto paused: daily cap'')
        else if count_within tm now RETENTION_SECS (all_sends p) \<ge> GLOBAL_DAILY
        then (Draft, ''auto paused: global cap'')
        else (Auto, ''auto''))"

section \<open>Reservations\<close>

definition keep_send :: "(string \<Rightarrow> int option) \<Rightarrow> string \<Rightarrow> auto_send \<Rightarrow> bool" where
  "keep_send tm now a \<longleftrightarrow> within tm (as_at a) now RETENTION_SECS
     \<and> (\<not> as_pending a \<or> within tm (as_at a) now STALE_PENDING_SECS)"

definition prune :: "(string \<Rightarrow> int option) \<Rightarrow> string \<Rightarrow> agent_policy \<Rightarrow> agent_policy \<times> bool" where
  "prune tm now p =
     (p\<lparr>po_contacts := map (\<lambda>(d, c). (d, c\<lparr>auto_sends := filter (keep_send tm now) (auto_sends c)\<rparr>)) (po_contacts p)\<rparr>,
      list_ex (\<lambda>(d, c). length (filter (keep_send tm now) (auto_sends c)) \<noteq> length (auto_sends c)) (po_contacts p))"

record reservation =
  rv_decision :: autonomy
  rv_reason :: string
  rv_token :: "string option"

definition reserve :: "(string \<Rightarrow> int option) \<Rightarrow> string \<Rightarrow> bool \<Rightarrow> string \<Rightarrow> string option \<Rightarrow> string \<Rightarrow> string
    \<Rightarrow> policy_file \<Rightarrow> policy_file \<times> (string, reservation) result" where
  "reserve tm token io did thread_id received_at now f =
     (let (p, pruned) = prune tm now (load_policy f);
          (decision, reason) = decide tm p did thread_id received_at now in
      if decision = Auto then
        let c = entry_or_default p did;
            send = \<lparr>as_token = token, as_envelope_id = [],
              as_thread_id = (case thread_id of None \<Rightarrow> [] | Some t \<Rightarrow> t), as_at = now, as_pending = True\<rparr>
        in (case write_policy io (put_contact did (c\<lparr>auto_sends := auto_sends c @ [send]\<rparr>) p) f of
              (f', Inl e) \<Rightarrow> (f', Inl e)
            | (f', Inr _) \<Rightarrow> (f', Inr \<lparr>rv_decision = decision, rv_reason = reason, rv_token = Some token\<rparr>))
      else
        (case (if pruned then write_policy io p f else (f, Inr ())) of
           (f', Inl e) \<Rightarrow> (f', Inl e)
         | (f', Inr _) \<Rightarrow> (f', Inr \<lparr>rv_decision = decision, rv_reason = reason, rv_token = None\<rparr>)))"

text \<open>The first record with the token becomes confirmed, the others stay.\<close>

fun confirm_sends :: "string \<Rightarrow> string \<Rightarrow> auto_send list \<Rightarrow> (auto_send list \<times> bool) option" where
  "confirm_sends token envelope_id [] = None"
| "confirm_sends token envelope_id (a # as) =
     (if as_token a = token then Some (a\<lparr>as_pending := False, as_envelope_id := envelope_id\<rparr> # as, as_pending a)
      else map_option (\<lambda>(as', was). (a # as', was)) (confirm_sends token envelope_id as))"

definition push_ledger :: "string \<Rightarrow> string list \<Rightarrow> string list" where
  "push_ledger e l = (let l' = l @ [e] in drop (length l' - LEDGER_CAP) l')"

definition confirm :: "bool \<Rightarrow> string \<Rightarrow> string \<Rightarrow> string \<Rightarrow> string \<Rightarrow> string
    \<Rightarrow> policy_file \<Rightarrow> policy_file \<times> (string, unit) result" where
  "confirm io did token envelope_id thread_id now f =
     (let p = load_policy f; c = entry_or_default p did;
          (sends, is_new) = (case confirm_sends token envelope_id (auto_sends c) of
             Some r \<Rightarrow> r
           | None \<Rightarrow> (auto_sends c @ [\<lparr>as_token = token, as_envelope_id = envelope_id, as_thread_id = thread_id,
               as_at = now, as_pending = False\<rparr>], True))
      in write_policy io (put_contact did (c\<lparr>auto_sends := sends,
           auto_ledger := (if is_new then push_ledger envelope_id (auto_ledger c) else auto_ledger c)\<rparr>) p) f)"

definition cancel :: "bool \<Rightarrow> string \<Rightarrow> string \<Rightarrow> policy_file \<Rightarrow> policy_file \<times> (string, unit) result" where
  "cancel io did token f =
     (let p = load_policy f in
      write_policy io (p\<lparr>po_contacts := bt_modify did
        (\<lambda>c. c\<lparr>auto_sends := filter (\<lambda>a. as_token a \<noteq> token \<or> \<not> as_pending a) (auto_sends c)\<rparr>) (po_contacts p)\<rparr>) f)"

section \<open>What the operations do to the records\<close>

definition policy_ok :: "agent_policy \<Rightarrow> bool" where
  "policy_ok p \<longleftrightarrow> bt_ok (po_contacts p)"

lemma sends_put [simp]:
  "policy_ok p \<Longrightarrow> sends_of (put_contact did c p) d = (if d = did then auto_sends c else sends_of p d)"
  by (simp add: sends_of_def contact_of_def put_contact_def policy_ok_def)

lemma policy_ok_put [simp]: "policy_ok p \<Longrightarrow> policy_ok (put_contact did c p)"
  by (simp add: policy_ok_def put_contact_def)

lemma policy_ok_prune [simp]: "policy_ok p \<Longrightarrow> policy_ok (fst (prune tm now p))"
  by (simp add: policy_ok_def prune_def bt_ok_def comp_def split_def)

lemma sends_prune [simp]: "sends_of (fst (prune tm now p)) d = filter (keep_send tm now) (sends_of p d)"
  using map_of_map [of "\<lambda>c. c\<lparr>auto_sends := filter (keep_send tm now) (auto_sends c)\<rparr>" "po_contacts p"]
  by (simp add: sends_of_def contact_of_def prune_def split: option.split)

lemma sends_entry [simp]: "auto_sends (entry_or_default p d) = sends_of p d"
  by (simp add: entry_or_default_def sends_of_def default_contact_def split: option.split)

lemma sends_of_all: "a \<in> set (sends_of p d) \<Longrightarrow> a \<in> set (all_sends p)"
proof (cases "contact_of p d")
  case (Some c)
  then have "(d, c) \<in> set (po_contacts p)"
    by (simp add: contact_of_def map_of_SomeD)
  moreover assume "a \<in> set (sends_of p d)"
  ultimately show ?thesis
    using Some by (auto simp: all_sends_def sends_of_def intro!: bexI [of _ "(d, c)"])
qed (simp add: sends_of_def)

lemma sends_modify:
  "sends_of (p\<lparr>po_contacts := bt_modify did (\<lambda>c. c\<lparr>auto_sends := h (auto_sends c)\<rparr>) (po_contacts p)\<rparr>) d =
     (if d = did \<and> contact_of p did \<noteq> None then h (sends_of p d) else sends_of p d)"
  by (auto simp: sends_of_def contact_of_def split: option.split)

lemma within_iff:
  "within tm at now secs \<longleftrightarrow> (\<exists>a n. tm at = Some a \<and> tm now = Some n
     \<and> - 1000000000 < n - a \<and> (0 \<le> secs \<and> n - a < (secs + 1) * 1000000000))"
proof -
  have "0 \<le> num_seconds d \<and> num_seconds d \<le> secs \<longleftrightarrow>
      - 1000000000 < d \<and> 0 \<le> secs \<and> d < (secs + 1) * 1000000000" for d
    by (auto simp: num_seconds_def)
  then show ?thesis
    by (auto simp: within_def split: option.split)
qed

lemma confirm_sends_None: "confirm_sends token e xs = None \<longleftrightarrow> token \<notin> as_token ` set xs"
  by (induction xs) auto

lemma confirm_sends_Some:
  assumes "confirm_sends token e xs = Some (ys, was)"
  shows "map (\<lambda>a. (as_token a, as_at a)) ys = map (\<lambda>a. (as_token a, as_at a)) xs"
    "\<exists>a\<in>set ys. as_token a = token \<and> \<not> as_pending a"
    "\<And>a. a \<in> set xs \<Longrightarrow> as_token a \<noteq> token \<Longrightarrow> a \<in> set ys"
  using assms by (induction xs arbitrary: ys) (auto split: if_splits)

lemma confirm_sends_back:
  assumes "confirm_sends token e xs = Some (ys, was)" "a \<in> set ys"
  shows "\<exists>b\<in>set xs. as_token b = as_token a \<and> as_at b = as_at a"
proof -
  have "(as_token a, as_at a) \<in> set (map (\<lambda>a. (as_token a, as_at a)) ys)"
    using assms(2) by simp
  then show ?thesis unfolding confirm_sends_Some(1) [OF assms(1)] by auto
qed

section \<open>The budget over a run\<close>

text \<open>
  A grant is an answer \<open>Auto\<close> of \<open>reserve\<close>.  A run threads the policy file through the operations of
  the clients, in any order and with any failures of the file system, and collects the grants that were
  not cancelled; a grant is confirmed by a successful \<open>confirm\<close>.  The clock does not go backwards and
  the tokens are fresh.
\<close>

record grant_rec =
  gr_did :: string
  gr_token :: string
  gr_at :: string
  gr_confirmed :: bool

definition mark_confirmed :: "string \<Rightarrow> string \<Rightarrow> grant_rec list \<Rightarrow> grant_rec list" where
  "mark_confirmed did token = map (\<lambda>g. if gr_did g = did \<and> gr_token g = token then g\<lparr>gr_confirmed := True\<rparr> else g)"

definition drop_cancelled :: "string \<Rightarrow> string \<Rightarrow> grant_rec list \<Rightarrow> grant_rec list" where
  "drop_cancelled did token = filter (\<lambda>g. \<not> (gr_did g = did \<and> gr_token g = token \<and> \<not> gr_confirmed g))"

definition granted :: "(string, reservation) result \<Rightarrow> bool" where
  "granted r = (case r of Inl _ \<Rightarrow> False | Inr v \<Rightarrow> rv_decision v = Auto)"

definition fresh_token :: "string \<Rightarrow> policy_file \<Rightarrow> grant_rec list \<Rightarrow> bool" where
  "fresh_token token f gs \<longleftrightarrow> token \<notin> gr_token ` set gs \<and> token \<notin> as_token ` set (all_sends (load_policy f))"

inductive policy_run :: "(string \<Rightarrow> int option) \<Rightarrow> policy_file \<Rightarrow> grant_rec list \<Rightarrow> int \<Rightarrow> bool" for tm where
  run_start: "policy_ok (load_policy f) \<Longrightarrow> policy_run tm f [] t"
| run_reserve: "policy_run tm f gs t \<Longrightarrow> tm now = Some t' \<Longrightarrow> t \<le> t' \<Longrightarrow> fresh_token token f gs \<Longrightarrow>
    reserve tm token io did thread received now f = (f', r) \<Longrightarrow>
    policy_run tm f' (if granted r then \<lparr>gr_did = did, gr_token = token, gr_at = now, gr_confirmed = False\<rparr> # gs else gs) t'"
| run_confirm: "policy_run tm f gs t \<Longrightarrow> tm now = Some t' \<Longrightarrow> t \<le> t' \<Longrightarrow>
    confirm io did token envelope_id thread_id now f = (f', r) \<Longrightarrow>
    policy_run tm f' (if r = Inr () then mark_confirmed did token gs else gs) t'"
| run_cancel: "policy_run tm f gs t \<Longrightarrow> cancel io did token f = (f', r) \<Longrightarrow>
    policy_run tm f' (if r = Inr () then drop_cancelled did token gs else gs) t"
| run_dial: "policy_run tm f gs t \<Longrightarrow> set_autonomy io did v f = (f', r) \<Longrightarrow> policy_run tm f' gs t"

text \<open>Every grant that is confirmed and within a day, or within the time of a pending record, has a record
  that is at least as young.\<close>

definition tracked :: "(string \<Rightarrow> int option) \<Rightarrow> (string \<Rightarrow> auto_send list) \<Rightarrow> int \<Rightarrow> grant_rec \<Rightarrow> bool" where
  "tracked tm S t g \<longleftrightarrow> (\<exists>x. tm (gr_at g) = Some x \<and> x \<le> t
     \<and> (\<forall>a\<in>set (S (gr_did g)). as_token a = gr_token g \<longrightarrow> (\<exists>y. tm (as_at a) = Some y \<and> x \<le> y \<and> y \<le> t))
     \<and> ((if gr_confirmed g then t - x < 86401000000000 else t - x < 901000000000) \<longrightarrow>
        (\<exists>a\<in>set (S (gr_did g)). as_token a = gr_token g \<and> (gr_confirmed g \<longrightarrow> \<not> as_pending a))))"

lemma tracked_later:
  assumes "tracked tm S t g" "t \<le> t'"
  shows "tracked tm S t' g"
  using assms unfolding tracked_def by (fastforce split: if_splits)

lemma tracked_prune:
  assumes "tracked tm S t g" "t \<le> t'" "tm now = Some t'"
  shows "tracked tm (\<lambda>d. filter (keep_send tm now) (S d)) t' g"
proof -
  obtain x where x: "tm (gr_at g) = Some x" "x \<le> t"
    "\<And>a. a \<in> set (S (gr_did g)) \<Longrightarrow> as_token a = gr_token g \<Longrightarrow> \<exists>y. tm (as_at a) = Some y \<and> x \<le> y \<and> y \<le> t"
    "(if gr_confirmed g then t - x < 86401000000000 else t - x < 901000000000) \<Longrightarrow>
        \<exists>a\<in>set (S (gr_did g)). as_token a = gr_token g \<and> (gr_confirmed g \<longrightarrow> \<not> as_pending a)"
    using assms(1) unfolding tracked_def by blast
  have "\<exists>a\<in>set (filter (keep_send tm now) (S (gr_did g))). as_token a = gr_token g \<and> (gr_confirmed g \<longrightarrow> \<not> as_pending a)"
    if live: "if gr_confirmed g then t' - x < 86401000000000 else t' - x < 901000000000"
  proof -
    have "if gr_confirmed g then t - x < 86401000000000 else t - x < 901000000000"
      using live assms(2) by (simp split: if_splits)
    then obtain a where a: "a \<in> set (S (gr_did g))" "as_token a = gr_token g" "gr_confirmed g \<longrightarrow> \<not> as_pending a"
      using x(4) by blast
    obtain y where "tm (as_at a) = Some y" "x \<le> y" "y \<le> t"
      using x(3) [OF a(1,2)] by blast
    then have "keep_send tm now a"
      using live assms(2,3) a(3) by (auto simp: keep_send_def within_iff split: if_splits)
    then show ?thesis using a by auto
  qed
  then show ?thesis
    using x(1-3) assms(2) unfolding tracked_def by (intro exI [of _ x]) fastforce
qed

lemma tracked_sends:
  assumes "tracked tm S t g" "gr_did g' = gr_did g" "gr_token g' = gr_token g" "gr_at g' = gr_at g"
    and "\<And>a. a \<in> set (S' (gr_did g)) \<Longrightarrow> as_token a = gr_token g \<Longrightarrow>
        tm (as_at a) = Some t \<or> (\<exists>b\<in>set (S (gr_did g)). as_token b = gr_token g \<and> as_at b = as_at a)"
    and "(gr_confirmed g' \<longrightarrow> gr_confirmed g) \<and> (\<forall>a\<in>set (S (gr_did g)). as_token a = gr_token g \<longrightarrow>
          (gr_confirmed g \<longrightarrow> \<not> as_pending a) \<longrightarrow> a \<in> set (S' (gr_did g)))
      \<or> (\<exists>a\<in>set (S' (gr_did g)). as_token a = gr_token g \<and> \<not> as_pending a)"
    and "gr_confirmed g \<longrightarrow> gr_confirmed g'"
  shows "tracked tm S' t g'"
proof -
  obtain x where x: "tm (gr_at g) = Some x" "x \<le> t"
    "\<And>a. a \<in> set (S (gr_did g)) \<Longrightarrow> as_token a = gr_token g \<Longrightarrow> \<exists>y. tm (as_at a) = Some y \<and> x \<le> y \<and> y \<le> t"
    "(if gr_confirmed g then t - x < 86401000000000 else t - x < 901000000000) \<Longrightarrow>
        \<exists>a\<in>set (S (gr_did g)). as_token a = gr_token g \<and> (gr_confirmed g \<longrightarrow> \<not> as_pending a)"
    using assms(1) unfolding tracked_def by blast
  have "\<exists>y. tm (as_at a) = Some y \<and> x \<le> y \<and> y \<le> t" if "a \<in> set (S' (gr_did g))" "as_token a = gr_token g" for a
    using assms(5) [OF that] x(2,3) by force
  moreover have "\<exists>a\<in>set (S' (gr_did g)). as_token a = gr_token g \<and> (gr_confirmed g' \<longrightarrow> \<not> as_pending a)"
    if "if gr_confirmed g' then t - x < 86401000000000 else t - x < 901000000000"
    using that assms(6,7) x(4) by (cases "gr_confirmed g"; cases "gr_confirmed g'") (simp_all, (blast | force)+)
  ultimately show ?thesis
    using x(1,2) unfolding tracked_def assms(2-4) by blast
qed

definition run_inv :: "(string \<Rightarrow> int option) \<Rightarrow> policy_file \<Rightarrow> grant_rec list \<Rightarrow> int \<Rightarrow> bool" where
  "run_inv tm f gs t \<longleftrightarrow> policy_ok (load_policy f) \<and> distinct (map gr_token gs)
     \<and> (\<forall>g\<in>set gs. tracked tm (sends_of (load_policy f)) t g)"

lemma run_inv_later: "run_inv tm f gs t \<Longrightarrow> t \<le> t' \<Longrightarrow> run_inv tm f gs t'"
  by (auto simp: run_inv_def intro: tracked_later)

lemma load_Some [simp]: "load_policy (Some p) = p"
  by (simp add: load_policy_def)

lemma reserve_cases:
  assumes "reserve tm token io did thread received now f = (f', r)"
  obtains (failed) e where "f' = f" "r = Inl e"
  | (auto) send where "decide tm (fst (prune tm now (load_policy f))) did thread received now = (Auto, ''auto'')"
      "f' = Some (put_contact did ((entry_or_default (fst (prune tm now (load_policy f))) did)
         \<lparr>auto_sends := sends_of (fst (prune tm now (load_policy f))) did @ [send]\<rparr>) (fst (prune tm now (load_policy f))))"
      "granted r" "as_token send = token" "as_at send = now" "as_pending send"
  | (other) "\<not> granted r" "f' = f \<or> f' = Some (fst (prune tm now (load_policy f)))"
proof -
  obtain p pr where p: "prune tm now (load_policy f) = (p, pr)" by (cases "prune tm now (load_policy f)")
  obtain d why where d: "decide tm p did thread received now = (d, why)" by (cases "decide tm p did thread received now")
  have why: "d = Auto \<Longrightarrow> why = ''auto''"
    using d by (auto simp: decide_def split: autonomy.splits if_splits)
  show ?thesis
  proof (cases "d = Auto")
    case True
    let ?s = "\<lparr>as_token = token, as_envelope_id = [],
              as_thread_id = (case thread of None \<Rightarrow> [] | Some t \<Rightarrow> t), as_at = now, as_pending = True\<rparr>"
    show ?thesis
    proof (cases io)
      case True
      then have "f' = Some (put_contact did ((entry_or_default p did)\<lparr>auto_sends := sends_of p did @ [?s]\<rparr>) p)"
        "granted r"
        using assms \<open>d = Auto\<close> d p by (auto simp: reserve_def Let_def write_policy_def granted_def)
      then show ?thesis
        using d why \<open>d = Auto\<close> by (intro auto [of ?s]) (simp_all add: p)
    next
      case False
      then show ?thesis
        using assms \<open>d = Auto\<close> d p by (intro failed) (auto simp: reserve_def Let_def write_policy_def)
    qed
  next
    case False
    then show ?thesis
      using failed other assms d p
      by (auto simp: reserve_def Let_def write_policy_def granted_def split: if_splits)
  qed
qed

lemma run_inv_prune:
  assumes "run_inv tm f gs t" "t \<le> t'" "tm now = Some t'"
  shows "run_inv tm (Some (fst (prune tm now (load_policy f)))) gs t'"
proof -
  have "sends_of (fst (prune tm now (load_policy f))) = (\<lambda>d. filter (keep_send tm now) (sends_of (load_policy f) d))"
    by (rule ext) simp
  then show ?thesis
    using assms by (auto simp: run_inv_def intro: tracked_prune)
qed

lemma run_inv_reserve:
  assumes inv: "run_inv tm f gs t" and t: "tm now = Some t'" "t \<le> t'" and fresh: "fresh_token token f gs"
    and run: "reserve tm token io did thread received now f = (f', r)"
  shows "run_inv tm f' (if granted r then \<lparr>gr_did = did, gr_token = token, gr_at = now, gr_confirmed = False\<rparr> # gs else gs) t'"
  using run
proof (cases rule: reserve_cases)
  case (failed e)
  then show ?thesis using run_inv_later [OF inv t(2)] by (simp add: granted_def)
next
  case other
  then show ?thesis using run_inv_later [OF inv t(2)] run_inv_prune [OF inv t(2,1)] by auto
next
  case (auto send)
  let ?p = "fst (prune tm now (load_policy f))"
  have pinv: "run_inv tm (Some ?p) gs t'" by (rule run_inv_prune [OF inv t(2,1)])
  have ok: "policy_ok ?p" using pinv by (simp add: run_inv_def)
  have S: "sends_of (load_policy f') d = (if d = did then sends_of ?p did @ [send] else sends_of ?p d)" for d
    using ok by (simp add: auto(2))
  have "tracked tm (sends_of (load_policy f')) t' g" if g: "g \<in> set gs" for g
  proof (rule tracked_sends [where g = g and S = "sends_of ?p"])
    show "tracked tm (sends_of ?p) t' g" using pinv g by (simp add: run_inv_def del: sends_prune)
    have ne: "gr_token g \<noteq> as_token send"
      using fresh imageI [OF g, of gr_token] auto(4) by (auto simp: fresh_token_def)
    fix a
    assume "a \<in> set (sends_of (load_policy f') (gr_did g))" "as_token a = gr_token g"
    then show "tm (as_at a) = Some t' \<or> (\<exists>b\<in>set (sends_of ?p (gr_did g)). as_token b = gr_token g \<and> as_at b = as_at a)"
      using ne by (auto simp: S split: if_splits)
  qed (auto simp: S)
  moreover have "tracked tm (sends_of (load_policy f')) t' \<lparr>gr_did = did, gr_token = token, gr_at = now, gr_confirmed = False\<rparr>"
  proof -
    have "as_token a \<noteq> token" if "a \<in> set (sends_of ?p did)" for a
      using fresh that sends_of_all [of a "load_policy f" did] by (auto simp: fresh_token_def)
    then show ?thesis
      using auto(4,5,6) t(1) by (auto simp: tracked_def S)
  qed
  ultimately show ?thesis
    using pinv fresh auto(2,3) ok by (auto simp: run_inv_def fresh_token_def)
qed

lemma write_policy_cases:
  assumes "write_policy io p f = (f', r)"
  obtains "f' = f" "r \<noteq> Inr ()" | "f' = Some p" "r = Inr ()"
  using assms by (cases io) (auto simp: write_policy_def)

lemma token_mark [simp]: "map gr_token (mark_confirmed did token gs) = map gr_token gs"
  by (simp add: mark_confirmed_def)

lemma run_inv_confirm:
  assumes inv: "run_inv tm f gs t" and t: "tm now = Some t'" "t \<le> t'"
    and run: "confirm io did token envelope_id thread_id now f = (f', r)"
  shows "run_inv tm f' (if r = Inr () then mark_confirmed did token gs else gs) t'"
proof -
  let ?p = "load_policy f"
  have later: "run_inv tm f gs t'" by (rule run_inv_later [OF inv t(2)])
  obtain sends is_new where s: "(case confirm_sends token envelope_id (sends_of ?p did) of
             Some r \<Rightarrow> r
           | None \<Rightarrow> (sends_of ?p did @ [\<lparr>as_token = token, as_envelope_id = envelope_id, as_thread_id = thread_id,
               as_at = now, as_pending = False\<rparr>], True)) = (sends, is_new)"
    by (metis surj_pair)
  have conf: "\<exists>a\<in>set sends. as_token a = token \<and> \<not> as_pending a"
    and keep: "\<And>a. a \<in> set (sends_of ?p did) \<Longrightarrow> as_token a \<noteq> token \<Longrightarrow> a \<in> set sends"
    and backw: "\<And>a. a \<in> set sends \<Longrightarrow> tm (as_at a) = Some t' \<and> as_token a = token
        \<or> (\<exists>b\<in>set (sends_of ?p did). as_token b = as_token a \<and> as_at b = as_at a)"
    using s confirm_sends_Some(2,3) confirm_sends_back t(1) by (auto split: option.splits)
  show ?thesis
    using run unfolding confirm_def Let_def sends_entry s prod.case
  proof (cases rule: write_policy_cases)
    case 1
    then show ?thesis using later by simp
  next
    case 2
    have ok: "policy_ok ?p" using inv by (simp add: run_inv_def)
    have S: "sends_of (load_policy f') d = (if d = did then sends else sends_of ?p d)" for d
      using ok by (simp add: 2)
    have "tracked tm (sends_of (load_policy f')) t' (if gr_did g = did \<and> gr_token g = token then g\<lparr>gr_confirmed := True\<rparr> else g)"
      if g: "g \<in> set gs" for g
    proof (rule tracked_sends [where g = g and S = "sends_of ?p"])
      show "tracked tm (sends_of ?p) t' g" using later g by (simp add: run_inv_def)
      fix a
      assume "a \<in> set (sends_of (load_policy f') (gr_did g))" "as_token a = gr_token g"
      then show "tm (as_at a) = Some t' \<or> (\<exists>b\<in>set (sends_of ?p (gr_did g)). as_token b = gr_token g \<and> as_at b = as_at a)"
        using backw by (fastforce simp: S split: if_splits)
    qed (use conf keep in \<open>auto simp: S\<close>)
    then have "\<forall>g\<in>set (mark_confirmed did token gs). tracked tm (sends_of (load_policy f')) t' g"
      unfolding mark_confirmed_def set_map by blast
    moreover have "policy_ok (load_policy f')" using ok by (simp add: 2)
    ultimately show ?thesis
      using later 2(2) by (simp add: run_inv_def)
  qed
qed

lemma run_inv_cancel:
  assumes inv: "run_inv tm f gs t" and run: "cancel io did token f = (f', r)"
  shows "run_inv tm f' (if r = Inr () then drop_cancelled did token gs else gs) t"
  using run unfolding cancel_def Let_def
proof (cases rule: write_policy_cases)
  case 1
  then show ?thesis using inv by simp
next
  case 2
  let ?p = "load_policy f"
  let ?keep = "\<lambda>a. as_token a \<noteq> token \<or> \<not> as_pending a"
  have S: "sends_of (load_policy f') d = (if d = did then filter ?keep (sends_of ?p d) else sends_of ?p d)" for d
    by (auto simp: 2 sends_modify) (simp add: sends_of_def)
  have "tracked tm (sends_of (load_policy f')) t g"
    if g: "g \<in> set (drop_cancelled did token gs)" for g
  proof (rule tracked_sends [where g = g and S = "sends_of ?p"])
    show "tracked tm (sends_of ?p) t g" using inv g by (simp add: run_inv_def drop_cancelled_def)
  qed (use g in \<open>auto simp: S drop_cancelled_def split: if_splits\<close>)
  then show ?thesis
    using inv 2 by (auto simp: run_inv_def drop_cancelled_def policy_ok_def distinct_map_filter)
qed

lemma run_inv_dial:
  assumes inv: "run_inv tm f gs t" and run: "set_autonomy io did v f = (f', r)"
  shows "run_inv tm f' gs t"
proof -
  have ok: "policy_ok (load_policy f)" using inv by (simp add: run_inv_def)
  have "f' = f \<or> f' = Some (put_contact did ((entry_or_default (load_policy f) did)\<lparr>ai_autonomy := v\<rparr>) (load_policy f))"
    using run by (auto simp: set_autonomy_def write_policy_def Let_def split: if_splits)
  moreover have "sends_of (put_contact did ((entry_or_default (load_policy f) did)\<lparr>ai_autonomy := v\<rparr>) (load_policy f))
      = sends_of (load_policy f)"
    using ok by (intro ext) simp
  ultimately show ?thesis using inv ok by (auto simp: run_inv_def)
qed

lemma policy_run_inv: "policy_run tm f gs t \<Longrightarrow> run_inv tm f gs t"
proof (induction rule: policy_run.induct)
  case (run_start f t)
  then show ?case by (simp add: run_inv_def)
qed (blast intro: run_inv_reserve run_inv_confirm run_inv_cancel run_inv_dial)+

definition held :: "(string \<Rightarrow> int option) \<Rightarrow> string \<Rightarrow> int \<Rightarrow> grant_rec \<Rightarrow> bool" where
  "held tm now secs g \<longleftrightarrow> within tm (gr_at g) now secs
     \<and> (gr_confirmed g \<or> within tm (gr_at g) now STALE_PENDING_SECS)"

lemma held_le_count:
  assumes "distinct (map gr_token gs)"
    and "\<And>g. g \<in> set gs \<Longrightarrow> Q g \<Longrightarrow> \<exists>a\<in>set xs. within tm (as_at a) now secs \<and> as_token a = gr_token g"
  shows "length (filter Q gs) \<le> count_within tm now secs xs"
proof -
  let ?P = "\<lambda>a. within tm (as_at a) now secs"
  have "length (filter Q gs) = card (gr_token ` set (filter Q gs))"
    using distinct_card [OF distinct_map_filter [OF assms(1)], of Q] by simp
  also have "\<dots> \<le> card (as_token ` set (filter ?P xs))"
    using assms(2) by (intro card_mono) (auto simp: image_iff, metis)
  also have "\<dots> \<le> length (filter ?P xs)"
    using card_image_le [OF finite_set] card_length order_trans by blast
  finally show ?thesis by (simp add: count_within_def)
qed

lemma tracked_within:
  assumes "tracked tm S t g" "tm now = Some t" "held tm now secs g"
    "0 \<le> secs" "secs \<le> RETENTION_SECS"
  shows "\<exists>a\<in>set (S (gr_did g)). within tm (as_at a) now secs \<and> as_token a = gr_token g"
proof -
  obtain x where x: "tm (gr_at g) = Some x" "x \<le> t"
    "\<And>a. a \<in> set (S (gr_did g)) \<Longrightarrow> as_token a = gr_token g \<Longrightarrow> \<exists>y. tm (as_at a) = Some y \<and> x \<le> y \<and> y \<le> t"
    "(if gr_confirmed g then t - x < 86401000000000 else t - x < 901000000000) \<Longrightarrow>
        \<exists>a\<in>set (S (gr_did g)). as_token a = gr_token g"
    using assms(1) unfolding tracked_def by blast
  have d: "t - x < (secs + 1) * 1000000000"
    using assms(2,3) x(1) by (auto simp: held_def within_iff)
  moreover have "(secs + 1) * 1000000000 \<le> 86401000000000"
    using assms(5) by simp
  ultimately have "if gr_confirmed g then t - x < 86401000000000 else t - x < 901000000000"
    using assms(2,3) x(1) by (auto simp: held_def within_iff)
  then obtain a where a: "a \<in> set (S (gr_did g))" "as_token a = gr_token g"
    using x(4) by blast
  obtain y where "tm (as_at a) = Some y" "x \<le> y" "y \<le> t"
    using x(3) [OF a] by blast
  then have "within tm (as_at a) now secs"
    using d assms(2,4) by (auto simp: within_iff)
  then show ?thesis using a by blast
qed

text \<open>C12. The auto-send budget: whatever the clients did before, in any order and with any failed writes,
  when a reservation is granted there were, among the grants that were confirmed or are young enough to
  be pending, fewer than three to this contact within the hour, fewer than ten within the day, and fewer
  than thirty to anyone within the day.\<close>

theorem auto_budget:
  assumes "policy_run tm f gs t" and "tm now = Some t'" and "t \<le> t'"
    and "reserve tm token io did thread received now f = (f', r)" and "granted r"
  shows "length (filter (\<lambda>g. gr_did g = did \<and> held tm now HOURLY_WINDOW_SECS g) gs) < PER_CONTACT_HOURLY
    \<and> length (filter (\<lambda>g. gr_did g = did \<and> held tm now RETENTION_SECS g) gs) < PER_CONTACT_DAILY
    \<and> length (filter (held tm now RETENTION_SECS) gs) < GLOBAL_DAILY"
proof -
  let ?p = "fst (prune tm now (load_policy f))"
  have dec: "decide tm ?p did thread received now = (Auto, ''auto'')"
    using assms(4,5) by (rule_tac reserve_cases [OF assms(4)]) (auto simp: granted_def)
  have inv: "run_inv tm (Some ?p) gs t'"
    by (rule run_inv_prune [OF policy_run_inv [OF assms(1)] assms(3,2)])
  then have dist: "distinct (map gr_token gs)" and tr: "\<And>g. g \<in> set gs \<Longrightarrow> tracked tm (sends_of ?p) t' g"
    by (simp_all add: run_inv_def del: sends_prune)
  have one: "length (filter (\<lambda>g. gr_did g = did \<and> held tm now secs g) gs) \<le> count_within tm now secs (sends_of ?p did)"
    if "0 \<le> secs" "secs \<le> RETENTION_SECS" for secs
    using tracked_within [OF tr assms(2) _ that] by (intro held_le_count [OF dist]) auto
  have all: "length (filter (held tm now RETENTION_SECS) gs) \<le> count_within tm now RETENTION_SECS (all_sends ?p)"
  proof (rule held_le_count [OF dist])
    fix g
    assume g: "g \<in> set gs" "held tm now RETENTION_SECS g"
    obtain a where "a \<in> set (sends_of ?p (gr_did g))" "within tm (as_at a) now RETENTION_SECS" "as_token a = gr_token g"
      using tracked_within [OF tr [OF g(1)] assms(2) g(2)] by auto
    then show "\<exists>a\<in>set (all_sends ?p). within tm (as_at a) now RETENTION_SECS \<and> as_token a = gr_token g"
      using sends_of_all by blast
  qed
  have "count_within tm now HOURLY_WINDOW_SECS (sends_of ?p did) < PER_CONTACT_HOURLY"
    "count_within tm now RETENTION_SECS (sends_of ?p did) < PER_CONTACT_DAILY"
    "count_within tm now RETENTION_SECS (all_sends ?p) < GLOBAL_DAILY"
    using dec unfolding decide_def by (auto simp del: sends_prune split: autonomy.splits if_splits)
  then show ?thesis
    using one [of HOURLY_WINDOW_SECS] one [of RETENTION_SECS] all by simp
qed

section \<open>Late acknowledgements\<close>

definition demo_tm :: "string \<Rightarrow> int option" where
  "demo_tm s = (case s of [c] \<Rightarrow> Some (100000000000 * of_char c) | _ \<Rightarrow> None)"

definition demo_reserve :: "string \<Rightarrow> string \<Rightarrow> policy_file \<Rightarrow> policy_file" where
  "demo_reserve token now f = fst (reserve demo_tm token True ''d'' None now now f)"

definition demo_policy :: policy_file where
  "demo_policy = fst (set_autonomy True ''d'' Auto None)"

definition late_acks ::
    "string \<Rightarrow> (string \<Rightarrow> string) \<Rightarrow> string \<Rightarrow> string \<Rightarrow> string list \<Rightarrow> policy_file \<Rightarrow> policy_file" where
  "late_acks did out th now toks f = fold (\<lambda>tok f. fst (confirm True did tok (out tok) th now f)) toks f"

lemma confirm_unknown:
  assumes "policy_ok (load_policy f)" "tok \<notin> as_token ` set (sends_of (load_policy f) did)"
  shows "\<exists>f'. confirm True did tok out th now f = (f', Inr ()) \<and> policy_ok (load_policy f') \<and>
    sends_of (load_policy f') did = sends_of (load_policy f) did @
      [\<lparr>as_token = tok, as_envelope_id = out, as_thread_id = th, as_at = now, as_pending = False\<rparr>]"
  using assms iffD2 [OF confirm_sends_None assms(2)]
  by (simp add: confirm_def Let_def write_policy_def load_policy_def)

lemma late_acks_sends:
  assumes "policy_ok (load_policy f)" "distinct toks"
    "set toks \<inter> as_token ` set (sends_of (load_policy f) did) = {}"
  shows "sends_of (load_policy (late_acks did out th now toks f)) did = sends_of (load_policy f) did @
    map (\<lambda>tok. \<lparr>as_token = tok, as_envelope_id = out tok, as_thread_id = th, as_at = now, as_pending = False\<rparr>) toks"
  using assms
proof (induction toks arbitrary: f)
  case Nil
  then show ?case by (simp add: late_acks_def)
next
  case (Cons tok toks)
  obtain f' where f': "confirm True did tok (out tok) th now f = (f', Inr ())" "policy_ok (load_policy f')"
    "sends_of (load_policy f') did = sends_of (load_policy f) did @
      [\<lparr>as_token = tok, as_envelope_id = out tok, as_thread_id = th, as_at = now, as_pending = False\<rparr>]"
  proof -
    have "tok \<notin> as_token ` set (sends_of (load_policy f) did)" using Cons.prems(3) by auto
    from confirm_unknown [OF Cons.prems(1) this, of "out tok" th now] that show ?thesis by blast
  qed
  have "sends_of (load_policy (late_acks did out th now toks f')) did = sends_of (load_policy f') did @
    map (\<lambda>tok. \<lparr>as_token = tok, as_envelope_id = out tok, as_thread_id = th, as_at = now, as_pending = False\<rparr>) toks"
    using Cons.prems f'(2,3) by (intro Cons.IH) auto
  then show ?case by (simp add: late_acks_def f')
qed

lemma granted_sends:
  assumes "reserve tm token io did th received now f = (f1, r)" "granted r" "policy_ok (load_policy f)"
  obtains send where "policy_ok (load_policy f1)" "as_token send = token"
    "sends_of (load_policy f1) did = filter (keep_send tm now) (sends_of (load_policy f) did) @ [send]"
  using assms(1)
proof (cases rule: reserve_cases)
  case (auto send)
  then show ?thesis
    using assms(3) that [of send] by (simp add: load_policy_def)
qed (use assms(2) in \<open>simp_all add: granted_def\<close>)

text \<open>C21. The budget does not bind late acknowledgements.  Whatever the file holds: once a reservation is granted,
  every older one that was pending for more than fifteen minutes is gone from the file, and any number of
  acknowledgements of such reservations are then accepted one after the other without a look at the caps.
  Each one adds a confirmed send to the hour, on top of the reservations that the caps did count.\<close>

theorem late_acks_exceed_cap:
  assumes "policy_ok (load_policy f)"
    and "reserve tm token True did th received now f = (f1, r)" and "granted r"
    and "distinct toks" and "token \<notin> set toks"
    and "\<forall>a\<in>set (sends_of (load_policy f) did). as_token a \<in> set toks \<longrightarrow>
      as_pending a \<and> \<not> within tm (as_at a) now STALE_PENDING_SECS"
    and "tm now' = Some t"
  shows "count_within tm now' HOURLY_WINDOW_SECS (sends_of (load_policy (late_acks did out th' now' toks f1)) did)
      = count_within tm now' HOURLY_WINDOW_SECS (sends_of (load_policy f1) did) + length toks
    \<and> (\<forall>tok\<in>set toks. \<exists>a\<in>set (sends_of (load_policy (late_acks did out th' now' toks f1)) did).
        as_token a = tok \<and> \<not> as_pending a)"
proof -
  obtain send where g: "policy_ok (load_policy f1)" "as_token send = token"
    "sends_of (load_policy f1) did = filter (keep_send tm now) (sends_of (load_policy f) did) @ [send]"
    using assms(2,3,1) by (rule granted_sends)
  have "set toks \<inter> as_token ` set (sends_of (load_policy f1) did) = {}"
    using assms(5,6) by (auto simp: g(2,3) keep_send_def)
  note s = late_acks_sends [OF g(1) assms(4) this, of out th' now']
  have "within tm now' now' HOURLY_WINDOW_SECS"
    using assms(7) by (simp add: within_iff)
  then have "count_within tm now' HOURLY_WINDOW_SECS (map (\<lambda>tok. \<lparr>as_token = tok, as_envelope_id = out tok,
      as_thread_id = th', as_at = now', as_pending = False\<rparr>) toks) = length toks"
    by (simp add: count_within_def filter_map comp_def)
  then show ?thesis by (force simp: s count_within_def)
qed

section \<open>Witnesses\<close>

definition demo_one :: policy_file where
  "demo_one = demo_reserve ''1'' ''a'' demo_policy"

lemma demo_run: "policy_run demo_tm demo_one
    [\<lparr>gr_did = ''d'', gr_token = ''1'', gr_at = ''a'', gr_confirmed = False\<rparr>] 9700000000000"
proof -
  have "policy_ok (load_policy demo_policy)" by code_simp
  then have start: "policy_run demo_tm demo_policy [] 0" by (rule run_start)
  let ?r = "reserve demo_tm ''1'' True ''d'' None ''a'' ''a'' demo_policy"
  have "granted (snd ?r)" "fresh_token ''1'' demo_policy []" "demo_tm ''a'' = Some 9700000000000" by code_simp+
  then show ?thesis
    using run_reserve [OF start, of "''a''" 9700000000000 "''1''" True "''d''" None "''a''" "fst ?r" "snd ?r"]
    by (simp add: demo_one_def demo_reserve_def)
qed

theorem auto_budget_witness:
  "granted (snd (reserve demo_tm ''2'' True ''d'' None ''b'' ''b'' demo_one)) \<and>
   length (filter (\<lambda>g. gr_did g = ''d'' \<and> held demo_tm ''b'' HOURLY_WINDOW_SECS g)
     [\<lparr>gr_did = ''d'', gr_token = ''1'', gr_at = ''a'', gr_confirmed = False\<rparr>]) < PER_CONTACT_HOURLY"
proof -
  let ?r = "reserve demo_tm ''2'' True ''d'' None ''b'' ''b'' demo_one"
  have g: "granted (snd ?r)" by code_simp
  have "demo_tm ''b'' = Some 9800000000000" by code_simp
  then show ?thesis
    using auto_budget [OF demo_run, of "''b''" 9800000000000 "''2''" True "''d''" None "''b''" "fst ?r" "snd ?r"] g
    by simp
qed

text \<open>Three reservations at one time, three more past the fifteen minutes, and then the acknowledgements of the first
  three: six sends count for the hour whose cap is three.\<close>

definition demo_waves :: policy_file where
  "demo_waves = fold (\<lambda>k. demo_reserve k ''k'') [''4'', ''5''] (fold (\<lambda>k. demo_reserve k ''a'') [''1'', ''2'', ''3''] demo_policy)"

theorem late_acks_exceed_cap_witness:
  "count_within demo_tm ''k'' HOURLY_WINDOW_SECS (sends_of (load_policy
     (late_acks ''d'' (\<lambda>tok. tok) ''th'' ''k'' [''1'', ''2'', ''3''] (demo_reserve ''6'' ''k'' demo_waves))) ''d'') = 6"
proof -
  let ?r = "reserve demo_tm ''6'' True ''d'' None ''k'' ''k'' demo_waves"
  have "?r = (fst ?r, snd ?r)" by simp
  note * = late_acks_exceed_cap [OF _ this, of "[''1'', ''2'', ''3'']" "''k''" _ "\<lambda>tok. tok" "''th''"]
  have "policy_ok (load_policy demo_waves)" "granted (snd ?r)" "distinct [''1'', ''2'', ''3'' :: string]"
    "''6'' \<notin> set [''1'', ''2'', ''3'']"
    "\<forall>a\<in>set (sends_of (load_policy demo_waves) ''d''). as_token a \<in> set [''1'', ''2'', ''3''] \<longrightarrow>
      as_pending a \<and> \<not> within demo_tm (as_at a) ''k'' STALE_PENDING_SECS"
    "demo_tm ''k'' = Some 10700000000000"
    by code_simp+
  moreover have "count_within demo_tm ''k'' HOURLY_WINDOW_SECS (sends_of (load_policy (fst ?r)) ''d'') = 3" by code_simp
  ultimately show ?thesis
    using * by (simp add: demo_reserve_def)
qed

end
