(* ===== verification/Replay.thy ===== *)
theory Replay
  imports Actuator
begin

text \<open>
  The inbox side of \<open>air-rs/src/inbox\<close>: the read-only stores (\<open>stores.rs\<close>, parsed by the JSON library),
  identity adoption, the channel gate, the archive queries of \<open>archive_reader.rs\<close> over a table of rows,
  and the \<open>Replayer\<close> of \<open>replay.rs\<close>, whose page loop is proved equal to one pass over the whole hole.
\<close>

section \<open>Messages and stores\<close>

record message =
  ms_seq :: int
  ms_relay_seq :: int
  ms_envelope_id :: string
  ms_from :: string
  ms_verified :: bool
  ms_encrypted :: bool
  ms_received_at :: string
  ms_contact :: "string option"
  ms_key_changed :: "bool option"
  ms_thread_id :: "string option"
  ms_room_id :: "string option"
  ms_body :: "json option"

definition key_changed :: "message \<Rightarrow> bool" where
  "key_changed m \<longleftrightarrow> ms_key_changed m = Some True"

fun split_at :: "string \<Rightarrow> string \<Rightarrow> string option" where
  "split_at pat [] = (if pat = [] then Some [] else None)"
| "split_at pat (c # s) = (if prefix pat (c # s) then Some (drop (length pat) (c # s)) else split_at pat s)"

text \<open>\<open>short_peer\<close>: the AIR id inside a DID, or the DID.\<close>

definition short_peer :: "string \<Rightarrow> string" where
  "short_peer did = (case split_at ''AIR-'' did of None \<Rightarrow> did
     | Some rest \<Rightarrow> let tl = takeWhile (\<lambda>c. is_alnum c \<or> c = CHR ''-'') rest
         in if tl = [] then did else ''AIR-'' @ tl)"

record contact =
  ct_alias :: "string option"
  ct_air_id :: "string option"
  ct_key :: "string option"
  ct_name :: "string option"
  ct_username :: "string option"
  ct_verified_at_pin :: bool

record identity_meta =
  id_did :: string
  id_name :: "string option"

text \<open>The parsed files of the daemon home; \<open>None\<close> is a file that is missing or does not parse.\<close>

record home =
  h_contacts :: "(string \<times> contact) list option"
  h_blocklist :: "json option"
  h_identity :: "identity_meta option"

definition get_contact_by_did :: "home \<Rightarrow> string \<Rightarrow> contact option" where
  "get_contact_by_did h did = Option.bind (h_contacts h) (\<lambda>cs. map_of cs did)"

record contact_view =
  cv_did :: string
  cv_alias :: "string option"
  cv_name :: "string option"
  cv_username :: "string option"
  cv_verified_at_pin :: bool

definition list_contacts :: "home \<Rightarrow> contact_view list" where
  "list_contacts h = (case h_contacts h of None \<Rightarrow> []
     | Some cs \<Rightarrow> sort_key cv_did (map (\<lambda>(did, c). \<lparr>cv_did = did, cv_alias = ct_alias c, cv_name = ct_name c,
         cv_username = ct_username c, cv_verified_at_pin = ct_verified_at_pin c\<rparr>) cs))"

definition is_blocked :: "home \<Rightarrow> string \<Rightarrow> bool" where
  "is_blocked h did = (case Option.bind (h_blocklist h) (\<lambda>v. json_get v ''blocked'') of None \<Rightarrow> False
     | Some b \<Rightarrow> json_get b did \<noteq> None)"

text \<open>\<open>parse_mute_set\<close> over the value of \<open>AIRMSG_MUTE\<close>.\<close>

fun split_comma :: "string \<Rightarrow> string \<Rightarrow> string list" where
  "split_comma acc [] = [rev acc]"
| "split_comma acc (c # s) = (if c = CHR '','' then rev acc # split_comma [] s else split_comma (c # acc) s)"

definition parse_mute_set :: "(string \<Rightarrow> string) \<Rightarrow> string option \<Rightarrow> string set" where
  "parse_mute_set trim v =
     set (filter (\<lambda>s. s \<noteq> []) (map trim (split_comma [] (case v of None \<Rightarrow> [] | Some s \<Rightarrow> s))))"

datatype adoption = Adopted string string "string option" "string option" | NeedsDaemon

definition adopt :: "home \<Rightarrow> string option \<Rightarrow> adoption" where
  "adopt h prior = (case h_identity h of None \<Rightarrow> NeedsDaemon
     | Some m \<Rightarrow> Adopted (id_did m) (short_peer (id_did m)) (id_name m)
         (case prior of None \<Rightarrow> None | Some d \<Rightarrow> if d \<noteq> id_did m then Some d else None))"

definition creation_allowed :: "home \<Rightarrow> bool" where
  "creation_allowed h \<longleftrightarrow> h_identity h = None"

section \<open>The gate\<close>

definition channel_gate :: "message \<Rightarrow> string set \<Rightarrow> bool" where
  "channel_gate m mute = (case ms_contact m of None \<Rightarrow> False
     | Some contact \<Rightarrow> contact \<noteq> [] \<and> ms_verified m \<and> \<not> key_changed m
         \<and> contact \<notin> mute \<and> ms_from m \<notin> mute \<and> short_peer (ms_from m) \<notin> mute)"

section \<open>The archive\<close>

record archive_row =
  ar_envelope_id :: string
  ar_direction :: string
  ar_thread_id :: string
  ar_peer_did :: string
  ar_from :: string
  ar_to :: string
  ar_timestamp :: string
  ar_body :: json
  ar_encrypted :: bool
  ar_verified :: bool
  ar_key_changed :: bool
  ar_spam :: bool
  ar_relay_seq :: "int option"
  ar_room_id :: "string option"
  ar_archived_at :: string

text \<open>\<open>LIKE '%:joined'\<close> of SQLite ignores the case of ASCII letters.\<close>

definition ascii_lower :: "char \<Rightarrow> char" where
  "ascii_lower c = (if 65 \<le> code c \<and> code c \<le> 90 then char_of (code c + 32) else c)"

definition like_joined :: "string \<Rightarrow> bool" where
  "like_joined s \<longleftrightarrow> suffix '':joined'' (map ascii_lower s)"

definition in_hole :: "int \<Rightarrow> archive_row \<Rightarrow> bool" where
  "in_hole since r \<longleftrightarrow> ar_direction r = ''received'' \<and> \<not> ar_spam r
     \<and> (case ar_relay_seq r of None \<Rightarrow> False | Some s \<Rightarrow> since < s) \<and> \<not> like_joined (ar_envelope_id r)"

definition seq_key :: "archive_row \<Rightarrow> int" where
  "seq_key r = (case ar_relay_seq r of None \<Rightarrow> 0 | Some s \<Rightarrow> s)"

text \<open>
  What one page read of a replay finds: the rows of the archive, the parsed home, and whether SQLite answers at
  all.  Other processes may write between two pages, so each page has a view of its own.
\<close>

record view =
  vw_failed :: bool
  vw_table :: "archive_row list"
  vw_home :: home

datatype archive_error = SqlErr

definition replay_since :: "view \<Rightarrow> int \<Rightarrow> nat \<Rightarrow> (archive_error, archive_row list) result" where
  "replay_since v since limit =
     (if vw_failed v then Inl SqlErr
      else Inr (take limit (sort_key seq_key (filter (in_hole since) (vw_table v)))))"

text \<open>\<open>parse::<i64>\<close> of the stored cursor is the argument.\<close>

definition get_cursor :: "(string \<Rightarrow> int option) \<Rightarrow> (string \<times> string) list \<Rightarrow> int" where
  "get_cursor parse_i64 meta =
     (case Option.bind (map_of meta ''pull_cursor'') parse_i64 of None \<Rightarrow> 0 | Some n \<Rightarrow> n)"

definition history :: "archive_row list \<Rightarrow> string option \<Rightarrow> string option \<Rightarrow> string option \<Rightarrow> string option
    \<Rightarrow> nat \<Rightarrow> bool \<Rightarrow> archive_row list" where
  "history table peer thread room before limit include_spam =
     take limit (rev (sort_key (\<lambda>r. (ar_timestamp r, ar_archived_at r)) (filter (\<lambda>r.
       (case peer of None \<Rightarrow> True | Some p \<Rightarrow> ar_peer_did r = p)
       \<and> (case thread of None \<Rightarrow> True | Some t \<Rightarrow> ar_thread_id r = t)
       \<and> (case room of None \<Rightarrow> True | Some m \<Rightarrow> ar_room_id r = Some m)
       \<and> (case before of None \<Rightarrow> True | Some b \<Rightarrow> ar_timestamp r < b)
       \<and> (include_spam \<or> \<not> ar_spam r)) table)))"

section \<open>The replayer\<close>

abbreviation "MAX_SEEN \<equiv> (1000 :: nat)"
abbreviation "PAGE_SIZE \<equiv> (500 :: nat)"

record replayer =
  rp_seen :: "string set"
  rp_order :: "string list"
  rp_mute :: "string set"

definition new_replayer :: "string set \<Rightarrow> replayer" where
  "new_replayer mute = \<lparr>rp_seen = {}, rp_order = [], rp_mute = mute\<rparr>"

definition remember_id :: "string \<Rightarrow> replayer \<Rightarrow> replayer" where
  "remember_id i r = (if i \<in> rp_seen r then r
     else let order = rp_order r @ [i]; seen = insert i (rp_seen r) in
       if length order > MAX_SEEN
       then r\<lparr>rp_seen := seen - {hd order}, rp_order := tl order\<rparr>
       else r\<lparr>rp_seen := seen, rp_order := order\<rparr>)"

definition live :: "message \<Rightarrow> replayer \<Rightarrow> replayer \<times> message option" where
  "live m r = (if ms_envelope_id m \<in> rp_seen r then (r, None)
     else (remember_id (ms_envelope_id m) r, if channel_gate m (rp_mute r) then Some m else None))"

definition row_to_message :: "home \<Rightarrow> archive_row \<Rightarrow> message" where
  "row_to_message h row = \<lparr>ms_seq = seq_key row, ms_relay_seq = seq_key row,
     ms_envelope_id = ar_envelope_id row, ms_from = ar_from row, ms_verified = ar_verified row,
     ms_encrypted = ar_encrypted row, ms_received_at = ar_archived_at row,
     ms_contact = (case Option.bind (get_contact_by_did h (ar_from row)) ct_alias of
        None \<Rightarrow> None | Some a \<Rightarrow> if a \<noteq> [] then Some a else None),
     ms_key_changed = (if ar_key_changed row then Some True else None),
     ms_thread_id = Some (ar_thread_id row), ms_room_id = ar_room_id row, ms_body = Some (ar_body row)\<rparr>"

definition replay_row :: "home \<Rightarrow> archive_row \<Rightarrow> replayer \<times> message list \<Rightarrow> replayer \<times> message list" where
  "replay_row h row = (\<lambda>(r, out).
     if is_blocked h (ar_from row) then (r, out)
     else if ar_envelope_id row \<in> rp_seen r then (r, out)
     else let m = row_to_message h row in
       (remember_id (ar_envelope_id row) r, if channel_gate m (rp_mute r) then out @ [m] else out))"

lemma in_hole_Some: "in_hole since row \<Longrightarrow> \<exists>s. ar_relay_seq row = Some s \<and> since < s"
  by (simp add: in_hole_def split: option.splits)

lemma full_page_advances:
  assumes "replay_since v since PAGE_SIZE = Inr rows" "\<not> length rows < PAGE_SIZE"
    and "ar_relay_seq (last rows) = Some s"
  shows "length (filter (in_hole s) (vw_table v)) < length (filter (in_hole since) (vw_table v))"
proof -
  let ?table = "vw_table v"
  have "rows \<noteq> []" using assms(2) by auto
  then have "last rows \<in> set (sort_key seq_key (filter (in_hole since) ?table))"
    using assms(1) by (auto simp: replay_since_def dest!: last_in_set in_set_takeD split: if_splits)
  then have mem: "last rows \<in> set ?table" "in_hole since (last rows)" by auto
  then have less: "since < s" using assms(3) in_hole_Some by force
  have "filter (in_hole s) ?table = filter (\<lambda>r. in_hole s r) (filter (in_hole since) ?table)"
    using less by (auto simp: in_hole_def intro!: filter_cong split: option.splits)
  moreover have "\<not> in_hole s (last rows)" using assms(3) by (simp add: in_hole_def)
  ultimately show ?thesis
    using length_filter_less [of "last rows" "filter (in_hole since) ?table" "in_hole s"] mem by simp
qed

text \<open>The page loop of \<open>gap\<close>, over the views that its reads find; the last one stands for all later reads.  The
  loop ends because each full page of a view moves the cursor past a row of the hole.  On a failed read \<open>?\<close>
  drops the messages collected so far, while their ids stay remembered.\<close>

function gap_loop :: "view \<Rightarrow> view list \<Rightarrow> int \<Rightarrow> replayer \<times> message list
    \<Rightarrow> replayer \<times> (archive_error, message list) result" where
  "gap_loop v vs since st =
     (case replay_since v since PAGE_SIZE of
        Inl err \<Rightarrow> (fst st, Inl err)
      | Inr rows \<Rightarrow>
        let st' = fold (replay_row (vw_home v)) rows st in
        if length rows < PAGE_SIZE then (fst st', Inr (snd st'))
        else (case ar_relay_seq (last rows) of
            None \<Rightarrow> (fst st', Inr (snd st'))
          | Some s \<Rightarrow> (case vs of [] \<Rightarrow> gap_loop v [] s st' | v' # vs' \<Rightarrow> gap_loop v' vs' s st')))"
  by pat_completeness auto
termination
  by (relation "measures [\<lambda>(v, vs, since, st). length vs,
      \<lambda>(v, vs, since, st). length (filter (in_hole since) (vw_table v))]")
    (auto intro: full_page_advances)

declare gap_loop.simps [simp del]

definition gap :: "view \<Rightarrow> view list \<Rightarrow> int \<Rightarrow> replayer \<Rightarrow> replayer \<times> (archive_error, message list) result" where
  "gap v vs after_seq r = gap_loop v vs after_seq (r, [])"

section \<open>Paging is invisible\<close>

definition hole :: "archive_row list \<Rightarrow> int \<Rightarrow> archive_row list" where
  "hole table since = sort_key seq_key (filter (in_hole since) table)"

lemma hole_key: "row \<in> set (hole table since) \<Longrightarrow> ar_relay_seq row = Some (seq_key row) \<and> since < seq_key row"
  by (auto simp: hole_def seq_key_def dest!: in_hole_Some)

lemma hole_sorted: "sorted (map seq_key (hole table since))"
  by (simp add: hole_def)

lemma hole_distinct:
  "distinct (map seq_key (filter (in_hole since) table)) \<Longrightarrow> distinct (map seq_key (hole table since))"
  by (metis distinct_map distinct_sort hole_def set_sort)

lemma hole_later:
  assumes "since \<le> s"
  shows "hole table s = filter (\<lambda>r. s < seq_key r) (hole table since)"
proof -
  have "filter (in_hole s) table = filter (\<lambda>r. s < seq_key r) (filter (in_hole since) table)"
    using assms by (auto simp: in_hole_def seq_key_def intro!: filter_cong split: option.splits)
  then show ?thesis by (simp only: hole_def filter_sort)
qed

lemma strict_sorted_split:
  fixes xs ys :: "'a list" and f :: "'a \<Rightarrow> 'b :: linorder"
  assumes "sorted (map f (xs @ ys))" "distinct (map f (xs @ ys))" "xs \<noteq> []"
  shows "filter (\<lambda>r. f (last xs) < f r) (xs @ ys) = ys"
proof -
  have "\<not> f (last xs) < f x" if "x \<in> set xs" for x
  proof -
    have "sorted (map f xs)" using assms(1) by (simp add: sorted_append)
    moreover obtain zs where "xs = zs @ [last xs]" using assms(3) append_butlast_last_id by metis
    ultimately have "\<forall>z\<in>set zs. f z \<le> f (last xs)"
      by (metis (no_types, lifting) image_eqI list.set_intros(1) list.set_map map_append list.simps(9) sorted_append)
    with \<open>xs = zs @ [last xs]\<close> that show ?thesis
      by (metis Un_iff empty_iff insert_iff leD less_irrefl list.set(1) list.simps(15) set_append)
  qed
  moreover have "f (last xs) < f y" if "y \<in> set ys" for y
  proof -
    have "f (last xs) \<le> f y" using assms that by (auto simp: sorted_append)
    moreover have "f (last xs) \<noteq> f y"
      using assms(2,3) that by (auto simp: distinct_append) (metis IntI empty_iff imageI last_in_set)
    ultimately show ?thesis by simp
  qed
  ultimately show ?thesis by (simp add: filter_empty_conv filter_id_conv)
qed

text \<open>Which rows a replay reads of a hole that does not change under it: all of them, or the pages before the read
  that failed.\<close>

definition stable :: "view \<Rightarrow> view list \<Rightarrow> bool" where
  "stable v vs \<longleftrightarrow> (\<forall>v'\<in>set vs. vw_table v' = vw_table v \<and> vw_home v' = vw_home v)"

fun rows_read :: "bool list \<Rightarrow> archive_row list \<Rightarrow> archive_row list \<times> bool" where
  "rows_read [] rows = (rows, False)"
| "rows_read (failed # fs) rows =
     (if failed then ([], True)
      else if length rows < PAGE_SIZE then (rows, False)
      else if fs = [] then (rows, False)
      else (case rows_read fs (drop PAGE_SIZE rows) of (rest, lost) \<Rightarrow> (take PAGE_SIZE rows @ rest, lost)))"

lemma hole_next:
  assumes "distinct (map seq_key (filter (in_hole since) table))"
    and "\<not> length (hole table since) < PAGE_SIZE"
  shows "\<exists>s. ar_relay_seq (last (take PAGE_SIZE (hole table since))) = Some s \<and> since < s
    \<and> hole table s = drop PAGE_SIZE (hole table since) \<and> distinct (map seq_key (filter (in_hole s) table))"
proof -
  let ?rows = "take PAGE_SIZE (hole table since)" and ?rest = "drop PAGE_SIZE (hole table since)"
  let ?s = "seq_key (last ?rows)"
  have ne: "?rows \<noteq> []" using assms(2) by auto
  have split: "hole table since = ?rows @ ?rest" by simp
  have "last ?rows \<in> set (hole table since)" using ne by (metis in_set_takeD last_in_set)
  then have seq: "ar_relay_seq (last ?rows) = Some ?s" "since < ?s" using hole_key by auto
  have "hole table ?s = filter (\<lambda>r. ?s < seq_key r) (hole table since)"
    using seq(2) by (intro hole_later) simp
  also have "\<dots> = ?rest"
    using strict_sorted_split [of seq_key ?rows ?rest] hole_sorted hole_distinct [OF assms(1)] ne split by metis
  finally have rest: "hole table ?s = ?rest" .
  have "filter (in_hole ?s) table = filter (in_hole ?s) (filter (in_hole since) table)"
    using seq(2) by (auto simp: in_hole_def intro!: filter_cong split: option.splits)
  then have "distinct (map seq_key (filter (in_hole ?s) table))"
    using distinct_map_filter [OF assms(1)] by simp
  with seq rest show ?thesis by blast
qed

lemma gap_loop_hole:
  "stable v vs \<Longrightarrow> distinct (map seq_key (filter (in_hole since) (vw_table v))) \<Longrightarrow>
   gap_loop v vs since st =
     (case rows_read (map vw_failed (v # vs)) (hole (vw_table v) since) of
        (rows, lost) \<Rightarrow> (fst (fold (replay_row (vw_home v)) rows st),
          if lost then Inl SqlErr else Inr (snd (fold (replay_row (vw_home v)) rows st))))"
proof (induction v vs since st rule: gap_loop.induct)
  case (1 v vs since st)
  let ?hole = "hole (vw_table v) since" and ?f = "\<lambda>rows. fold (replay_row (vw_home v)) rows st"
  show ?case
  proof (cases "vw_failed v")
    case True
    then show ?thesis by (subst gap_loop.simps) (simp add: replay_since_def)
  next
    case ok: False
    have rows: "replay_since v since PAGE_SIZE = Inr (take PAGE_SIZE ?hole)"
      using ok by (simp add: replay_since_def hole_def)
    show ?thesis
    proof (cases "length ?hole < PAGE_SIZE")
      case True
      then show ?thesis using ok by (subst gap_loop.simps) (simp add: rows Let_def)
    next
      case False
      obtain s where s: "ar_relay_seq (last (take PAGE_SIZE ?hole)) = Some s"
        "hole (vw_table v) s = drop PAGE_SIZE ?hole" "distinct (map seq_key (filter (in_hole s) (vw_table v)))"
        using hole_next [OF "1.prems"(2) False] by blast
      have full: "\<not> length (take PAGE_SIZE ?hole) < PAGE_SIZE" using False by simp
      have two: "fold (replay_row (vw_home v)) (drop PAGE_SIZE ?hole) (?f (take PAGE_SIZE ?hole)) = ?f ?hole"
        by (metis append_take_drop_id comp_apply fold_append)
      show ?thesis
      proof (cases vs)
        case Nil
        have "gap_loop v [] s (?f (take PAGE_SIZE ?hole)) =
            (fst (?f ?hole), Inr (snd (?f ?hole)))"
          using "1.IH"(1) [OF rows refl full s(1) Nil] "1.prems"(1) s(2,3) ok two by (simp add: Nil)
        then show ?thesis
          using ok full s(1) Nil by (subst gap_loop.simps) (simp add: rows Let_def)
      next
        case (Cons v' vs')
        have v': "vw_table v' = vw_table v" "vw_home v' = vw_home v" "stable v' vs'"
          using "1.prems"(1) by (simp_all add: stable_def Cons)
        obtain rest lost where t: "rows_read (map vw_failed vs) (drop PAGE_SIZE ?hole) = (rest, lost)" by fastforce
        have head: "rows_read (map vw_failed (v # vs)) ?hole = (take PAGE_SIZE ?hole @ rest, lost)"
          unfolding list.map(2) rows_read.simps(2) [of "vw_failed v"] t using ok False Cons by simp
        have "gap_loop v' vs' s (?f (take PAGE_SIZE ?hole)) =
            (fst (fold (replay_row (vw_home v)) rest (?f (take PAGE_SIZE ?hole))),
             if lost then Inl SqlErr else Inr (snd (fold (replay_row (vw_home v)) rest (?f (take PAGE_SIZE ?hole)))))"
          using "1.IH"(2) [OF rows refl full s(1) Cons] v' s(2,3) t by (simp add: Cons del: rows_read.simps)
        then show ?thesis
          using ok full s(1) Cons unfolding head by (subst gap_loop.simps) (simp add: rows Let_def)
      qed
    qed
  qed
qed

section \<open>The window\<close>

text \<open>Both deliveries offer an id with the message to emit; a blocked sender's row is not offered.\<close>

definition replayer_ok :: "replayer \<Rightarrow> bool" where
  "replayer_ok r \<longleftrightarrow> rp_seen r = set (rp_order r) \<and> distinct (rp_order r) \<and> length (rp_order r) \<le> MAX_SEEN"

lemma remember_ok: "replayer_ok r \<Longrightarrow> replayer_ok (remember_id i r)"
  by (cases "rp_order r") (auto simp: replayer_ok_def remember_id_def Let_def)

lemma replay_row_ok: "replayer_ok (fst st) \<Longrightarrow> replayer_ok (fst (replay_row h row st))"
  by (cases st) (auto simp: replay_row_def Let_def remember_ok)

lemma replay_rows_ok: "replayer_ok (fst st) \<Longrightarrow> replayer_ok (fst (fold (replay_row h) rows st))"
  by (induction rows arbitrary: st) (simp_all add: replay_row_ok)

lemma gap_loop_ok: "replayer_ok (fst st) \<Longrightarrow> replayer_ok (fst (gap_loop v vs since st))"
proof (induction v vs since st rule: gap_loop.induct)
  case (1 v vs since st)
  then show ?case
    by (subst gap_loop.simps) (auto simp: Let_def replay_rows_ok split: option.split sum.split list.split)
qed

datatype inbox_input = LiveMsg message | GapAfter view "view list" int

text \<open>The consumer appends what a replay returns; of one that failed it keeps the replayer only (\<open>msgs.ok()\<close>).\<close>

fun handle :: "inbox_input \<Rightarrow> replayer \<times> message list \<Rightarrow> replayer \<times> message list" where
  "handle (LiveMsg m) (r, out) = (case live m r of (r', None) \<Rightarrow> (r', out) | (r', Some m') \<Rightarrow> (r', out @ [m']))"
| "handle (GapAfter v vs since) (r, out) =
     (case gap v vs since r of (r', Inl _) \<Rightarrow> (r', out) | (r', Inr ms) \<Rightarrow> (r', out @ ms))"

text \<open>C22. The dedupe window is consistent and bounded in every run of live messages and replays: the set and
  the queue hold the same ids, none twice, and never more than a thousand.\<close>

theorem replayer_bounded:
  "replayer_ok (fst (fold handle ins (new_replayer mute, [])))"
proof -
  have step: "replayer_ok (fst (handle i (r, out)))" if "replayer_ok r" for i r out
  proof (cases i)
    case (GapAfter v vs since)
    then show ?thesis
      using gap_loop_ok [of "(r, [])" v vs since] that by (auto simp: gap_def split: prod.split sum.split)
  qed (use that in \<open>auto simp: live_def remember_ok\<close>)
  have "replayer_ok (fst (fold handle ins st))" if "replayer_ok (fst st)" for st
    using that
  proof (induction ins arbitrary: st)
    case Nil
    then show ?case by simp
  next
    case (Cons i ins)
    then show ?case using step [of "fst st" i "snd st"] by simp
  qed
  then show ?thesis by (simp add: new_replayer_def replayer_ok_def)
qed

section \<open>Delivery\<close>

definition offer :: "message \<times> bool \<Rightarrow> replayer \<times> message list \<Rightarrow> replayer \<times> message list" where
  "offer = (\<lambda>(m, lost) (r, out). if ms_envelope_id m \<in> rp_seen r then (r, out)
     else (remember_id (ms_envelope_id m) r,
           if \<not> lost \<and> channel_gate m (rp_mute r) then out @ [m] else out))"

text \<open>What an input offers, each message with a flag for \<open>its replay failed on a later page\<close>.\<close>

fun offers :: "inbox_input \<Rightarrow> (message \<times> bool) list" where
  "offers (LiveMsg m) = [(m, False)]"
| "offers (GapAfter v vs since) =
     (case rows_read (map vw_failed (v # vs)) (hole (vw_table v) since) of (rows, lost) \<Rightarrow>
        map (\<lambda>row. (row_to_message (vw_home v) row, lost))
          (filter (\<lambda>row. \<not> is_blocked (vw_home v) (ar_from row)) rows))"

text \<open>The unbounded specification: the first offer of each id.\<close>

fun first_unseen :: "string set \<Rightarrow> (message \<times> bool) list \<Rightarrow> (message \<times> bool) list" where
  "first_unseen S [] = []"
| "first_unseen S ((m, lost) # ms) = (if ms_envelope_id m \<in> S then first_unseen S ms
     else (m, lost) # first_unseen (insert (ms_envelope_id m) S) ms)"

definition emitted :: "string set \<Rightarrow> (message \<times> bool) list \<Rightarrow> message list" where
  "emitted mute ms = map fst (filter (\<lambda>(m, lost). \<not> lost \<and> channel_gate m mute) ms)"

abbreviation ids :: "(message \<times> bool) list \<Rightarrow> string set" where
  "ids ms \<equiv> (\<lambda>(m, lost). ms_envelope_id m) ` set ms"

lemma replay_rows_offer:
  "fold (replay_row h) rows st =
   fold offer (map (\<lambda>row. (row_to_message h row, False)) (filter (\<lambda>row. \<not> is_blocked h (ar_from row)) rows)) st"
  by (induction rows arbitrary: st)
    (auto simp: replay_row_def offer_def Let_def row_to_message_def split_def)

lemma offer_out: "fold offer ms (r, out) = (fst (fold offer ms (r, [])), out @ snd (fold offer ms (r, [])))"
proof (induction ms arbitrary: r out)
  case Nil
  then show ?case by simp
next
  case (Cons m ms)
  have "fold offer (m # ms) (r, out) = fold offer ms (offer m (r, out))" for out by simp
  moreover have "offer m (r, out) = (fst (offer m (r, [])), out @ snd (offer m (r, [])))" for out
    by (simp add: offer_def split_def)
  ultimately show ?case
    using Cons.IH [of "fst (offer m (r, []))"] by (metis append_assoc fst_conv snd_conv)
qed

text \<open>Offers that a failed replay drops move the replayer as the others do.\<close>

lemma offer_lost:
  "fold offer (map (\<lambda>m. (m, True)) ms) (r, out) = (fst (fold offer (map (\<lambda>m. (m, False)) ms) (r, out')), out)"
  by (induction ms arbitrary: r out') (simp_all add: offer_def)

lemma remember_sel [simp]: "rp_mute (remember_id i r) = rp_mute r"
  by (simp add: remember_id_def Let_def)

lemma offer_window:
  assumes "replayer_ok r" "card (rp_seen r \<union> ids ms) \<le> MAX_SEEN"
  shows "snd (fold offer ms (r, out)) = out @ emitted (rp_mute r) (first_unseen (rp_seen r) ms)"
  using assms
proof (induction ms arbitrary: r out)
  case Nil
  then show ?case by (simp add: emitted_def)
next
  case (Cons mf ms)
  obtain m lost where mf: "mf = (m, lost)" by fastforce
  let ?i = "ms_envelope_id m"
  show ?case
  proof (cases "?i \<in> rp_seen r")
    case True
    then have "rp_seen r \<union> ids (mf # ms) = rp_seen r \<union> ids ms" by (auto simp: mf)
    then show ?thesis using True Cons by (simp add: offer_def mf)
  next
    case False
    have fin: "finite (rp_seen r \<union> ids (mf # ms))"
      using Cons.prems(1) by (simp add: replayer_ok_def)
    have "card (insert ?i (rp_seen r)) \<le> card (rp_seen r \<union> ids (mf # ms))"
      by (rule card_mono [OF fin]) (auto simp: mf)
    then have "Suc (length (rp_order r)) \<le> MAX_SEEN"
      using Cons.prems False by (simp add: replayer_ok_def distinct_card)
    then have seen: "rp_seen (remember_id ?i r) = insert ?i (rp_seen r)"
      using False by (simp add: remember_id_def Let_def)
    have "rp_seen (remember_id ?i r) \<union> ids ms = rp_seen r \<union> ids (mf # ms)"
      by (auto simp: seen mf)
    then show ?thesis
      using Cons.IH [OF remember_ok [OF Cons.prems(1), of ?i]] Cons.prems(2) False
      by (simp add: offer_def seen mf emitted_def)
  qed
qed

definition plain_input :: "inbox_input \<Rightarrow> bool" where
  "plain_input i = (case i of LiveMsg _ \<Rightarrow> True
     | GapAfter v vs since \<Rightarrow> stable v vs \<and> distinct (map seq_key (filter (in_hole since) (vw_table v))))"

lemma handle_offers: "plain_input i \<Longrightarrow> handle i st = fold offer (offers i) st"
proof (cases i)
  case (LiveMsg m)
  then show ?thesis by (cases st) (auto simp: live_def offer_def)
next
  case (GapAfter v vs since)
  assume "plain_input i"
  then have p: "stable v vs" "distinct (map seq_key (filter (in_hole since) (vw_table v)))"
    by (simp_all add: plain_input_def GapAfter)
  obtain r out where st: "st = (r, out)" by (cases st)
  obtain rows lost where read: "rows_read (map vw_failed (v # vs)) (hole (vw_table v) since) = (rows, lost)" by fastforce
  define ms where "ms = map (row_to_message (vw_home v)) (filter (\<lambda>row. \<not> is_blocked (vw_home v) (ar_from row)) rows)"
  have f: "fold (replay_row (vw_home v)) rows (r, []) = fold offer (map (\<lambda>m. (m, False)) ms) (r, [])"
    by (simp add: replay_rows_offer comp_def ms_def)
  have offers: "offers i = map (\<lambda>m. (m, lost)) ms"
    using read by (simp add: GapAfter comp_def ms_def del: rows_read.simps)
  have "gap v vs since r = (fst (fold offer (map (\<lambda>m. (m, False)) ms) (r, [])),
      if lost then Inl SqlErr else Inr (snd (fold offer (map (\<lambda>m. (m, False)) ms) (r, []))))"
    using read unfolding gap_def gap_loop_hole [OF p] by (simp add: f del: rows_read.simps)
  then show ?thesis
    unfolding offers unfolding GapAfter st
    by (cases lost) (simp add: offer_lost [of ms r out "[]"], simp add: offer_out [of _ r out])
qed

text \<open>C13. Replay refines an unbounded exactly-once delivery.  Take any interleaving of live messages and
  replays that offers at most a thousand distinct ids, each replay over an archive that does not change while
  its pages are read and whose missing rows have distinct \<open>relay_seq\<close>.  What is emitted is the first offer of
  each id by an unblocked sender, in order, when the gate admits it; paging loses and repeats nothing.  The
  exception is a replay whose read fails after some pages: the ids of those pages count as offered, but the
  messages are dropped, so they are never emitted, by no later replay either.\<close>

theorem delivery_refines_first_unseen:
  assumes "\<forall>i\<in>set ins. plain_input i"
    and "card (ids (concat (map offers ins))) \<le> MAX_SEEN"
  shows "snd (fold handle ins (new_replayer mute, [])) =
    emitted mute (first_unseen {} (concat (map offers ins)))"
proof -
  have "fold handle ins st = fold offer (concat (map offers ins)) st" for st
    using assms(1) by (induction ins arbitrary: st) (simp_all add: handle_offers)
  then show ?thesis
    using offer_window [of "new_replayer mute" "concat (map offers ins)" "[]"] assms(2)
    by (simp add: new_replayer_def replayer_ok_def)
qed

section \<open>Witness\<close>

definition demo_home :: home where
  "demo_home = \<lparr>h_contacts = Some [(''did'', \<lparr>ct_alias = Some ''bob'', ct_air_id = None, ct_key = None,
     ct_name = None, ct_username = None, ct_verified_at_pin = True\<rparr>)], h_blocklist = None, h_identity = None\<rparr>"

definition demo_row :: "string \<Rightarrow> int \<Rightarrow> archive_row" where
  "demo_row i n = \<lparr>ar_envelope_id = i, ar_direction = ''received'', ar_thread_id = ''t'', ar_peer_did = ''did'',
     ar_from = ''did'', ar_to = ''me'', ar_timestamp = ''x'', ar_body = JNull, ar_encrypted = True,
     ar_verified = True, ar_key_changed = False, ar_spam = False, ar_relay_seq = Some n, ar_room_id = None,
     ar_archived_at = ''y''\<rparr>"

definition demo_view :: "bool \<Rightarrow> archive_row list \<Rightarrow> view" where
  "demo_view failed rows = \<lparr>vw_failed = failed, vw_table = rows, vw_home = demo_home\<rparr>"

text \<open>A live message, a replay whose read fails at once, and the replay again.\<close>

definition demo_inputs :: "inbox_input list" where
  "demo_inputs = [LiveMsg (row_to_message demo_home (demo_row ''e2'' 2)),
     GapAfter (demo_view True [demo_row ''e1'' 1]) [] 0,
     GapAfter (demo_view False [demo_row ''e3'' 3, demo_row ''e1'' 1, demo_row ''e2'' 2]) [] 0]"

theorem delivery_refines_first_unseen_witness:
  "map ms_envelope_id (snd (fold handle demo_inputs (new_replayer {}, []))) = [''e2'', ''e1'', ''e3'']"
proof -
  have "snd (fold handle demo_inputs (new_replayer {}, [])) =
      emitted {} (first_unseen {} (concat (map offers demo_inputs)))"
  proof (rule delivery_refines_first_unseen)
    show "card (ids (concat (map offers demo_inputs))) \<le> MAX_SEEN" by code_simp
    show "\<forall>i\<in>set demo_inputs. plain_input i" by code_simp
  qed
  moreover have "map ms_envelope_id (emitted {} (first_unseen {} (concat (map offers demo_inputs))))
      = [''e2'', ''e1'', ''e3'']"
    by code_simp
  ultimately show ?thesis by simp
qed

end
