(* ===== verification/InboxClient.thy ===== *)
theory InboxClient
  imports Replay
begin

text \<open>
  The socket client of \<open>air-rs/src/inbox\<close>: the newline framing of \<open>line_parser.rs\<close>, the frames of
  \<open>frames.rs\<close>, and the reconnect loop of \<open>client.rs\<close> run on a script of what the socket does.  The JSON
  parser is an argument.
\<close>

section \<open>Lossy UTF-8\<close>

text \<open>How many continuation bytes a lead byte asks for, and the range of the first of them.\<close>

definition utf8_need :: "nat \<Rightarrow> (nat \<times> nat \<times> nat) option" where
  "utf8_need a =
     (if a < 128 then Some (0, 0, 0)
      else if 194 \<le> a \<and> a \<le> 223 then Some (1, 128, 191)
      else if a = 224 then Some (2, 160, 191)
      else if a = 237 then Some (2, 128, 159)
      else if 225 \<le> a \<and> a \<le> 239 then Some (2, 128, 191)
      else if a = 240 then Some (3, 144, 191)
      else if 241 \<le> a \<and> a \<le> 243 then Some (3, 128, 191)
      else if a = 244 then Some (3, 128, 143)
      else None)"

text \<open>The continuation bytes that are there: the first in its range, the rest continuation bytes.\<close>

definition utf8_got :: "nat \<times> nat \<times> nat \<Rightarrow> bytes \<Rightarrow> nat" where
  "utf8_got = (\<lambda>(n, lo, hi) r. case r of [] \<Rightarrow> 0
     | b # r2 \<Rightarrow> if n = 0 \<or> \<not> (lo \<le> code b \<and> code b \<le> hi) then 0
         else Suc (length (takeWhile (cont \<circ> code) (take (n - 1) r2))))"

abbreviation "REPLACEMENT \<equiv> [CHR 0xEF, CHR 0xBF, CHR 0xBD]"

function from_utf8_lossy :: "bytes \<Rightarrow> string" where
  "from_utf8_lossy [] = []"
| "from_utf8_lossy (a # r) = (case utf8_need (code a) of
     None \<Rightarrow> REPLACEMENT @ from_utf8_lossy r
   | Some need \<Rightarrow> let k = utf8_got need r in
       (if k = fst need then a # take k r else REPLACEMENT) @ from_utf8_lossy (drop k r))"
  by pat_completeness auto
termination by (relation "measure length") auto

section \<open>Newline framing\<close>

abbreviation "LINE_MAX_FRAME \<equiv> (1048576 :: nat)"
abbreviation "NL \<equiv> CHR 0x0A"

datatype frame_event = Frame json | ParseError string

definition line_event :: "(string \<Rightarrow> json option) \<Rightarrow> string \<Rightarrow> frame_event list" where
  "line_event parse line = (if trim_start line = [] then []
     else case parse line of Some v \<Rightarrow> [Frame v] | None \<Rightarrow> [ParseError ''json''])"

function drain_lines :: "(string \<Rightarrow> json option) \<Rightarrow> string \<Rightarrow> string \<times> frame_event list" where
  "drain_lines parse buf =
     (if NL \<notin> set buf then (buf, [])
      else let line = takeWhile (\<lambda>c. c \<noteq> NL) buf; rest = tl (dropWhile (\<lambda>c. c \<noteq> NL) buf);
               (buf', evs) = drain_lines parse rest
           in (buf', line_event parse line @ evs))"
  by pat_completeness auto
termination
proof (relation "measure (\<lambda>(parse, buf). length buf)")
  fix parse :: "string \<Rightarrow> json option" and buf line rest :: string
  assume "\<not> NL \<notin> set buf" "rest = tl (dropWhile (\<lambda>c. c \<noteq> NL) buf)"
  moreover have "length (dropWhile (\<lambda>c. c \<noteq> NL) buf) \<le> length buf" by (rule length_dropWhile_le)
  ultimately show "((parse, rest), parse, buf) \<in> measure (\<lambda>(parse, buf). length buf)"
    by (cases "dropWhile (\<lambda>c. c \<noteq> NL) buf") (auto simp: dropWhile_eq_Nil_conv)
qed simp

declare drain_lines.simps [simp del]

definition feed :: "(string \<Rightarrow> json option) \<Rightarrow> bytes \<Rightarrow> string \<Rightarrow> string \<times> frame_event list" where
  "feed parse chunk buf =
     (let buf1 = buf @ from_utf8_lossy chunk in
      if length buf1 > LINE_MAX_FRAME \<and> NL \<notin> set buf1
      then ([], [ParseError ''line exceeds 1048576 bytes''])
      else drain_lines parse buf1)"

section \<open>Frames and events\<close>

datatype server_frame =
    HelloOk int string string | SfMessage message | SfGap int | Pong | SfStatus
  | SfSendOk string string bool | SfSendErr string bool string | SfError string | SfUnknown

datatype inbox_event =
    EvAttached int string | EvDetached | EvOffline | EvMessage message | EvGap int
  | EvSendOk string string bool | EvSendErr string bool string | EvStatus json

text \<open>\<open>dispatch\<close> of one frame: what is sent on, the new cursor, and whether the session goes on; \<open>rx\<close> says
  whether the receiver is still there.\<close>

definition dispatch_frame :: "bool \<Rightarrow> server_frame option \<Rightarrow> int option \<Rightarrow> inbox_event list \<times> int option \<times> bool" where
  "dispatch_frame rx f max_seen = (case f of None \<Rightarrow> ([], max_seen, True)
     | Some fr \<Rightarrow> (case fr of
         SfMessage m \<Rightarrow>
           (if rx then [EvMessage m] else [],
            if max_seen = None \<or> ms_relay_seq m > the max_seen then Some (ms_relay_seq m) else max_seen, rx)
       | SfGap s \<Rightarrow> (if rx then [EvGap s] else [], max_seen, rx)
       | SfSendOk i e enc \<Rightarrow> (if rx then [EvSendOk i e enc] else [], max_seen, True)
       | SfSendErr i rt why \<Rightarrow> (if rx then [EvSendErr i rt why] else [], max_seen, True)
       | _ \<Rightarrow> ([], max_seen, True)))"

fun dispatch_all :: "(json \<Rightarrow> server_frame option) \<Rightarrow> bool \<Rightarrow> frame_event list \<Rightarrow> int option
    \<Rightarrow> inbox_event list \<times> int option \<times> bool" where
  "dispatch_all srv rx [] ms = ([], ms, True)"
| "dispatch_all srv rx (ParseError e # es) ms = dispatch_all srv rx es ms"
| "dispatch_all srv rx (Frame v # es) ms =
     (case dispatch_frame rx (srv v) ms of (out, ms', go) \<Rightarrow>
        if \<not> go then (out, ms', False)
        else (case dispatch_all srv rx es ms' of (out', ms'', go') \<Rightarrow> (out @ out', ms'', go')))"

section \<open>One connection\<close>

datatype conn_outcome = Stopped | Attached | FailedToConnect

text \<open>What one pass of the \<open>select!\<close> sees: a wake-up with the stop flag, an outbound frame and whether its
  write succeeds, a line with the receiver and the stop flag, or the end of the stream.\<close>

datatype session_input = Wake bool | Outbound bool | ReadLine bytes bool bool | ReadEnd

record attempt =
  at_stop_before :: bool
  at_connected :: bool
  at_hello_sent :: bool
  at_handshake :: "bytes list"
  at_stop_after :: bool
  at_session :: "session_input list"

fun hello_events :: "(json \<Rightarrow> server_frame option) \<Rightarrow> frame_event list \<Rightarrow> (int \<times> string) option option" where
  "hello_events srv [] = None"
| "hello_events srv (ParseError e # es) = hello_events srv es"
| "hello_events srv (Frame v # es) = (case srv v of Some (HelloOk pid st did) \<Rightarrow> Some (Some (pid, did)) | _ \<Rightarrow> Some None)"

fun handshake :: "(string \<Rightarrow> json option) \<Rightarrow> (json \<Rightarrow> server_frame option) \<Rightarrow> string \<Rightarrow> bytes list
    \<Rightarrow> (int \<times> string) option" where
  "handshake parse srv buf [] = None"
| "handshake parse srv buf (c # cs) = (case feed parse c buf of (buf', evs) \<Rightarrow>
     (case hello_events srv evs of Some r \<Rightarrow> r | None \<Rightarrow> handshake parse srv buf' cs))"

fun session_loop :: "(string \<Rightarrow> json option) \<Rightarrow> (json \<Rightarrow> server_frame option) \<Rightarrow> string \<Rightarrow> session_input list
    \<Rightarrow> int option \<Rightarrow> conn_outcome \<times> inbox_event list \<times> int option" where
  "session_loop parse srv buf [] ms = (Attached, [], ms)"
| "session_loop parse srv buf (Wake stop # ins) ms =
     (if stop then (Stopped, [], ms) else session_loop parse srv buf ins ms)"
| "session_loop parse srv buf (Outbound ok # ins) ms =
     (if ok then session_loop parse srv buf ins ms else (Attached, [], ms))"
| "session_loop parse srv buf (ReadEnd # ins) ms = (Attached, [], ms)"
| "session_loop parse srv buf (ReadLine line rx stop # ins) ms =
     (case feed parse line buf of (buf', evs) \<Rightarrow>
      (case dispatch_all srv rx evs ms of (out, ms', go) \<Rightarrow>
        if \<not> go \<or> stop then (Stopped, out, ms')
        else (case session_loop parse srv buf' ins ms' of (oc, out', ms'') \<Rightarrow> (oc, out @ out', ms''))))"

definition connect_once :: "(string \<Rightarrow> json option) \<Rightarrow> (json \<Rightarrow> server_frame option) \<Rightarrow> attempt \<Rightarrow> int option
    \<Rightarrow> conn_outcome \<times> inbox_event list \<times> int option" where
  "connect_once parse srv a ms =
     (if \<not> at_connected a \<or> \<not> at_hello_sent a then (FailedToConnect, [], ms)
      else case handshake parse srv [] (at_handshake a) of
        None \<Rightarrow> (FailedToConnect, [], ms)
      | Some (pid, did) \<Rightarrow>
          if at_stop_after a then (Stopped, [], ms)
          else (case session_loop parse srv [] (at_session a) ms of
            (oc, out, ms') \<Rightarrow> (oc, EvAttached pid did # out, ms')))"

section \<open>The reconnect loop\<close>

abbreviation "INITIAL_BACKOFF \<equiv> (500 :: nat)"
abbreviation "BACKOFF_CAP \<equiv> (5000 :: nat)"

record client_state =
  cl_max_seen :: "int option"
  cl_backoff :: nat
  cl_first :: bool
  cl_offline :: bool

definition client_start :: client_state where
  "client_start = \<lparr>cl_max_seen = None, cl_backoff = INITIAL_BACKOFF, cl_first = True, cl_offline = False\<rparr>"

text \<open>The observable trace: a sleep in milliseconds, a connection attempt with the cursor of its hello, an
  event sent to the receiver.\<close>

datatype trace_item = Sleep nat | Try "int option" | Emit inbox_event

fun reconnect_loop :: "(string \<Rightarrow> json option) \<Rightarrow> (json \<Rightarrow> server_frame option) \<Rightarrow> int option \<Rightarrow> attempt list
    \<Rightarrow> client_state \<Rightarrow> trace_item list" where
  "reconnect_loop parse srv baseline [] c = []"
| "reconnect_loop parse srv baseline (a # as) c =
     (if cl_first c then [] else [Sleep (cl_backoff c)]) @
     (if at_stop_before a then []
      else
        let since = (if cl_first c then None else case cl_max_seen c of None \<Rightarrow> baseline | s \<Rightarrow> s);
            (oc, out, ms) = connect_once parse srv a (cl_max_seen c);
            c' = c\<lparr>cl_first := False, cl_max_seen := ms\<rparr>
        in Try since # map Emit out @
          (case oc of
             Stopped \<Rightarrow> []
           | Attached \<Rightarrow> Emit EvDetached #
               reconnect_loop parse srv baseline as (c'\<lparr>cl_backoff := INITIAL_BACKOFF, cl_offline := False\<rparr>)
           | FailedToConnect \<Rightarrow> (if cl_offline c then [] else [Emit EvOffline]) @
               reconnect_loop parse srv baseline as
                 (c'\<lparr>cl_offline := True, cl_backoff := min (cl_backoff c * 2) BACKOFF_CAP\<rparr>)))"

section \<open>Framing does not depend on the chunks\<close>

lemma utf8_prefix:
  "utf8_ok (a # r) \<Longrightarrow> \<exists>n lo hi. utf8_need a = Some (n, lo, hi) \<and> n \<le> length r \<and> utf8_ok (drop n r)
     \<and> (n > 0 \<longrightarrow> lo \<le> hd r \<and> hd r \<le> hi) \<and> (\<forall>b\<in>set (take n r). cont b)"
  by (auto simp: utf8_need_def cont_def split: list.splits if_splits)

lemma lossy_valid: "from_utf8_ok b \<Longrightarrow> from_utf8_lossy b = b"
proof (induction b rule: from_utf8_lossy.induct)
  case 1
  then show ?case by simp
next
  case (2 a r)
  then obtain n lo hi where n: "utf8_need (code a) = Some (n, lo, hi)" "n \<le> length r"
    "utf8_ok (drop n (map code r))" "n > 0 \<longrightarrow> lo \<le> hd (map code r) \<and> hd (map code r) \<le> hi"
    "\<forall>b\<in>set (take n (map code r)). cont b"
    using utf8_prefix [of "code a" "map code r"] by (auto simp: from_utf8_ok_def simp del: utf8_ok.simps)
  have "utf8_got (n, lo, hi) r = n"
  proof (cases r)
    case Nil
    then show ?thesis using n(2) by (simp add: utf8_got_def)
  next
    case (Cons b r2)
    show ?thesis
    proof (cases n)
      case 0
      then show ?thesis by (simp add: utf8_got_def Cons)
    next
      case (Suc m)
      have "takeWhile (cont \<circ> code) (take m r2) = take m r2"
        using n(5) by (auto simp: Cons Suc take_map takeWhile_eq_all_conv)
      then have "length (takeWhile (cont \<circ> code) (take m r2)) = m"
        using n(2) by (simp only: length_take) (simp add: Cons Suc)
      then show ?thesis using n(2,4) by (simp add: utf8_got_def Cons Suc)
    qed
  qed
  moreover have "from_utf8_ok (drop n r)"
    using n(3) by (simp add: from_utf8_ok_def drop_map)
  ultimately show ?case
    using 2(2) [OF n(1) refl] n(1) by simp
qed

lemma drain_no_nl: "NL \<notin> set buf \<Longrightarrow> drain_lines parse buf = (buf, [])"
  by (subst drain_lines.simps) simp

lemma drain_append:
  "drain_lines parse (x @ y) = (case drain_lines parse x of (b, e) \<Rightarrow>
     case drain_lines parse (b @ y) of (b', e') \<Rightarrow> (b', e @ e'))"
proof (induction parse x rule: drain_lines.induct)
  case (1 parse x)
  show ?case
  proof (cases "NL \<in> set x")
    case False
    then show ?thesis by (simp add: drain_no_nl split: prod.split)
  next
    case True
    let ?line = "takeWhile (\<lambda>c. c \<noteq> NL) x" and ?rest = "tl (dropWhile (\<lambda>c. c \<noteq> NL) x)"
    have "takeWhile (\<lambda>c. c \<noteq> NL) (x @ y) = ?line"
      using True by (auto simp: takeWhile_append1)
    moreover have "tl (dropWhile (\<lambda>c. c \<noteq> NL) (x @ y)) = ?rest @ y"
    proof -
      have "dropWhile (\<lambda>c. c \<noteq> NL) (x @ y) = dropWhile (\<lambda>c. c \<noteq> NL) x @ y"
        using True by (auto simp: dropWhile_append1)
      moreover have "dropWhile (\<lambda>c. c \<noteq> NL) x \<noteq> []"
        using True by (auto simp: dropWhile_eq_Nil_conv)
      ultimately show ?thesis by simp
    qed
    ultimately have "drain_lines parse (x @ y) = (case drain_lines parse (?rest @ y) of (b, e) \<Rightarrow> (b, line_event parse ?line @ e))"
      using True by (subst drain_lines.simps) (simp add: Let_def)
    moreover have "drain_lines parse x = (case drain_lines parse ?rest of (b, e) \<Rightarrow> (b, line_event parse ?line @ e))"
      using True by (subst drain_lines.simps) (simp add: Let_def)
    ultimately show ?thesis
      using "1.IH" [OF _ refl refl] True by (simp split: prod.split)
  qed
qed

lemma drain_length: "drain_lines parse x = (b, e) \<Longrightarrow> length b \<le> length x \<and> NL \<notin> set b"
proof (induction parse x arbitrary: e rule: drain_lines.induct)
  case (1 parse x)
  show ?case
  proof (cases "NL \<in> set x")
    case False
    then show ?thesis using "1.prems" by (simp add: drain_no_nl)
  next
    case True
    let ?rest = "tl (dropWhile (\<lambda>c. c \<noteq> NL) x)"
    obtain e' where "drain_lines parse ?rest = (b, e')"
      using "1.prems" True by (subst (asm) drain_lines.simps) (auto simp: Let_def split: prod.splits)
    then have "length b \<le> length ?rest \<and> NL \<notin> set b"
      using "1.IH" [OF _ refl refl] True by simp
    moreover have "length ?rest \<le> length x"
      using length_dropWhile_le [of "\<lambda>c. c \<noteq> NL" x] by simp
    ultimately show ?thesis by simp
  qed
qed

lemma feed_valid:
  assumes "from_utf8_ok c" "length (buf @ c) \<le> LINE_MAX_FRAME"
  shows "feed parse c buf = drain_lines parse (buf @ c)"
  using assms by (simp add: feed_def lossy_valid Let_def)

fun feeds :: "(string \<Rightarrow> json option) \<Rightarrow> bytes list \<Rightarrow> string \<Rightarrow> string \<times> frame_event list" where
  "feeds parse [] buf = (buf, [])"
| "feeds parse (c # cs) buf = (case feed parse c buf of (b, e) \<Rightarrow> case feeds parse cs b of (b', e') \<Rightarrow> (b', e @ e'))"

text \<open>C23. Framing does not depend on how the stream is cut: any sequence of chunks of valid UTF-8 below the
  ceiling leaves the same buffer and yields the same frames, in order, as the whole text at once.\<close>

theorem framing_chunk_invariant:
  assumes "list_all from_utf8_ok chunks" and "length (buf @ concat chunks) \<le> LINE_MAX_FRAME" and "NL \<notin> set buf"
  shows "feeds parse chunks buf = drain_lines parse (buf @ concat chunks)"
  using assms
proof (induction chunks arbitrary: buf)
  case Nil
  then show ?case by (simp add: drain_no_nl)
next
  case (Cons c cs)
  obtain b e where d: "drain_lines parse (buf @ c) = (b, e)" by (metis surj_pair)
  then have b: "length b \<le> length (buf @ c)" "NL \<notin> set b" using drain_length by blast+
  have "feed parse c buf = (b, e)"
    using Cons.prems d by (subst feed_valid) auto
  moreover have "feeds parse cs b = drain_lines parse (b @ concat cs)"
    using Cons.prems b by (intro Cons.IH) auto
  ultimately show ?case
    using drain_append [of parse "buf @ c" "concat cs"] d by simp
qed

section \<open>The trace of the client\<close>

definition bump :: "int \<Rightarrow> int option \<Rightarrow> int option" where
  "bump n s = (if s = None \<or> n > the s then Some n else s)"

fun cursor_after :: "inbox_event list \<Rightarrow> int option \<Rightarrow> int option" where
  "cursor_after [] s = s"
| "cursor_after (EvMessage m # es) s = cursor_after es (bump (ms_relay_seq m) s)"
| "cursor_after (e # es) s = cursor_after es s"

lemma cursor_append: "cursor_after (xs @ ys) s = cursor_after ys (cursor_after xs s)"
  by (induction xs s rule: cursor_after.induct) auto

lemma dispatch_cursor: "dispatch_frame rx f ms = (out, ms', True) \<Longrightarrow> ms' = cursor_after out ms"
  by (auto simp: dispatch_frame_def bump_def split: option.splits server_frame.splits if_splits)

text \<open>Inside a session only messages, gaps, acknowledgements and status frames are sent.\<close>

definition session_events :: "inbox_event list \<Rightarrow> bool" where
  "session_events es \<longleftrightarrow> (\<forall>e\<in>set es. case e of EvAttached _ _ \<Rightarrow> False | EvDetached \<Rightarrow> False | EvOffline \<Rightarrow> False | _ \<Rightarrow> True)"

lemma session_events_simps [simp]:
  "session_events []" "session_events (xs @ ys) \<longleftrightarrow> session_events xs \<and> session_events ys"
  by (auto simp: session_events_def)

lemma dispatch_quiet: "dispatch_frame rx f ms = (out, ms', go) \<Longrightarrow> session_events out"
  by (auto simp: dispatch_frame_def session_events_def split: option.splits server_frame.splits if_splits)

lemma dispatch_all_props:
  "dispatch_all srv rx es ms = (out, ms', go) \<Longrightarrow> (go \<longrightarrow> ms' = cursor_after out ms) \<and> session_events out"
proof (induction srv rx es ms arbitrary: out ms' go rule: dispatch_all.induct)
  case (3 srv rx v es ms)
  obtain o1 m1 g1 where d: "dispatch_frame rx (srv v) ms = (o1, m1, g1)" by (metis prod_cases3)
  show ?case
  proof (cases g1)
    case False
    then show ?thesis using "3.prems" d dispatch_quiet [OF d] by auto
  next
    case True
    obtain o2 m2 g2 where r: "dispatch_all srv rx es m1 = (o2, m2, g2)" by (metis prod_cases3)
    then show ?thesis
      using "3.prems" "3.IH" [OF d [symmetric] refl _ r] True d dispatch_quiet [OF d] dispatch_cursor [of rx "srv v" ms o1 m1]
      by (auto simp: cursor_append)
  qed
qed auto

lemma session_props:
  "session_loop parse srv buf ins ms = (oc, out, ms') \<Longrightarrow>
   (oc \<noteq> Stopped \<longrightarrow> ms' = cursor_after out ms \<and> oc = Attached) \<and> session_events out"
proof (induction parse srv buf ins ms arbitrary: oc out ms' rule: session_loop.induct)
  case (5 parse srv buf line rx stop ins ms)
  obtain b evs where f: "feed parse line buf = (b, evs)" by (metis surj_pair)
  obtain o1 m1 g1 where d: "dispatch_all srv rx evs ms = (o1, m1, g1)" by (metis prod_cases3)
  have o1: "g1 \<longrightarrow> m1 = cursor_after o1 ms" "session_events o1"
    using dispatch_all_props [OF d] by auto
  show ?case
  proof (cases "\<not> g1 \<or> stop")
    case True
    then show ?thesis using "5.prems" f d o1 by auto
  next
    case False
    obtain oc2 o2 m2 where r: "session_loop parse srv b ins m1 = (oc2, o2, m2)" by (metis prod_cases3)
    show ?thesis
      using "5.prems" "5.IH" [OF f [symmetric] d [symmetric] refl False r] False f d r o1
      by (auto simp: cursor_append)
  qed
qed (auto split: if_splits)

text \<open>An attempt that fails sends nothing; a session that ends was announced first; one that is stopped was
  announced first or sent nothing.\<close>

lemma connect_props:
  assumes "connect_once parse srv a ms = (oc, out, ms')"
  shows "oc \<noteq> Stopped \<Longrightarrow> ms' = cursor_after out ms"
    and "out = [] \<and> oc \<noteq> Attached \<or> (\<exists>pid did es. out = EvAttached pid did # es \<and> session_events es \<and> oc \<noteq> FailedToConnect)"
proof -
  have "(oc \<noteq> Stopped \<longrightarrow> ms' = cursor_after out ms)
      \<and> (out = [] \<and> oc \<noteq> Attached \<or> (\<exists>pid did es. out = EvAttached pid did # es \<and> session_events es \<and> oc \<noteq> FailedToConnect))"
  proof (cases "handshake parse srv [] (at_handshake a)")
    case None
    then show ?thesis using assms by (cases "at_connected a \<and> at_hello_sent a") (auto simp: connect_once_def)
  next
    case (Some h)
    obtain oc1 o1 m1 where r: "session_loop parse srv [] (at_session a) ms = (oc1, o1, m1)" by (metis prod_cases3)
    then show ?thesis
      using assms Some session_props [OF r] by (cases h; cases "at_connected a \<and> at_hello_sent a") (auto simp: connect_once_def split: if_splits)
  qed
  then show "oc \<noteq> Stopped \<Longrightarrow> ms' = cursor_after out ms"
    "out = [] \<and> oc \<noteq> Attached \<or> (\<exists>pid did es. out = EvAttached pid did # es \<and> session_events es \<and> oc \<noteq> FailedToConnect)"
    by auto
qed

text \<open>
  What a trace must look like, as a monitor.  Its registers: whether an attempt was made, the highest relay
  sequence emitted, the attempts since the last session ended, whether the receiver knows that the client is
  offline, whether the receiver believes the client attached, and whether the last attempt is unanswered.
\<close>

record monitor =
  mo_tried :: bool
  mo_cursor :: "int option"
  mo_attempts :: nat
  mo_offline :: bool
  mo_attached :: bool
  mo_open :: bool

definition monitor_start :: monitor where
  "monitor_start = \<lparr>mo_tried = False, mo_cursor = None, mo_attempts = 0, mo_offline = False, mo_attached = False,
     mo_open = False\<rparr>"

text \<open>\<open>Attached\<close> answers an attempt and is followed by \<open>Detached\<close> before the next pause, attempt or
  \<open>Attached\<close>; session events come only in between; a failed attempt is answered by \<open>Offline\<close>, unless the
  receiver knows already.\<close>

fun trace_ok :: "int option \<Rightarrow> monitor \<Rightarrow> trace_item list \<Rightarrow> bool" where
  "trace_ok base m [] \<longleftrightarrow> True"
| "trace_ok base m (Sleep d # t) \<longleftrightarrow> d = min (INITIAL_BACKOFF * 2 ^ mo_attempts m) BACKOFF_CAP
     \<and> \<not> mo_attached m \<and> (mo_open m \<longrightarrow> mo_offline m) \<and> trace_ok base m t"
| "trace_ok base m (Try s # t) \<longleftrightarrow>
     s = (if mo_tried m then (if mo_cursor m = None then base else mo_cursor m) else None)
     \<and> \<not> mo_attached m \<and> (mo_open m \<longrightarrow> mo_offline m)
     \<and> trace_ok base (m\<lparr>mo_tried := True, mo_attempts := Suc (mo_attempts m), mo_open := True\<rparr>) t"
| "trace_ok base m (Emit e # t) \<longleftrightarrow> (case e of
       EvAttached _ _ \<Rightarrow> mo_open m \<and> \<not> mo_attached m \<and> trace_ok base (m\<lparr>mo_attached := True, mo_open := False\<rparr>) t
     | EvDetached \<Rightarrow> mo_attached m \<and> trace_ok base (m\<lparr>mo_attempts := 0, mo_offline := False, mo_attached := False\<rparr>) t
     | EvOffline \<Rightarrow> mo_open m \<and> \<not> mo_attached m \<and> \<not> mo_offline m \<and> trace_ok base (m\<lparr>mo_offline := True\<rparr>) t
     | EvMessage msg \<Rightarrow> mo_attached m \<and> trace_ok base (m\<lparr>mo_cursor := bump (ms_relay_seq msg) (mo_cursor m)\<rparr>) t
     | _ \<Rightarrow> mo_attached m \<and> trace_ok base m t)"

lemma trace_emits:
  "session_events es \<Longrightarrow> mo_attached m \<Longrightarrow>
   trace_ok base m (map Emit es @ t) = trace_ok base (m\<lparr>mo_cursor := cursor_after es (mo_cursor m)\<rparr>) t"
  by (induction es arbitrary: m) (auto simp: session_events_def split: inbox_event.split)

lemma trace_emits_end: "session_events es \<Longrightarrow> mo_attached m \<Longrightarrow> trace_ok base m (map Emit es)"
  using trace_emits [of es m base "[]"] by simp

lemma backoff_step:
  "min (min (INITIAL_BACKOFF * 2 ^ n) BACKOFF_CAP * 2) BACKOFF_CAP = min (INITIAL_BACKOFF * 2 ^ Suc n) BACKOFF_CAP"
  by simp

text \<open>The monitor and the state of the client between two attempts.\<close>

definition in_step :: "monitor \<Rightarrow> client_state \<Rightarrow> bool" where
  "in_step m c \<longleftrightarrow> mo_tried m = (\<not> cl_first c) \<and> mo_cursor m = cl_max_seen c \<and> mo_offline m = cl_offline c
     \<and> cl_backoff c = min (INITIAL_BACKOFF * 2 ^ mo_attempts m) BACKOFF_CAP \<and> \<not> mo_attached m
     \<and> (mo_open m \<longrightarrow> mo_offline m)"

lemma reconnect_trace_ok: "in_step m c \<Longrightarrow> trace_ok base m (reconnect_loop parse srv base as c)"
proof (induction as arbitrary: c m)
  case Nil
  then show ?case by simp
next
  case (Cons a as)
  obtain oc out ms where r: "connect_once parse srv a (cl_max_seen c) = (oc, out, ms)" by (metis prod_cases3)
  note cur = connect_props(1) [OF r]
  let ?c = "c\<lparr>cl_first := False, cl_max_seen := ms\<rparr>"
  let ?m = "m\<lparr>mo_tried := True, mo_attempts := Suc (mo_attempts m), mo_open := True\<rparr>"
  have "trace_ok base ?m (map Emit out @
     (case oc of
       Stopped \<Rightarrow> []
     | Attached \<Rightarrow> Emit EvDetached #
         reconnect_loop parse srv base as (?c\<lparr>cl_backoff := INITIAL_BACKOFF, cl_offline := False\<rparr>)
     | FailedToConnect \<Rightarrow> (if cl_offline c then [] else [Emit EvOffline]) @
         reconnect_loop parse srv base as
           (?c\<lparr>cl_offline := True, cl_backoff := min (cl_backoff c * 2) BACKOFF_CAP\<rparr>)))"
    using connect_props(2) [OF r]
  proof
    assume none: "out = [] \<and> oc \<noteq> Attached"
    show ?thesis
    proof (cases "oc = FailedToConnect")
      case True
      have ms: "ms = cl_max_seen c" using cur True none by simp
      have step: "in_step m2 (?c\<lparr>cl_offline := True, cl_backoff := min (cl_backoff c * 2) BACKOFF_CAP\<rparr>)"
        if "m2 = ?m \<and> cl_offline c \<or> m2 = ?m\<lparr>mo_offline := True\<rparr>" for m2
      proof -
        have "in_step ?m (?c\<lparr>cl_offline := True, cl_backoff := min (cl_backoff c * 2) BACKOFF_CAP\<rparr>)" if "cl_offline c"
          using Cons.prems that backoff_step [of "mo_attempts m"] unfolding in_step_def ms by simp
        moreover have "in_step (?m\<lparr>mo_offline := True\<rparr>) (?c\<lparr>cl_offline := True, cl_backoff := min (cl_backoff c * 2) BACKOFF_CAP\<rparr>)"
          using Cons.prems backoff_step [of "mo_attempts m"] unfolding in_step_def ms by simp
        ultimately show ?thesis using that by blast
      qed
      have "mo_offline m = cl_offline c" "\<not> mo_attached m" using Cons.prems by (simp_all add: in_step_def)
      then show ?thesis
        using Cons.IH [OF step [of ?m]] Cons.IH [OF step [of "?m\<lparr>mo_offline := True\<rparr>"]] none True
        by (cases "cl_offline c") simp_all
    next
      case False
      then show ?thesis using none by (cases oc) simp_all
    qed
  next
    assume "\<exists>pid did es. out = EvAttached pid did # es \<and> session_events es \<and> oc \<noteq> FailedToConnect"
    then obtain pid did es where out: "out = EvAttached pid did # es" "session_events es" "oc \<noteq> FailedToConnect" by blast
    let ?m2 = "?m\<lparr>mo_attached := True, mo_open := False, mo_cursor := cursor_after es (mo_cursor m)\<rparr>"
    have "in_step (?m2\<lparr>mo_attempts := 0, mo_offline := False, mo_attached := False\<rparr>)
        (?c\<lparr>cl_backoff := INITIAL_BACKOFF, cl_offline := False\<rparr>)" if "oc = Attached"
      using Cons.prems cur that out by (simp add: in_step_def)
    from Cons.IH [OF this] show ?thesis
      using out Cons.prems by (cases oc) (simp_all add: trace_emits trace_emits_end in_step_def)
  qed
  then show ?case
    using Cons.prems r by (cases "cl_max_seen c") (auto simp: Let_def in_step_def)
qed

text \<open>C24. The trace of the client, whatever the socket does.  The first attempt asks for live messages only and
  every later one resumes after the highest relay sequence the receiver was given, or the baseline before the
  first.  The pause before an attempt is 500 ms doubled once for each attempt since the last session ended, at
  most 5 s.  Attached and Detached alternate: each session that ends sent Attached once, before its first
  message and after its attempt, and Detached before the next pause.  A failed attempt tells the receiver
  Offline, once until the next session ends.\<close>

theorem client_trace_ok: "trace_ok base monitor_start (reconnect_loop parse srv base script client_start)"
  by (rule reconnect_trace_ok) (simp add: in_step_def client_start_def monitor_start_def)

section \<open>Witness\<close>

theorem framing_chunk_invariant_witness:
  "feeds (\<lambda>s. Some (JStr s)) [''a'' @ [NL], ''b'', ''c'' @ [NL, CHR ''d'']] [] = (''d'', [Frame (JStr ''a''), Frame (JStr ''bc'')])"
proof -
  have "list_all from_utf8_ok [''a'' @ [NL], ''b'', ''c'' @ [NL, CHR ''d'']]" by code_simp
  moreover have "drain_lines (\<lambda>s. Some (JStr s)) (''a'' @ [NL] @ ''bc'' @ [NL, CHR ''d'']) =
      (''d'', [Frame (JStr ''a''), Frame (JStr ''bc'')])" by code_simp
  ultimately show ?thesis
    using framing_chunk_invariant [of "[''a'' @ [NL], ''b'', ''c'' @ [NL, CHR ''d'']]" "[]" "\<lambda>s. Some (JStr s)"] by simp
qed

end
