(* ===== verification/Wire.thy ===== *)
theory Wire
  imports Json "HOL-Library.Word"
begin

text \<open>
  The length-prefixed codec of \<open>bossclawd-proto/src/lib.rs\<close>: a frame is the big-endian length of its payload
  and the payload, read from the bytes of a stream.
\<close>

section \<open>The codec\<close>

abbreviation "MAX_FRAME \<equiv> (33554432 :: nat)"

datatype io_err = InvalidInput | InvalidData | UnexpectedEof

definition be_bytes :: "32 word \<Rightarrow> bytes" where
  "be_bytes w = map (\<lambda>k. char_of (unat w div 256 ^ k mod 256)) [3, 2, 1, 0]"

definition be_value :: "bytes \<Rightarrow> 32 word" where
  "be_value bs = word_of_nat (foldl (\<lambda>v c. v * 256 + of_char c) 0 bs)"

definition write_frame :: "bytes \<Rightarrow> (io_err, bytes) result" where
  "write_frame payload =
     (if length payload > MAX_FRAME then Inl InvalidInput
      else Inr (be_bytes (word_of_nat (length payload)) @ payload))"

text \<open>Reads from the bytes of the stream up to its end, and returns what follows the frame.\<close>

definition read_exact :: "nat \<Rightarrow> bytes \<Rightarrow> (io_err, bytes \<times> bytes) result" where
  "read_exact n s = (if length s < n then Inl UnexpectedEof else Inr (take n s, drop n s))"

definition read_frame :: "bytes \<Rightarrow> (io_err, bytes \<times> bytes) result" where
  "read_frame s =
     rbind (read_exact 4 s) (\<lambda>(len_buf, s1).
     let len = unat (be_value len_buf) in
     if len > MAX_FRAME then Inl InvalidData else read_exact len s1)"

lemma nat_be:
  fixes n :: nat
  assumes "n < 4294967296"
  shows "((n div 16777216 mod 256 * 256 + n div 65536 mod 256) * 256 + n div 256 mod 256) * 256 + n mod 256 = n"
proof -
  have q: "n div 65536 = n div 256 div 256" "n div 16777216 = n div 256 div 256 div 256"
    by (simp_all add: div_mult2_eq [symmetric])
  have "n div 256 div 256 div 256 mod 256 = n div 256 div 256 div 256"
    using assms by (simp add: div_mult2_eq [symmetric] less_mult_imp_div_less)
  then show ?thesis by (simp only: q div_mult_mod_eq)
qed

lemma be_roundtrip: "be_value (be_bytes w) = w"
proof -
  have "unat w < 4294967296" using unsigned_less [of w, where 'a = nat] by simp
  then have "foldl (\<lambda>v c. v * 256 + of_char c) 0 (be_bytes w) = unat w"
    using nat_be [of "unat w"] by (simp add: be_bytes_def)
  then show ?thesis by (simp add: be_value_def)
qed

lemma of_char_less: "(of_char c :: nat) < 256"
  by (metis of_char_mod_256 mod_less_divisor zero_less_numeral)

lemma be_inverse:
  assumes "length bs = 4"
  shows "be_bytes (be_value bs) = bs"
proof -
  obtain a b c d where bs: "bs = [a, b, c, d]"
    using assms by (auto simp: numeral_eq_Suc length_Suc_conv)
  define A B C D where defs: "A = (of_char a :: nat)" "B = (of_char b :: nat)" "C = (of_char c :: nat)" "D = (of_char d :: nat)"
  have lt: "A < 256" "B < 256" "C < 256" "D < 256"
    unfolding defs by (rule of_char_less)+
  let ?n = "((A * 256 + B) * 256 + C) * 256 + D"
  have "A \<le> 255" "B \<le> 255" "C \<le> 255" "D \<le> 255" using lt by simp_all
  then have "16777216 * A + 65536 * B + 256 * C + D \<le> 4294967295" by linarith
  then have "?n < 4294967296" by (simp add: algebra_simps)
  moreover have "be_value bs = word_of_nat ?n"
    unfolding be_value_def bs defs by (simp only: foldl.simps mult_zero_left add_0)
  ultimately have "unat (be_value bs) = ?n"
    by (simp only: unat_of_nat) simp
  moreover have digits: "?n div 16777216 mod 256 = A" "?n div 65536 mod 256 = B" "?n div 256 mod 256 = C" "?n mod 256 = D"
  proof -
    have "?n div 256 = (A * 256 + B) * 256 + C" using lt(4) by simp
    moreover have "((A * 256 + B) * 256 + C) div 256 = A * 256 + B" using lt(3) by simp
    moreover have "(A * 256 + B) div 256 = A" using lt(2) by simp
    moreover have "?n div 65536 = ?n div 256 div 256" "?n div 16777216 = ?n div 256 div 256 div 256"
      by (simp_all only: div_mult2_eq [symmetric]) simp_all
    moreover have "?n mod 256 = D" "((A * 256 + B) * 256 + C) mod 256 = C" "(A * 256 + B) mod 256 = B" "A mod 256 = A"
      using lt by (simp_all only: mod_mult_self3 mod_less)
    ultimately show "?n div 16777216 mod 256 = A" "?n div 65536 mod 256 = B" "?n div 256 mod 256 = C" "?n mod 256 = D"
      by (simp_all only:)
  qed
  moreover have "map (\<lambda>k. char_of (?n div 256 ^ k mod 256)) [3, 2, 1, 0] =
      [char_of (?n div 16777216 mod 256), char_of (?n div 65536 mod 256), char_of (?n div 256 mod 256), char_of (?n mod 256)]"
    by simp
  moreover have "\<dots> = bs"
    unfolding digits bs unfolding defs by simp
  ultimately show ?thesis by (simp only: be_bytes_def)
qed

lemma read_frame_write:
  assumes "write_frame payload = Inr frame"
  shows "read_frame (frame @ rest) = Inr (payload, rest)"
proof -
  have s: "frame = be_bytes (word_of_nat (length payload)) @ payload" and len: "length payload \<le> MAX_FRAME"
    using assms by (auto simp: write_frame_def split: if_splits)
  have "length (be_bytes w) = 4" for w by (simp add: be_bytes_def)
  moreover have "unat (word_of_nat (length payload) :: 32 word) = length payload"
    using len by (simp add: unat_of_nat)
  ultimately show ?thesis
    using len by (simp add: s read_frame_def read_exact_def be_roundtrip Let_def)
qed

text \<open>C15. The codec is exact: the reader accepts a stream and returns a payload and a remainder exactly when
  the stream is the frame that the writer makes of that payload followed by that remainder.\<close>

theorem read_frame_iff:
  "read_frame s = Inr (payload, rest) \<longleftrightarrow> (\<exists>frame. write_frame payload = Inr frame \<and> s = frame @ rest)"
proof
  assume "read_frame s = Inr (payload, rest)"
  then have len: "4 \<le> length s" "unat (be_value (take 4 s)) \<le> MAX_FRAME"
    and p: "length (drop 4 s) \<ge> unat (be_value (take 4 s))"
      "payload = take (unat (be_value (take 4 s))) (drop 4 s)" "rest = drop (unat (be_value (take 4 s))) (drop 4 s)"
    by (auto simp: read_frame_def read_exact_def rbind_eq_Inr Let_def split: if_splits)
  have "length payload = unat (be_value (take 4 s))" using p by simp
  then have "write_frame payload = Inr (take 4 s @ payload)"
    using len be_inverse [of "take 4 s"] by (simp add: write_frame_def)
  moreover have "s = (take 4 s @ payload) @ rest"
    unfolding p(2,3) append_assoc append_take_drop_id ..
  ultimately show "\<exists>frame. write_frame payload = Inr frame \<and> s = frame @ rest" by blast
next
  assume "\<exists>frame. write_frame payload = Inr frame \<and> s = frame @ rest"
  then show "read_frame s = Inr (payload, rest)"
    by (auto simp: read_frame_write)
qed

end
