(* ===== verification/Server.thy ===== *)
theory Server
  imports Wire
begin

text \<open>
  Roles and requests of \<open>bossclawd-proto/src/lib.rs\<close> and the connection handler of
  \<open>bossclawd/src/server.rs\<close>, on the bytes of a connection: handshake, rate limiter for capture pokes,
  role check, and the onboarding override for guests.  \<open>exec\<close> runs an admitted request on the engine,
  \<open>onb\<close> is the engine's own onboarding flag, \<open>clock n\<close> the time in milliseconds at the \<open>n\<close>-th frame and
  \<open>wok n\<close> whether the answer to it could be written.
\<close>

section \<open>Requests\<close>

datatype role = App | MemoryClient

datatype retire_target = TNote string | TPassage string nat

datatype resolve_action_wire = WRetireOlder | WRetireNewer | WKeepBoth | WDismiss

datatype request =
    RqStatus bool | RqAddGrant bool string | RqRevokeGrant bool string
  | RqSetFolderWritable bool string bool | RqListWritable bool | RqListGrants bool | RqRunIngest bool
  | RqRecall bool string nat | RqEvolveOnce bool | RqEvolveStatus bool | RqSetEvolveEnabled bool bool
  | RqSetProposalsEnabled bool bool | RqSetMandatesEnabled bool bool | RqMandatesEnabled bool
  | RqAddMandate bool string string string | RqRevokeMandate bool string | RqListMandates bool
  | RqMandateWrites bool | RqListFiles bool | RqListProposals bool | RqProposalPreview bool string
  | RqTeardown | RqApplyProposal bool string bool | RqUndoApply bool string
  | RqDeclineProposal bool string string | RqGetReasonerConfig bool | RqGetReasonerReady bool
  | RqSetReasonerConfig bool json | RqEnableCloudReasoner bool json | RqSetActiveModel bool string string
  | RqModelStatus bool | RqRemember bool string | RqCaptureNotify bool string string
  | RqSnapshot bool string string "string option" "string option" | RqListSessions bool
  | RqGetSession bool string | RqDeleteSession bool string | RqListNotes bool
  | RqSupersedeNote bool string string | RqRetireMemory bool retire_target | RqUnretire bool string
  | RqRecallStats bool | RqSetCaptureEnabled bool bool bool | RqCaptureEnabled bool
  | RqSetReflectEnabled bool bool | RqReflectEnabled bool | RqListConflicts bool
  | RqResolveConflict bool string resolve_action_wire

definition allows :: "role \<Rightarrow> request \<Rightarrow> bool" where
  "allows role req = (case role of App \<Rightarrow> True
     | MemoryClient \<Rightarrow> (case req of
         RqRecall _ _ _ \<Rightarrow> True | RqRemember _ _ \<Rightarrow> True | RqCaptureNotify _ _ _ \<Rightarrow> True
       | RqSnapshot _ _ _ _ _ \<Rightarrow> True | RqListConflicts _ \<Rightarrow> True | RqResolveConflict _ _ _ \<Rightarrow> True
       | _ \<Rightarrow> False))"

record hello =
  hl_proto_version :: "32 word"
  hl_role :: role

abbreviation "PROTO_VERSION \<equiv> (1 :: 32 word)"

datatype op_error_kind = KCore | KEmbedder | KReasoner | KStale | KRevoked | KNeedsLoudConfirm | KRejected
  | KJoin | KVault | KKeystoreInconsistent | KKeystoreDbMismatch | KNotPermitted

datatype 'r response = RspOk | RspNotOnboarded | RspBusy string | RspErr op_error_kind string | RspData 'r

section \<open>Errors of the engine\<close>

datatype engine_error = ENotOnboarded | EKeystoreInconsistent | EKeystoreDbMismatch string | EVault string | EJoin string

datatype engine_op_error = OOpen engine_error | OBusy string | OCore string | OEmbedder string | OReasoner string
  | OStale string | ORevoked string | ONeedsLoudConfirm string | ORejected string | OJoin string

fun engine_error_response :: "engine_error \<Rightarrow> 'r response" where
  "engine_error_response ENotOnboarded = RspNotOnboarded"
| "engine_error_response EKeystoreInconsistent = RspErr KKeystoreInconsistent []"
| "engine_error_response (EKeystoreDbMismatch m) = RspErr KKeystoreDbMismatch m"
| "engine_error_response (EVault m) = RspErr KVault m"
| "engine_error_response (EJoin m) = RspErr KJoin m"

fun op_error_response :: "engine_op_error \<Rightarrow> 'r response" where
  "op_error_response (OOpen e) = engine_error_response e"
| "op_error_response (OBusy op) = RspBusy op"
| "op_error_response (OCore m) = RspErr KCore m"
| "op_error_response (OEmbedder m) = RspErr KEmbedder m"
| "op_error_response (OReasoner m) = RspErr KReasoner m"
| "op_error_response (OStale m) = RspErr KStale m"
| "op_error_response (ORevoked m) = RspErr KRevoked m"
| "op_error_response (ONeedsLoudConfirm m) = RspErr KNeedsLoudConfirm m"
| "op_error_response (ORejected m) = RspErr KRejected m"
| "op_error_response (OJoin m) = RspErr KJoin m"

definition op_result :: "(engine_op_error, 'a) result \<Rightarrow> ('a \<Rightarrow> 'r response) \<Rightarrow> 'r response" where
  "op_result r ok = (case r of Inl e \<Rightarrow> op_error_response e | Inr v \<Rightarrow> ok v)"

definition unit_result :: "(engine_op_error, unit) result \<Rightarrow> 'r response" where
  "unit_result r = (case r of Inl e \<Rightarrow> op_error_response e | Inr _ \<Rightarrow> RspOk)"

definition protocol_err :: "string \<Rightarrow> 'r response" where
  "protocol_err m = RspErr KCore m"

definition not_permitted_response :: "'r response" where
  "not_permitted_response = RspErr KNotPermitted ''operation not permitted for this connection's role''"

definition rate_limited_response :: "'r response" where
  "rate_limited_response = RspErr KRejected ''rate limit exceeded for capture pokes on this connection''"

section \<open>The rate limiter\<close>

abbreviation "CAPTURE_POKE_RATE \<equiv> (10 :: nat)"
abbreviation "CAPTURE_POKE_WINDOW \<equiv> (60000 :: int)"

record limiter =
  li_start :: int
  li_count :: nat

definition new_limiter :: "int \<Rightarrow> limiter" where
  "new_limiter now = \<lparr>li_start = now, li_count = 0\<rparr>"

definition check_limit :: "int \<Rightarrow> limiter \<Rightarrow> limiter \<times> bool" where
  "check_limit now l =
     (let l1 = (if max 0 (now - li_start l) \<ge> CAPTURE_POKE_WINDOW then \<lparr>li_start = now, li_count = 0\<rparr> else l);
          l2 = l1\<lparr>li_count := Suc (li_count l1)\<rparr>
      in (l2, li_count l2 \<le> CAPTURE_POKE_RATE))"

definition is_rate_limited_op :: "request \<Rightarrow> bool" where
  "is_rate_limited_op r = (case r of RqCaptureNotify _ _ _ \<Rightarrow> True | RqSnapshot _ _ _ _ _ \<Rightarrow> True | _ \<Rightarrow> False)"

section \<open>Dispatch\<close>

fun override_onboarding_for_guest :: "bool \<Rightarrow> request \<Rightarrow> request option" where
  "override_onboarding_for_guest b (RqRecall _ q k) = Some (RqRecall b q k)"
| "override_onboarding_for_guest b (RqRemember _ t) = Some (RqRemember b t)"
| "override_onboarding_for_guest b (RqCaptureNotify _ s t) = Some (RqCaptureNotify b s t)"
| "override_onboarding_for_guest b (RqSnapshot _ p s i t) = Some (RqSnapshot b p s i t)"
| "override_onboarding_for_guest b (RqListConflicts _) = Some (RqListConflicts b)"
| "override_onboarding_for_guest b (RqResolveConflict _ i a) = Some (RqResolveConflict b i a)"
| "override_onboarding_for_guest b _ = None"

text \<open>The state afterwards, the answer, and the request that the engine rn.\<close>

definition dispatch_request :: "(request \<Rightarrow> 's \<Rightarrow> 's \<times> 'r response) \<Rightarrow> ('s \<Rightarrow> bool) \<Rightarrow> role \<Rightarrow> request \<Rightarrow> 's
    \<Rightarrow> 's \<times> 'r response \<times> request option" where
  "dispatch_request exec onb role req s =
     (if \<not> allows role req then (s, not_permitted_response, None)
      else case (case role of App \<Rightarrow> Some req | MemoryClient \<Rightarrow> override_onboarding_for_guest (onb s) req) of
        None \<Rightarrow> (s, not_permitted_response, None)
      | Some req' \<Rightarrow> (case exec req' s of (s', resp) \<Rightarrow> (s', resp, Some req')))"

section \<open>The connection\<close>

record ('s, 'r) served =
  sv_time :: int
  sv_state :: 's
  sv_request :: "request option"
  sv_ran :: "request option"
  sv_response :: "'r response"

lemma read_frame_shorter: "read_frame s = Inr (frame, rest) \<Longrightarrow> length rest < length s"
  by (auto simp: read_frame_def read_exact_def rbind_eq_Inr Let_def split: if_splits)

function serve_loop :: "(bytes \<Rightarrow> request option) \<Rightarrow> (request \<Rightarrow> 's \<Rightarrow> 's \<times> 'r response) \<Rightarrow> ('s \<Rightarrow> bool)
    \<Rightarrow> (nat \<Rightarrow> int) \<Rightarrow> (nat \<Rightarrow> bool) \<Rightarrow> role \<Rightarrow> nat \<Rightarrow> limiter \<Rightarrow> 's \<Rightarrow> bytes \<Rightarrow> ('s, 'r) served list" where
  "serve_loop parse exec onb clock wok role n l s stream =
     (case read_frame stream of
        Inl e \<Rightarrow> []
      | Inr (frame, rest) \<Rightarrow>
          let (l', s', resp, rn) = (case parse frame of
              None \<Rightarrow> (l, s, protocol_err ''malformed request frame'', None)
            | Some req \<Rightarrow>
                let (l', ok) = (if is_rate_limited_op req then check_limit (clock n) l else (l, True)) in
                if ok then (l', dispatch_request exec onb role req s) else (l', s, rate_limited_response, None))
          in \<lparr>sv_time = clock n, sv_state = s, sv_request = parse frame, sv_ran = rn, sv_response = resp\<rparr>
             # (if wok n then serve_loop parse exec onb clock wok role (Suc n) l' s' rest else []))"
  by pat_completeness auto
termination
  by (relation "measure (\<lambda>(parse, exec, onb, clock, wok, role, n, l, s, stream). length stream)")
    (auto dest: read_frame_shorter)

declare serve_loop.simps [simp del]

datatype ('s, 'r) connection = Refused "'r response option" | Served "('s, 'r) served list"

definition serve_connection :: "(bytes \<Rightarrow> hello option) \<Rightarrow> (bytes \<Rightarrow> request option) \<Rightarrow> (request \<Rightarrow> 's \<Rightarrow> 's \<times> 'r response)
    \<Rightarrow> ('s \<Rightarrow> bool) \<Rightarrow> (nat \<Rightarrow> int) \<Rightarrow> (nat \<Rightarrow> bool) \<Rightarrow> 's \<Rightarrow> bytes \<Rightarrow> ('s, 'r) connection" where
  "serve_connection parse_hello parse exec onb clock wok s stream =
     (case read_frame stream of
        Inl e \<Rightarrow> Refused None
      | Inr (first, rest) \<Rightarrow> (case parse_hello first of
            None \<Rightarrow> Refused (Some (protocol_err ''expected Hello handshake''))
          | Some h \<Rightarrow>
              if hl_proto_version h \<noteq> PROTO_VERSION then Refused (Some (protocol_err ''protocol version mismatch''))
              else if \<not> wok 0 then Refused None
              else Served (serve_loop parse exec onb clock wok (hl_role h) 1 (new_limiter (clock 0)) s rest)))"

section \<open>What a connection can run\<close>

definition guest_flag :: "bool \<Rightarrow> request \<Rightarrow> request" where
  "guest_flag b req = (case req of RqRecall _ q k \<Rightarrow> RqRecall b q k | RqRemember _ t \<Rightarrow> RqRemember b t
     | RqCaptureNotify _ s t \<Rightarrow> RqCaptureNotify b s t | RqSnapshot _ p s i t \<Rightarrow> RqSnapshot b p s i t
     | RqListConflicts _ \<Rightarrow> RqListConflicts b | RqResolveConflict _ i a \<Rightarrow> RqResolveConflict b i a | r \<Rightarrow> r)"

lemma override_iff: "override_onboarding_for_guest b req = (if allows MemoryClient req then Some (guest_flag b req) else None)"
  by (cases req) (simp_all add: allows_def guest_flag_def)

lemma dispatch_ran:
  "dispatch_request exec onb role req s = (if allows role req
     then (let r = (if role = App then req else guest_flag (onb s) req) in (fst (exec r s), snd (exec r s), Some r))
     else (s, not_permitted_response, None))"
  by (cases role) (auto simp: dispatch_request_def override_iff Let_def split_def)

text \<open>One step of the connection loop.\<close>

definition serve_one :: "(bytes \<Rightarrow> request option) \<Rightarrow> (request \<Rightarrow> 's \<Rightarrow> 's \<times> 'r response) \<Rightarrow> ('s \<Rightarrow> bool) \<Rightarrow> role
    \<Rightarrow> int \<Rightarrow> limiter \<Rightarrow> 's \<Rightarrow> bytes \<Rightarrow> limiter \<times> 's \<times> 'r response \<times> request option" where
  "serve_one parse exec onb role now l s frame = (case parse frame of
      None \<Rightarrow> (l, s, protocol_err ''malformed request frame'', None)
    | Some req \<Rightarrow>
        let (l', ok) = (if is_rate_limited_op req then check_limit now l else (l, True)) in
        if ok then (l', dispatch_request exec onb role req s) else (l', s, rate_limited_response, None))"

lemma serve_loop_step:
  "serve_loop parse exec onb clock wok role n l s stream =
     (case read_frame stream of Inl e \<Rightarrow> []
      | Inr (frame, rest) \<Rightarrow> (case serve_one parse exec onb role (clock n) l s frame of (l', s', resp, rn) \<Rightarrow>
          \<lparr>sv_time = clock n, sv_state = s, sv_request = parse frame, sv_ran = rn, sv_response = resp\<rparr>
          # (if wok n then serve_loop parse exec onb clock wok role (Suc n) l' s' rest else [])))"
  by (subst serve_loop.simps) (simp add: serve_one_def split: sum.split prod.split)

text \<open>C14. A connection runs only what its role allows: whatever bytes a peer sends, every request that
  reaches the engine was received on this connection and is allowed for its role, a guest's with the
  engine's own onboarding flag in place of the one it claimed; a request that the role does not allow
  is answered with a refusal and never reaches the engine.\<close>

theorem served_requests_allowed:
  assumes "x \<in> set (serve_loop parse exec onb clock wok role n l s stream)"
  shows "(sv_ran x \<noteq> None \<longrightarrow> (\<exists>q. sv_request x = Some q \<and> allows role q \<and>
      sv_ran x = Some (if role = App then q else guest_flag (onb (sv_state x)) q)
      \<and> sv_response x = snd (exec (the (sv_ran x)) (sv_state x))))
    \<and> (\<forall>q. sv_request x = Some q \<longrightarrow> \<not> allows role q \<longrightarrow>
      sv_ran x = None \<and> sv_response x = not_permitted_response)"
proof -
  have poke: "allows role q" if "is_rate_limited_op q" for q
    using that by (cases q; cases role) (simp_all add: is_rate_limited_op_def allows_def)
  show ?thesis
    using assms
  proof (induction "length stream" arbitrary: n l s stream rule: less_induct)
    case less
    have "read_frame stream \<noteq> Inl e" for e
      using less.prems by (subst (asm) serve_loop_step) auto
    then obtain frame rest where f: "read_frame stream = Inr (frame, rest)"
      by (metis prod.exhaust sum.exhaust)
    obtain l' s' resp rn where o: "serve_one parse exec onb role (clock n) l s frame = (l', s', resp, rn)"
      by (metis prod_cases4)
    let ?x = "\<lparr>sv_time = clock n, sv_state = s, sv_request = parse frame, sv_ran = rn, sv_response = resp\<rparr>"
    have "x = ?x \<or> x \<in> set (serve_loop parse exec onb clock wok role (Suc n) l' s' rest)"
      using less.prems by (subst (asm) serve_loop_step) (auto simp: f o split: if_splits)
    then show ?case
    proof
      assume "x = ?x"
      then show ?thesis
        using o poke unfolding serve_one_def
        by (auto simp: dispatch_ran Let_def split: option.splits if_splits prod.splits)
    next
      assume "x \<in> set (serve_loop parse exec onb clock wok role (Suc n) l' s' rest)"
      then show ?thesis using less.hyps read_frame_shorter [OF f] by blast
    qed
  qed
qed

section \<open>The rate of capture pokes\<close>

fun accepted :: "limiter \<Rightarrow> int list \<Rightarrow> int list" where
  "accepted l [] = []"
| "accepted l (t # ts) = (case check_limit t l of (l', ok) \<Rightarrow> (if ok then [t] else []) @ accepted l' ts)"

definition in_window :: "int \<Rightarrow> int list \<Rightarrow> nat" where
  "in_window x ts = length (filter (\<lambda>t. x \<le> t \<and> t < x + CAPTURE_POKE_WINDOW) ts)"

lemma in_window_simps [simp]:
  "in_window x [] = 0"
  "in_window x (xs @ ys) = in_window x xs + in_window x ys"
  "in_window x (t # ts) = (if x \<le> t \<and> t < x + CAPTURE_POKE_WINDOW then 1 else 0) + in_window x ts"
  by (simp_all add: in_window_def)

lemma accepted_sub: "set (accepted l ts) \<subseteq> set ts"
  by (induction l ts rule: accepted.induct) (auto split: prod.splits if_splits)

lemma window_later: "(\<forall>t\<in>set ts. x + CAPTURE_POKE_WINDOW \<le> t) \<Longrightarrow> in_window x ts = 0"
  by (induction ts) auto

lemma window_earlier: "(\<forall>t\<in>set ts. t < x) \<Longrightarrow> in_window x ts = 0"
  by (induction ts) auto

lemma check_near: "t < li_start l + CAPTURE_POKE_WINDOW \<Longrightarrow>
   check_limit t l = (l\<lparr>li_count := Suc (li_count l)\<rparr>, Suc (li_count l) \<le> CAPTURE_POKE_RATE)"
  by (auto simp: check_limit_def Let_def max_def)

text \<open>Once a limiter window starts inside the interval, at most its own quota falls into it.\<close>

lemma window_quota:
  assumes "sorted ts" "x \<le> li_start l"
  shows "in_window x (accepted l ts) \<le> CAPTURE_POKE_RATE - li_count l"
  using assms
proof (induction l ts rule: accepted.induct)
  case (1 l)
  then show ?case by simp
next
  case (2 l t ts)
  show ?case
  proof (cases "t - li_start l \<ge> CAPTURE_POKE_WINDOW")
    case True
    then have "\<forall>t'\<in>set (accepted l (t # ts)). x + CAPTURE_POKE_WINDOW \<le> t'"
      using accepted_sub [of l "t # ts"] 2 by (fastforce simp del: accepted.simps)
    then show ?thesis using window_later by simp
  next
    case False
    then have "check_limit t l = (l\<lparr>li_count := Suc (li_count l)\<rparr>, Suc (li_count l) \<le> CAPTURE_POKE_RATE)"
      by (intro check_near) simp
    then show ?thesis using 2 by (auto simp: le_diff_conv)
  qed
qed

lemma window_prefix:
  "\<forall>t\<in>set ts. t < li_start l + CAPTURE_POKE_WINDOW \<Longrightarrow> length (accepted l ts) \<le> CAPTURE_POKE_RATE - li_count l"
proof (induction l ts rule: accepted.induct)
  case (1 l)
  then show ?case by simp
next
  case (2 l t ts)
  then have "check_limit t l = (l\<lparr>li_count := Suc (li_count l)\<rparr>, Suc (li_count l) \<le> CAPTURE_POKE_RATE)"
    by (intro check_near) simp
  then show ?case using 2 by (auto simp: le_diff_conv)
qed

lemma accepted_split:
  "\<forall>t\<in>set pre. t < li_start l + CAPTURE_POKE_WINDOW \<Longrightarrow> li_start l + CAPTURE_POKE_WINDOW \<le> t' \<Longrightarrow>
   accepted l (pre @ t' # post) = accepted l pre @ t' # accepted \<lparr>li_start = t', li_count = 1\<rparr> post"
proof (induction l pre rule: accepted.induct)
  case (1 l)
  then show ?case by (simp add: check_limit_def Let_def)
next
  case (2 l t ts)
  then have "check_limit t l = (l\<lparr>li_count := Suc (li_count l)\<rparr>, Suc (li_count l) \<le> CAPTURE_POKE_RATE)"
    by (intro check_near) simp
  then show ?case using 2 by simp
qed

lemma in_window_length: "in_window x ts \<le> length ts"
  by (simp add: in_window_def)

text \<open>An interval of the window's length meets at most two limiter windows.\<close>

lemma window_twice:
  assumes "sorted ts"
  shows "in_window x (accepted l ts) \<le> 2 * CAPTURE_POKE_RATE"
  using assms
proof (induction "length ts" arbitrary: l ts rule: less_induct)
  case less
  let ?near = "\<lambda>t. t < li_start l + CAPTURE_POKE_WINDOW"
  let ?pre = "takeWhile ?near ts"
  have pre: "\<forall>t\<in>set ?pre. ?near t" by (auto dest: set_takeWhileD)
  have few: "length (accepted l ?pre) \<le> CAPTURE_POKE_RATE"
    using window_prefix [OF pre] by simp
  show ?case
  proof (cases "dropWhile ?near ts")
    case Nil
    then have "?pre = ts" by (metis append_Nil2 takeWhile_dropWhile_id)
    then have "in_window x (accepted l ts) \<le> length (accepted l ?pre)" using in_window_length by metis
    then show ?thesis using few by simp
  next
    case (Cons t' post)
    have ts: "ts = ?pre @ t' # post" using Cons takeWhile_dropWhile_id by metis
    have far: "li_start l + CAPTURE_POKE_WINDOW \<le> t'" using Cons hd_dropWhile [of ?near ts] by simp
    let ?l = "\<lparr>li_start = t', li_count = 1\<rparr>"
    have acc: "accepted l ts = accepted l ?pre @ t' # accepted ?l post"
      using accepted_split [OF pre far, of post] ts by simp
    have srt: "sorted post" "\<forall>t\<in>set ?pre. t \<le> t'"
      using less.prems by (subst (asm) ts, simp add: sorted_append)+
    show ?thesis
    proof (cases "x \<le> t'")
      case True
      then have "in_window x (accepted ?l post) \<le> CAPTURE_POKE_RATE - 1"
        using window_quota [OF srt(1), of x ?l] by simp
      then show ?thesis using few in_window_length [of x "accepted l ?pre"] by (simp add: acc)
    next
      case False
      have "\<forall>t\<in>set (accepted l ?pre). t < x"
        using accepted_sub [of l ?pre] srt(2) False by fastforce
      then have "in_window x (accepted l ?pre) = 0" by (rule window_earlier)
      moreover have "length post < length ts" by (subst ts) simp
      ultimately show ?thesis using less.hyps [OF _ srt(1), of ?l] False by (simp add: acc)
    qed
  qed
qed

definition is_poke :: "('s, 'r) served \<Rightarrow> bool" where
  "is_poke x \<longleftrightarrow> (case sv_request x of None \<Rightarrow> False | Some q \<Rightarrow> is_rate_limited_op q)"

lemma serve_one_poke:
  assumes "serve_one parse exec onb role now l s frame = (l', s', resp, rn)"
  shows "(case parse frame of Some q \<Rightarrow> is_rate_limited_op q | None \<Rightarrow> False) \<Longrightarrow> (l', rn \<noteq> None) = check_limit now l"
    and "\<not> (case parse frame of Some q \<Rightarrow> is_rate_limited_op q | None \<Rightarrow> False) \<Longrightarrow> l' = l"
proof -
  have poke: "allows role q" if "is_rate_limited_op q" for q
    using that by (cases q; cases role) (simp_all add: is_rate_limited_op_def allows_def)
  show "(l', rn \<noteq> None) = check_limit now l" if lim: "case parse frame of Some q \<Rightarrow> is_rate_limited_op q | None \<Rightarrow> False"
  proof -
    obtain q where q: "parse frame = Some q" "is_rate_limited_op q"
      using lim by (cases "parse frame") auto
    then show ?thesis
      using assms poke [OF q(2)] q(2) unfolding serve_one_def q(1) option.case
      by (cases "check_limit now l") (auto simp: dispatch_ran Let_def split: if_splits)
  qed
  show "l' = l" if "\<not> (case parse frame of Some q \<Rightarrow> is_rate_limited_op q | None \<Rightarrow> False)"
    using that assms unfolding serve_one_def by (auto split: option.splits)
qed

lemma serve_loop_accepted:
  "map sv_time (filter (\<lambda>x. is_poke x \<and> sv_ran x \<noteq> None) (serve_loop parse exec onb clock wok role n l s stream)) =
   accepted l (map sv_time (filter is_poke (serve_loop parse exec onb clock wok role n l s stream)))"
proof (induction "length stream" arbitrary: n l s stream rule: less_induct)
  case less
  show ?case
  proof (cases "read_frame stream")
    case (Inl e)
    then show ?thesis by (subst (1 2) serve_loop_step) simp
  next
    case (Inr fr)
    obtain frame rest where f: "read_frame stream = Inr (frame, rest)" using Inr by (cases fr) simp
    obtain l' s' resp rn where o: "serve_one parse exec onb role (clock n) l s frame = (l', s', resp, rn)"
      by (metis prod_cases4)
    let ?x = "\<lparr>sv_time = clock n, sv_state = s, sv_request = parse frame, sv_ran = rn, sv_response = resp\<rparr>"
    let ?tl = "if wok n then serve_loop parse exec onb clock wok role (Suc n) l' s' rest else []"
    have run: "serve_loop parse exec onb clock wok role n l s stream = ?x # ?tl"
      by (subst serve_loop_step) (simp add: f o)
    have IH: "map sv_time (filter (\<lambda>x. is_poke x \<and> sv_ran x \<noteq> None) ?tl) = accepted l' (map sv_time (filter is_poke ?tl))"
      using less.hyps [OF read_frame_shorter [OF f]] by simp
    show ?thesis
    proof (cases "is_poke ?x")
      case True
      then have c: "check_limit (clock n) l = (l', rn \<noteq> None)"
        by (intro serve_one_poke(1) [OF o, symmetric]) (auto simp: is_poke_def split: option.splits)
      have "map sv_time (filter (\<lambda>x. is_poke x \<and> sv_ran x \<noteq> None) (?x # ?tl)) =
          (if rn \<noteq> None then [clock n] else []) @ accepted l' (map sv_time (filter is_poke ?tl))"
        using True IH by simp
      then show ?thesis using True unfolding run by (simp add: c)
    next
      case False
      then have "l' = l"
        by (intro serve_one_poke(2) [OF o]) (auto simp: is_poke_def split: option.splits)
      then show ?thesis using False IH unfolding run by simp
    qed
  qed
qed

lemma serve_loop_times:
  "\<exists>k. map sv_time (serve_loop parse exec onb clock wok role n l s stream) = map clock [n..<n + k]"
proof (induction "length stream" arbitrary: n l s stream rule: less_induct)
  case less
  show ?case
  proof (cases "read_frame stream")
    case (Inl e)
    then show ?thesis by (subst serve_loop_step) (auto intro: exI [of _ 0])
  next
    case (Inr fr)
    obtain frame rest where f: "read_frame stream = Inr (frame, rest)" using Inr by (cases fr) simp
    obtain l' s' resp rn where o: "serve_one parse exec onb role (clock n) l s frame = (l', s', resp, rn)"
      by (metis prod_cases4)
    obtain k where k: "map sv_time (serve_loop parse exec onb clock wok role (Suc n) l' s' rest) = map clock [Suc n..<Suc n + k]"
      using less.hyps [OF read_frame_shorter [OF f]] by blast
    show ?thesis
    proof (cases "wok n")
      case True
      then have "map sv_time (serve_loop parse exec onb clock wok role n l s stream) = map clock [n..<n + Suc k]"
        by (subst serve_loop_step) (simp add: f o k upt_conv_Cons del: upt_Suc)
      then show ?thesis by blast
    next
      case False
      then have "map sv_time (serve_loop parse exec onb clock wok role n l s stream) = map clock [n..<n + 1]"
        by (subst serve_loop_step) (simp add: f o)
      then show ?thesis by blast
    qed
  qed
qed

text \<open>C25. Capture pokes are bounded on every connection: in any interval of sixty seconds at most twenty of
  them reach the engine, twice the quota of one limiter window.\<close>

theorem capture_pokes_bounded:
  assumes "mono clock"
  shows "in_window x (map sv_time (filter (\<lambda>v. is_poke v \<and> sv_ran v \<noteq> None)
      (serve_loop parse exec onb clock wok role n l s stream))) \<le> 2 * CAPTURE_POKE_RATE"
proof -
  obtain k where k: "map sv_time (serve_loop parse exec onb clock wok role n l s stream) = map clock [n..<n + k]"
    using serve_loop_times [of parse exec onb clock wok role n l s stream] by (elim exE) (rule that)
  have "sorted (map clock [n..<n + k])"
    using assms by (auto simp: sorted_iff_nth_mono intro: monoD)
  then have "sorted (map sv_time (filter is_poke (serve_loop parse exec onb clock wok role n l s stream)))"
    unfolding k [symmetric] by (rule sorted_filter)
  then show ?thesis
    unfolding serve_loop_accepted by (rule window_twice)
qed

section \<open>Witnesses\<close>

text \<open>A guest that claims to be onboarded asks for a recall, then for a grant.\<close>

definition demo_parse :: "bytes \<Rightarrow> request option" where
  "demo_parse b = (if b = ''r'' then Some (RqRecall True ''q'' 1) else if b = ''g'' then Some (RqAddGrant True ''/'') else None)"

definition demo_stream :: bytes where
  "demo_stream = projr (write_frame ''r'') @ projr (write_frame ''g'')"

definition demo_served :: "(nat, nat) served list" where
  "demo_served = serve_loop demo_parse (\<lambda>r s. (Suc s, RspData s)) (\<lambda>_. False) int (\<lambda>_. True) MemoryClient 1
     (new_limiter 0) 0 demo_stream"

lemma demo_served_eq:
  "demo_served =
    [\<lparr>sv_time = 1, sv_state = 0, sv_request = Some (RqRecall True ''q'' 1), sv_ran = Some (RqRecall False ''q'' 1), sv_response = RspData 0\<rparr>,
     \<lparr>sv_time = 2, sv_state = 1, sv_request = Some (RqAddGrant True ''/''), sv_ran = None, sv_response = not_permitted_response\<rparr>]"
proof -
  have w: "\<exists>f. write_frame [c] = Inr f" for c by (simp add: write_frame_def)
  obtain r g where rg: "write_frame ''r'' = Inr r" "write_frame ''g'' = Inr g" using w by blast
  have nil: "read_frame [] = Inl UnexpectedEof" by (simp add: read_frame_def read_exact_def)
  have one: "read_frame (r @ g) = Inr (''r'', g)" "read_frame g = Inr (''g'', [])"
    using read_frame_write [OF rg(1), of g] read_frame_write [OF rg(2), of "[]"] by simp_all
  have ds: "demo_stream = r @ g" by (simp add: demo_stream_def rg)
  show ?thesis
    unfolding demo_served_def ds
    by (subst serve_loop_step, simp add: one serve_one_def demo_parse_def is_rate_limited_op_def dispatch_ran allows_def guest_flag_def,
      subst serve_loop_step, simp add: one serve_one_def demo_parse_def is_rate_limited_op_def dispatch_ran allows_def,
      subst serve_loop_step, simp add: nil)
qed

theorem served_requests_allowed_witness:
  "sv_ran (demo_served ! 0) = Some (RqRecall False ''q'' 1) \<and> sv_response (demo_served ! 1) = not_permitted_response"
proof -
  have "demo_served ! 0 \<in> set demo_served" "demo_served ! 1 \<in> set demo_served" by (simp_all add: demo_served_eq)
  note m = this [unfolded demo_served_def, THEN served_requests_allowed, folded demo_served_def]
  have q: "sv_request (demo_served ! 0) = Some (RqRecall True ''q'' 1)" "sv_ran (demo_served ! 0) \<noteq> None"
    "sv_request (demo_served ! 1) = Some (RqAddGrant True ''/'')" "MemoryClient \<noteq> App"
    by (simp_all add: demo_served_eq)
  have "sv_ran (demo_served ! 0) = Some (guest_flag False (RqRecall True ''q'' 1))"
    using m(1) q by auto
  moreover have "sv_response (demo_served ! 1) = not_permitted_response"
    using m(2) q(3) by (auto simp: allows_def)
  ultimately show ?thesis by (simp add: guest_flag_def)
qed

theorem capture_pokes_bounded_witness:
  "in_window 0 (map sv_time (filter (\<lambda>v. is_poke v \<and> sv_ran v \<noteq> None) demo_served)) \<le> 20"
proof -
  have "mono int" by (simp add: mono_def)
  then show ?thesis
    using capture_pokes_bounded [of int 0 demo_parse "\<lambda>r s. (Suc s, RspData s)" "\<lambda>_. False" "\<lambda>_. True" MemoryClient 1
      "new_limiter 0" 0 demo_stream]
    by (simp add: demo_served_def)
qed

end
