(* ===== verification/Floats.thy ===== *)
theory Floats
  imports Complex_Main Prelude "HOL-Library.Log_Nat"
begin

text \<open>
  The IEEE 754 values \<open>f32\<close> and \<open>f64\<close> as the retrieval code uses them: a finite value is a sign and a
  rational magnitude, every operation rounds to nearest, ties to even.  NaN payloads and the sign of a
  NaN are not distinguished.
\<close>

section \<open>Values and formats\<close>

datatype float = NaN | Inf bool | Fin bool rat

record float_format =
  ff_prec :: int
  ff_emin :: int
  ff_emax :: int

definition F32 :: float_format where
  "F32 = \<lparr>ff_prec = 24, ff_emin = - 149, ff_emax = 128\<rparr>"

definition F64 :: float_format where
  "F64 = \<lparr>ff_prec = 53, ff_emin = - 1074, ff_emax = 1024\<rparr>"

definition pow2 :: "int \<Rightarrow> rat" where
  "pow2 e = (if 0 \<le> e then 2 ^ nat e else 1 / 2 ^ nat (- e))"

text \<open>The binary exponent of a positive rational.\<close>

definition ilog2 :: "rat \<Rightarrow> int" where
  "ilog2 x = (let (a, b) = quotient_of x; l = bitlen a - bitlen b in if pow2 l \<le> x then l else l - 1)"

definition round_even :: "rat \<Rightarrow> int" where
  "round_even x =
     (let f = \<lfloor>x\<rfloor>; d = x - of_int f in
      if d < 1 / 2 then f else if d > 1 / 2 then f + 1 else if even f then f else f + 1)"

definition fround :: "float_format \<Rightarrow> bool \<Rightarrow> rat \<Rightarrow> float" where
  "fround F s x =
     (if x = 0 then Fin s 0
      else let e = max (ff_emin F) (ilog2 x - (ff_prec F - 1));
               m = of_int (round_even (x / pow2 e)) * pow2 e
           in if ilog2 m \<ge> ff_emax F then Inf s else Fin s m)"

definition of_rational :: "float_format \<Rightarrow> rat \<Rightarrow> float" where
  "of_rational F x = fround F (x < 0) \<bar>x\<bar>"

definition signed_val :: "bool \<Rightarrow> rat \<Rightarrow> rat" where
  "signed_val s m = (if s then - m else m)"

section \<open>Arithmetic\<close>

fun fneg :: "float \<Rightarrow> float" where
  "fneg NaN = NaN"
| "fneg (Inf s) = Inf (\<not> s)"
| "fneg (Fin s m) = Fin (\<not> s) m"

fun fadd :: "float_format \<Rightarrow> float \<Rightarrow> float \<Rightarrow> float" where
  "fadd F (Inf s) (Inf t) = (if s = t then Inf s else NaN)"
| "fadd F (Inf s) (Fin t n) = Inf s"
| "fadd F (Fin s m) (Inf t) = Inf t"
| "fadd F (Fin s m) (Fin t n) =
     (let v = signed_val s m + signed_val t n in if v = 0 then Fin (s \<and> t) 0 else of_rational F v)"
| "fadd F _ _ = NaN"

definition fsub :: "float_format \<Rightarrow> float \<Rightarrow> float \<Rightarrow> float" where
  "fsub F a b = fadd F a (fneg b)"

fun fmul :: "float_format \<Rightarrow> float \<Rightarrow> float \<Rightarrow> float" where
  "fmul F (Inf s) (Inf t) = Inf (s \<noteq> t)"
| "fmul F (Inf s) (Fin t n) = (if n = 0 then NaN else Inf (s \<noteq> t))"
| "fmul F (Fin s m) (Inf t) = (if m = 0 then NaN else Inf (s \<noteq> t))"
| "fmul F (Fin s m) (Fin t n) = fround F (s \<noteq> t) (m * n)"
| "fmul F _ _ = NaN"

fun fdiv :: "float_format \<Rightarrow> float \<Rightarrow> float \<Rightarrow> float" where
  "fdiv F (Inf s) (Inf t) = NaN"
| "fdiv F (Inf s) (Fin t n) = Inf (s \<noteq> t)"
| "fdiv F (Fin s m) (Inf t) = Fin (s \<noteq> t) 0"
| "fdiv F (Fin s m) (Fin t n) =
     (if n = 0 then (if m = 0 then NaN else Inf (s \<noteq> t)) else fround F (s \<noteq> t) (m / n))"
| "fdiv F _ _ = NaN"

text \<open>The conversion between the formats rounds.\<close>

fun to_format :: "float_format \<Rightarrow> float \<Rightarrow> float" where
  "to_format F (Fin s m) = fround F s m"
| "to_format F x = x"

section \<open>Comparison\<close>

text \<open>\<open>partial_cmp\<close> is \<open>None\<close> on a NaN and does not tell the zeros apart; \<open>total_cmp\<close> is the order of the keys.\<close>

fun fge :: "float \<Rightarrow> float \<Rightarrow> bool" where
  "fge NaN y = False"
| "fge x NaN = False"
| "fge (Inf s) y = (\<not> s \<or> y = Inf True)"
| "fge x (Inf t) = t"
| "fge (Fin s m) (Fin t n) = (signed_val s m \<ge> signed_val t n)"

fun total_key :: "float \<Rightarrow> int \<times> rat" where
  "total_key NaN = (2, 0)"
| "total_key (Inf s) = (if s then - 2 else 1, 0)"
| "total_key (Fin s m) = (if s then (- 1, - m) else (0, m))"

lemma total_key_inj: "total_key x = total_key y \<longleftrightarrow> x = y"
  by (cases x; cases y) auto

lemma fge_total: "fge x x \<longleftrightarrow> x \<noteq> NaN"
  by (cases x) auto

lemma fge_trans: "fge x y \<Longrightarrow> fge y z \<Longrightarrow> fge x z"
  by (cases x; cases y; cases z) (auto simp: signed_val_def split: if_splits)

end
