(* ===== verification/VectorIndex.thy ===== *)
theory VectorIndex
  imports Conflicts Floats
begin

text \<open>
  The keys and the \<open>HnswIndex\<close> of \<open>index.rs\<close>.  The graph search of the hnsw crate is the argument
  \<open>knn\<close>: from the inserted points, a query, the number of neighbours and \<open>ef\<close> it returns slots with
  their distances.  Vectors are an abstract type.
\<close>

section \<open>Keys\<close>

definition encode_chunk_key :: "string \<Rightarrow> nat \<Rightarrow> string" where
  "encode_chunk_key event_id ix = event_id @ [US] @ show_nat ix"

text \<open>\<open>split_once\<close>: at the first occurrence.\<close>

fun split_once :: "char \<Rightarrow> string \<Rightarrow> (string \<times> string) option" where
  "split_once c [] = None"
| "split_once c (x # xs) = (if x = c then Some ([], xs) else map_option (\<lambda>(a, b). (x # a, b)) (split_once c xs))"

text \<open>\<open>str::parse\<close> of a \<open>usize\<close>: an optional plus sign, at least one digit, no overflow.\<close>

definition digit_char :: "char \<Rightarrow> bool" where
  "digit_char c \<longleftrightarrow> 48 \<le> (of_char c :: nat) \<and> (of_char c :: nat) \<le> 57"

definition parse_usize :: "string \<Rightarrow> nat option" where
  "parse_usize s =
     (let ds = (case s of c # cs \<Rightarrow> if c = CHR ''+'' then cs else s | [] \<Rightarrow> []);
          n = foldl (\<lambda>v c. 10 * v + digit_val c) 0 ds
      in if ds = [] \<or> \<not> list_all digit_char ds \<or> \<not> n < 18446744073709551616 then None else Some n)"

definition decode_chunk_key :: "string \<Rightarrow> (string \<times> nat) option" where
  "decode_chunk_key key = Option.bind (split_once US key) (\<lambda>(i, ix). map_option (\<lambda>n. (i, n)) (parse_usize ix))"

definition event_id_of :: "string \<Rightarrow> string" where
  "event_id_of key = (case split_once US key of None \<Rightarrow> key | Some (i, _) \<Rightarrow> i)"

definition encode_note_key :: "string \<Rightarrow> string" where
  "encode_note_key event_id = RS # event_id"

definition decode_note_key :: "string \<Rightarrow> string option" where
  "decode_note_key key = (case key of c # cs \<Rightarrow> if c = RS then Some cs else None | [] \<Rightarrow> None)"

definition decode_key :: "string \<Rightarrow> conflict_ref option" where
  "decode_key key = (case decode_note_key key of Some i \<Rightarrow> Some (Note i)
     | None \<Rightarrow> map_option (\<lambda>(s, p). Passage s p) (decode_chunk_key key))"

fun encode_ref :: "conflict_ref \<Rightarrow> string" where
  "encode_ref (Note i) = encode_note_key i"
| "encode_ref (Passage s p) = encode_chunk_key s p"

section \<open>The index\<close>

record 'v hnsw_index =
  hx_points :: "(nat \<times> 'v) list"
  hx_id_to_slot :: "(string \<times> nat) list"
  hx_slot_to_id :: "(nat \<times> string) list"
  hx_tombstones :: "string set"
  hx_last :: "string option"
  hx_next :: nat

type_synonym 'v knn = "(nat \<times> 'v) list \<Rightarrow> 'v \<Rightarrow> nat \<Rightarrow> nat \<Rightarrow> (nat \<times> float) list"

definition empty_index :: "'v hnsw_index" where
  "empty_index = \<lparr>hx_points = [], hx_id_to_slot = [], hx_slot_to_id = [], hx_tombstones = {}, hx_last = None, hx_next = 0\<rparr>"

definition index_add :: "string \<Rightarrow> 'v \<Rightarrow> 'v hnsw_index \<Rightarrow> 'v hnsw_index" where
  "index_add i v ix =
     (if map_of (hx_id_to_slot ix) i \<noteq> None then ix
      else let slot = hx_next ix in
        \<lparr>hx_points = hx_points ix @ [(slot, v)], hx_id_to_slot = (i, slot) # hx_id_to_slot ix,
         hx_slot_to_id = (slot, i) # hx_slot_to_id ix, hx_tombstones = hx_tombstones ix,
         hx_last = Some i, hx_next = slot + 1\<rparr>)"

abbreviation "EF_SEARCH_MIN \<equiv> (64 :: nat)"

definition index_hits :: "'v hnsw_index \<Rightarrow> (nat \<times> float) list \<Rightarrow> (string \<times> float) list" where
  "index_hits ix ns = List.map_filter (\<lambda>(slot, d). case map_of (hx_slot_to_id ix) slot of
     None \<Rightarrow> None | Some i \<Rightarrow> if i \<in> hx_tombstones ix then None else Some (i, d)) ns"

definition index_search :: "'v knn \<Rightarrow> 'v hnsw_index \<Rightarrow> 'v \<Rightarrow> nat \<Rightarrow> (string \<times> float) list" where
  "index_search knn ix v k =
     (if k = 0 then []
      else let requested = max (min (k + card (hx_tombstones ix)) (length (hx_id_to_slot ix))) 1;
               ef = max requested EF_SEARCH_MIN
           in take k (index_hits ix (knn (hx_points ix) v requested ef)))"

definition index_remove :: "string \<Rightarrow> 'v hnsw_index \<Rightarrow> 'v hnsw_index" where
  "index_remove i ix =
     (if map_of (hx_id_to_slot ix) i \<noteq> None then ix\<lparr>hx_tombstones := insert i (hx_tombstones ix)\<rparr> else ix)"

definition index_len :: "'v hnsw_index \<Rightarrow> nat" where
  "index_len ix = length (hx_id_to_slot ix)"

section \<open>Keys round-trip\<close>

lemma split_once_append: "c \<notin> set xs \<Longrightarrow> split_once c (xs @ c # ys) = Some (xs, ys)"
  by (induction xs) auto

lemma show_nat_not_Nil: "show_nat n \<noteq> []"
  by (subst show_nat.simps) simp

lemma show_nat_digit_char: "c \<in> set (show_nat n) \<Longrightarrow> digit_char c"
proof (induction n rule: show_nat.induct)
  case (1 n)
  have "digit_char (char_of (48 + d))" if "d < 10" for d :: nat
    using that by (simp add: digit_char_def)
  then show ?case
    using 1 by (subst (asm) (2) show_nat.simps) (auto split: if_splits)
qed

lemma parse_show_nat: "n < 18446744073709551616 \<Longrightarrow> parse_usize (show_nat n) = Some n"
proof -
  assume "n < 18446744073709551616"
  moreover have "\<not> digit_char (CHR ''+'')" by (simp add: digit_char_def)
  then have "hd (show_nat n) \<noteq> CHR ''+''"
    using show_nat_digit_char [of "hd (show_nat n)" n] show_nat_not_Nil [of n] by (metis hd_in_set)
  then have "(case show_nat n of c # cs \<Rightarrow> if c = CHR ''+'' then cs else show_nat n | [] \<Rightarrow> []) = show_nat n"
    by (cases "show_nat n") auto
  ultimately show ?thesis
    by (auto simp: parse_usize_def show_nat_value show_nat_not_Nil list_all_iff show_nat_digit_char)
qed

lemma decode_encode_chunk:
  "US \<notin> set i \<Longrightarrow> n < 18446744073709551616 \<Longrightarrow> decode_chunk_key (encode_chunk_key i n) = Some (i, n)"
  by (simp add: decode_chunk_key_def encode_chunk_key_def split_once_append parse_show_nat)

lemma decode_encode_ref:
  assumes "ref_plain r" "case r of Note _ \<Rightarrow> True | Passage _ p \<Rightarrow> p < 18446744073709551616"
  shows "decode_key (encode_ref r) = Some r"
proof (cases r)
  case (Note i)
  then show ?thesis by (simp add: decode_key_def encode_note_key_def decode_note_key_def)
next
  case (Passage s p)
  have "hd (encode_chunk_key s p) \<noteq> RS"
    using assms(1) by (cases s) (auto simp: Passage encode_chunk_key_def ref_plain_def)
  then have "decode_note_key (encode_chunk_key s p) = None"
    by (auto simp: decode_note_key_def split: list.split)
  then show ?thesis
    using assms by (simp add: Passage decode_key_def decode_encode_chunk ref_plain_def)
qed

section \<open>The tables of the index\<close>

definition index_ok :: "'v hnsw_index \<Rightarrow> bool" where
  "index_ok ix \<longleftrightarrow> (\<forall>i s. map_of (hx_id_to_slot ix) i = Some s \<longleftrightarrow> map_of (hx_slot_to_id ix) s = Some i)
     \<and> (\<forall>s. map_of (hx_slot_to_id ix) s \<noteq> None \<longleftrightarrow> s < hx_next ix)
     \<and> map fst (hx_points ix) = [0..<hx_next ix] \<and> index_len ix = hx_next ix \<and> finite (hx_tombstones ix)"

lemma empty_index_ok [inv_intros]: "index_ok empty_index"
  by (simp add: index_ok_def empty_index_def index_len_def)

lemma index_add_ok [inv_intros]: "index_ok ix \<Longrightarrow> index_ok (index_add i v ix)"
  unfolding index_ok_def index_add_def index_len_def Let_def
  by (auto simp: less_Suc_eq)

lemma index_remove_ok [inv_intros]: "index_ok ix \<Longrightarrow> index_ok (index_remove i ix)"
  by (simp add: index_ok_def index_remove_def index_len_def)

lemma index_hits_live:
  "(i, d) \<in> set (index_hits ix ns) \<Longrightarrow> i \<notin> hx_tombstones ix \<and> (\<exists>slot. map_of (hx_slot_to_id ix) slot = Some i)"
  by (induction ns) (auto simp: index_hits_def List.map_filter_simps split: option.splits if_splits)

lemma index_hits_distinct:
  assumes "index_ok ix" "distinct (map fst ns)"
  shows "distinct (map fst (index_hits ix ns))"
  using assms(2)
proof (induction ns)
  case Nil
  then show ?case by (simp add: index_hits_def List.map_filter_simps)
next
  case (Cons n ns)
  obtain slot d where n: "n = (slot, d)" by (cases n)
  have inj: "s = s'" if "map_of (hx_slot_to_id ix) s = Some j" "map_of (hx_slot_to_id ix) s' = Some j" for s s' j
    using that assms(1) by (metis index_ok_def option.inject)
  have "i \<notin> fst ` set (index_hits ix ns)" if "map_of (hx_slot_to_id ix) slot = Some i" for i
  proof
    assume "i \<in> fst ` set (index_hits ix ns)"
    then obtain s' d' where "(s', d') \<in> set ns" "map_of (hx_slot_to_id ix) s' = Some i"
      by (auto simp: index_hits_def map_filter_def split: option.splits if_splits)
    then show False using inj [OF that] Cons.prems by (force simp: n)
  qed
  then show ?case
    using Cons by (auto simp: n index_hits_def List.map_filter_simps split: option.split)
qed

lemma index_search_bound: "length (index_search knn ix v k) \<le> k"
  by (simp add: index_search_def Let_def)

end
