(* ===== verification/Config.thy ===== *)
theory Config
  imports Sessions
begin

text \<open>
  The control settings of \<open>log.rs\<close>: every switch is a signed \<open>config\<close> event and is read back by
  scanning the config events newest first.  The setters append one event each, the readers differ in
  their default and in what they do with a value of another type.
\<close>

section \<open>Reading\<close>

datatype config_flag = FEvolve | FProposals | FMandates | FReasonerConfig | FCloudReasonerConsent
  | FLanguagePack | FCaptureEnabled | FBackfillConsented | FConflictDetect | FReflect

abbreviation "CAPTURE_ENABLED_AT_KEY \<equiv> ''capture_enabled_at''"

fun flag_key :: "config_flag \<Rightarrow> string" where
  "flag_key FEvolve = ''evolve_enabled''"
| "flag_key FProposals = ''proposals_enabled''"
| "flag_key FMandates = ''mandates_enabled''"
| "flag_key FReasonerConfig = ''reasoner_config''"
| "flag_key FCloudReasonerConsent = ''cloud_reasoner_consent''"
| "flag_key FLanguagePack = ''language_pack''"
| "flag_key FCaptureEnabled = ''capture_enabled''"
| "flag_key FBackfillConsented = ''backfill_consented''"
| "flag_key FConflictDetect = ''conflict_detect_enabled''"
| "flag_key FReflect = ''reflect_enabled''"

text \<open>The scan stops at the first event that answers, so a payload that does not parse is an error only
  when it is reached.\<close>

fun newest :: "(event \<Rightarrow> 'a option) \<Rightarrow> row list \<Rightarrow> (boss_error, 'a option) result" where
  "newest f [] = Inr None"
| "newest f (r # rs) =
     (case r_payload r of None \<Rightarrow> Inl SerdeErr
      | Some ev \<Rightarrow> (case f ev of Some v \<Rightarrow> Inr (Some v) | None \<Rightarrow> newest f rs))"

definition newest_config :: "(event \<Rightarrow> 'a option) \<Rightarrow> log \<Rightarrow> (boss_error, 'a option) result" where
  "newest_config f log = newest f (rev (filter (\<lambda>r. r_type r = CONFIG_T) log))"

definition bool_key :: "string \<Rightarrow> event \<Rightarrow> bool option" where
  "bool_key k ev = Option.bind (json_get (ev_content ev) k) as_bool"

definition or_default :: "'a \<Rightarrow> (boss_error, 'a option) result \<Rightarrow> (boss_error, 'a) result" where
  "or_default d r = rbind r (\<lambda>v. Inr (case v of None \<Rightarrow> d | Some b \<Rightarrow> b))"

definition evolve_enabled :: "log \<Rightarrow> (boss_error, bool) result" where
  "evolve_enabled log = or_default True (newest_config (bool_key (flag_key FEvolve)) log)"

definition proposals_enabled :: "log \<Rightarrow> (boss_error, bool) result" where
  "proposals_enabled log = or_default True (newest_config (bool_key (flag_key FProposals)) log)"

definition mandates_enabled :: "log \<Rightarrow> (boss_error, bool) result" where
  "mandates_enabled log = or_default True (newest_config (bool_key (flag_key FMandates)) log)"

definition explicitly_set :: "config_flag \<Rightarrow> log \<Rightarrow> (boss_error, bool) result" where
  "explicitly_set fl log = rbind (newest_config (bool_key (flag_key fl)) log) (\<lambda>v. Inr (v \<noteq> None))"

definition latest_config_value :: "string \<Rightarrow> log \<Rightarrow> (boss_error, json option) result" where
  "latest_config_value k log = newest_config (\<lambda>ev. json_get (ev_content ev) k) log"

definition closed_flag :: "config_flag \<Rightarrow> log \<Rightarrow> (boss_error, bool) result" where
  "closed_flag fl log =
     rbind (latest_config_value (flag_key fl) log) (\<lambda>v. Inr (Option.bind v as_bool = Some True))"

definition capture_enabled :: "log \<Rightarrow> (boss_error, bool) result" where
  "capture_enabled log = closed_flag FCaptureEnabled log"

definition backfill_consented :: "log \<Rightarrow> (boss_error, bool) result" where
  "backfill_consented log = closed_flag FBackfillConsented log"

definition conflict_detect_enabled :: "log \<Rightarrow> (boss_error, bool) result" where
  "conflict_detect_enabled log = closed_flag FConflictDetect log"

definition reflect_enabled :: "log \<Rightarrow> (boss_error, bool) result" where
  "reflect_enabled log = closed_flag FReflect log"

definition capture_enabled_at :: "log \<Rightarrow> (boss_error, int option) result" where
  "capture_enabled_at log =
     rbind (latest_config_value CAPTURE_ENABLED_AT_KEY log) (\<lambda>v. Inr (Option.bind v as_i64))"

definition reasoner_config_json :: "log \<Rightarrow> (boss_error, json option) result" where
  "reasoner_config_json log = latest_config_value (flag_key FReasonerConfig) log"

definition cloud_reasoner_consent_json :: "log \<Rightarrow> (boss_error, json option) result" where
  "cloud_reasoner_consent_json log = latest_config_value (flag_key FCloudReasonerConsent) log"

section \<open>Records kept in a setting\<close>

datatype migration_state = InProgress | Complete

record language_pack =
  lp_model_id :: string
  lp_safetensors_sha :: string
  lp_migration :: migration_state
  lp_consented_at :: string

definition pack_to_json :: "language_pack \<Rightarrow> json" where
  "pack_to_json p = jobj [(''model_id'', JStr (lp_model_id p)), (''safetensors_sha'', JStr (lp_safetensors_sha p)),
     (''migration'', JStr (case lp_migration p of InProgress \<Rightarrow> ''in_progress'' | Complete \<Rightarrow> ''complete'')),
     (''consented_at'', JStr (lp_consented_at p))]"

definition migration_of :: "string \<Rightarrow> migration_state option" where
  "migration_of s = (if s = ''in_progress'' then Some InProgress else if s = ''complete'' then Some Complete else None)"

definition pack_from_json :: "json \<Rightarrow> (boss_error, language_pack) result" where
  "pack_from_json v = ok_or SerdeErr
     (Option.bind (get_str v ''model_id'') (\<lambda>m.
      Option.bind (get_str v ''safetensors_sha'') (\<lambda>s.
      Option.bind (Option.bind (get_str v ''migration'') migration_of) (\<lambda>st.
      Option.bind (get_str v ''consented_at'') (\<lambda>c.
        Some \<lparr>lp_model_id = m, lp_safetensors_sha = s, lp_migration = st, lp_consented_at = c\<rparr>)))))"

definition language_pack_record :: "log \<Rightarrow> (boss_error, language_pack option) result" where
  "language_pack_record log =
     rbind (latest_config_value (flag_key FLanguagePack) log) (\<lambda>v. case v of
        None \<Rightarrow> Inr None | Some j \<Rightarrow> rbind (pack_from_json j) (\<lambda>p. Inr (Some p)))"

abbreviation "SCHEMA_VERSION \<equiv> (1 :: int)"

record model_choice =
  am_active_model_id :: string
  am_dim :: int
  am_schema_version :: int

definition get_u32 :: "json \<Rightarrow> string \<Rightarrow> int option" where
  "get_u32 v k = Option.bind (get_u64 v k) (\<lambda>n. if n < 4294967296 then Some n else None)"

definition active_model_of :: "json \<Rightarrow> model_choice option" where
  "active_model_of v =
     Option.bind (get_str v ''active_model_id'') (\<lambda>m.
     Option.bind (get_u32 v ''dim'') (\<lambda>d.
     Option.bind (get_u32 v ''schema_version'') (\<lambda>s.
       Some \<lparr>am_active_model_id = m, am_dim = d, am_schema_version = s\<rparr>)))"

definition active_model :: "log \<Rightarrow> (boss_error, model_choice option) result" where
  "active_model log = newest_config (\<lambda>ev. active_model_of (ev_content ev)) log"

section \<open>Writing\<close>

definition set_config :: "settings \<Rightarrow> stamp \<Rightarrow> (string \<times> json) list \<Rightarrow> engine \<Rightarrow> string outcome" where
  "set_config k st kvs g = append_to k st (draft_event CONFIG_T (jobj kvs) None) g"

definition set_bool_flag :: "settings \<Rightarrow> stamp \<Rightarrow> string \<Rightarrow> bool \<Rightarrow> engine \<Rightarrow> string outcome" where
  "set_bool_flag k st key enabled g = set_config k st [(key, JBool enabled)] g"

definition set_evolve_enabled :: "settings \<Rightarrow> stamp \<Rightarrow> bool \<Rightarrow> engine \<Rightarrow> string outcome" where
  "set_evolve_enabled k st b g = set_bool_flag k st (flag_key FEvolve) b g"

definition set_proposals_enabled :: "settings \<Rightarrow> stamp \<Rightarrow> bool \<Rightarrow> engine \<Rightarrow> string outcome" where
  "set_proposals_enabled k st b g = set_bool_flag k st (flag_key FProposals) b g"

definition set_mandates_enabled :: "settings \<Rightarrow> stamp \<Rightarrow> bool \<Rightarrow> engine \<Rightarrow> string outcome" where
  "set_mandates_enabled k st b g = set_bool_flag k st (flag_key FMandates) b g"

definition set_conflict_detect_enabled :: "settings \<Rightarrow> stamp \<Rightarrow> bool \<Rightarrow> engine \<Rightarrow> string outcome" where
  "set_conflict_detect_enabled k st b g = set_bool_flag k st (flag_key FConflictDetect) b g"

definition set_reflect_enabled :: "settings \<Rightarrow> stamp \<Rightarrow> bool \<Rightarrow> engine \<Rightarrow> string outcome" where
  "set_reflect_enabled k st b g = set_bool_flag k st (flag_key FReflect) b g"

definition set_capture_enabled :: "settings \<Rightarrow> stamp \<Rightarrow> bool \<Rightarrow> bool \<Rightarrow> int \<Rightarrow> engine \<Rightarrow> string outcome" where
  "set_capture_enabled k st enabled backfill at g = set_config k st
     ((flag_key FCaptureEnabled, JBool enabled)
      # (if enabled then (CAPTURE_ENABLED_AT_KEY, JNum at)
           # (if backfill then [(flag_key FBackfillConsented, JBool True)] else [])
         else [(flag_key FBackfillConsented, JBool False)])) g"

definition set_reasoner_config :: "settings \<Rightarrow> stamp \<Rightarrow> json \<Rightarrow> engine \<Rightarrow> string outcome" where
  "set_reasoner_config k st config g = set_config k st [(flag_key FReasonerConfig, config)] g"

definition set_cloud_reasoner_consent :: "settings \<Rightarrow> stamp \<Rightarrow> json \<Rightarrow> engine \<Rightarrow> string outcome" where
  "set_cloud_reasoner_consent k st rec g = set_config k st [(flag_key FCloudReasonerConsent, rec)] g"

definition set_language_pack_record :: "settings \<Rightarrow> stamp \<Rightarrow> language_pack \<Rightarrow> engine \<Rightarrow> string outcome" where
  "set_language_pack_record k st p g = set_config k st [(flag_key FLanguagePack, pack_to_json p)] g"

definition set_active_model :: "settings \<Rightarrow> stamp \<Rightarrow> string \<Rightarrow> int \<Rightarrow> engine \<Rightarrow> string outcome" where
  "set_active_model k st m d g =
     (case active_model (g_log g) of Inl e \<Rightarrow> (g, Inl e)
      | Inr cur \<Rightarrow> set_config k st [(''active_model_id'', JStr m), (''dim'', JNum d),
          (''schema_version'', JNum (case cur of None \<Rightarrow> SCHEMA_VERSION | Some a \<Rightarrow> am_schema_version a))] g)"

section \<open>What a reader sees after an append\<close>

lemma newest_config_append:
  assumes "append_to k st (draft_event t c None) g = (g', Inr i)" "\<And>ev. f ev = h (ev_content ev)"
  shows "newest_config f (g_log g') =
    (if t = CONFIG_T then (case h c of Some v \<Rightarrow> Inr (Some v) | None \<Rightarrow> newest_config f (g_log g))
     else newest_config f (g_log g))"
proof -
  obtain log where log: "append (k_crypto k) (k_key k) st (draft_event t c None) (g_log g) = Inr (i, log)"
    "g' = g\<lparr>g_log := log\<rparr>"
    using assms(1) by (auto simp: append_to_Inr)
  obtain r ev' where r: "log = g_log g @ [r]" "r_type r = t" "r_payload r = Some ev'" "ev_content ev' = c"
    using append_row [OF log(1)] by (metis draft_event_sel stamp_no_meta)
  then show ?thesis
    using log(2) assms(2) by (auto simp: newest_config_def split: option.split)
qed

lemma bool_key_content: "bool_key k ev = (\<lambda>c. Option.bind (json_get c k) as_bool) (ev_content ev)"
  by (simp add: bool_key_def)

text \<open>The setters, as one type.\<close>

datatype setting = SetEvolve bool | SetProposals bool | SetMandates bool | SetConflictDetect bool | SetReflect bool
  | SetCapture bool bool int | SetReasoner json | SetConsent json | SetPack language_pack | SetModel string int

fun apply_setting :: "settings \<Rightarrow> stamp \<Rightarrow> setting \<Rightarrow> engine \<Rightarrow> string outcome" where
  "apply_setting k st (SetEvolve b) g = set_evolve_enabled k st b g"
| "apply_setting k st (SetProposals b) g = set_proposals_enabled k st b g"
| "apply_setting k st (SetMandates b) g = set_mandates_enabled k st b g"
| "apply_setting k st (SetConflictDetect b) g = set_conflict_detect_enabled k st b g"
| "apply_setting k st (SetReflect b) g = set_reflect_enabled k st b g"
| "apply_setting k st (SetCapture b bf at) g = set_capture_enabled k st b bf at g"
| "apply_setting k st (SetReasoner j) g = set_reasoner_config k st j g"
| "apply_setting k st (SetConsent j) g = set_cloud_reasoner_consent k st j g"
| "apply_setting k st (SetPack p) g = set_language_pack_record k st p g"
| "apply_setting k st (SetModel m d) g = set_active_model k st m d g"

text \<open>A run of setters; a failed append changes nothing and the setting does not count.\<close>

fun run_settings :: "settings \<Rightarrow> (stamp \<times> setting) list \<Rightarrow> engine \<Rightarrow> engine \<times> setting list" where
  "run_settings k [] g = (g, [])"
| "run_settings k ((st, s) # ops) g =
     (case apply_setting k st s g of
        (g', Inl e) \<Rightarrow> run_settings k ops g'
      | (g', Inr i) \<Rightarrow> (case run_settings k ops g' of (g2, performed) \<Rightarrow> (g2, s # performed)))"

section \<open>The switches as a state\<close>

record switches =
  sw_evolve :: "bool option"
  sw_proposals :: "bool option"
  sw_mandates :: "bool option"
  sw_conflict :: "bool option"
  sw_reflect :: "bool option"
  sw_capture :: "bool option"
  sw_backfill :: "bool option"
  sw_at :: "int option"
  sw_reasoner :: "json option"
  sw_consent :: "json option"
  sw_pack :: "language_pack option"
  sw_model :: "model_choice option"

definition no_switches :: switches where
  "no_switches = \<lparr>sw_evolve = None, sw_proposals = None, sw_mandates = None, sw_conflict = None, sw_reflect = None,
     sw_capture = None, sw_backfill = None, sw_at = None, sw_reasoner = None, sw_consent = None, sw_pack = None,
     sw_model = None\<rparr>"

text \<open>Enabling capture without backfill leaves the consent as it was; disabling clears it.\<close>

fun switch_step :: "setting \<Rightarrow> switches \<Rightarrow> switches" where
  "switch_step (SetEvolve b) w = w\<lparr>sw_evolve := Some b\<rparr>"
| "switch_step (SetProposals b) w = w\<lparr>sw_proposals := Some b\<rparr>"
| "switch_step (SetMandates b) w = w\<lparr>sw_mandates := Some b\<rparr>"
| "switch_step (SetConflictDetect b) w = w\<lparr>sw_conflict := Some b\<rparr>"
| "switch_step (SetReflect b) w = w\<lparr>sw_reflect := Some b\<rparr>"
| "switch_step (SetCapture b bf at) w = w\<lparr>sw_capture := Some b,
     sw_backfill := (if \<not> b then Some False else if bf then Some True else sw_backfill w),
     sw_at := (if b then Some at else sw_at w)\<rparr>"
| "switch_step (SetReasoner j) w = w\<lparr>sw_reasoner := Some j\<rparr>"
| "switch_step (SetConsent j) w = w\<lparr>sw_consent := Some j\<rparr>"
| "switch_step (SetPack p) w = w\<lparr>sw_pack := Some p\<rparr>"
| "switch_step (SetModel m d) w = w\<lparr>sw_model := Some \<lparr>am_active_model_id = m, am_dim = d,
     am_schema_version = (case sw_model w of None \<Rightarrow> SCHEMA_VERSION | Some a \<Rightarrow> am_schema_version a)\<rparr>\<rparr>"

text \<open>The log reads as the switches.\<close>

definition shows_flags :: "log \<Rightarrow> switches \<Rightarrow> bool" where
  "shows_flags log w \<longleftrightarrow>
     evolve_enabled log = Inr (sw_evolve w \<noteq> Some False)
   \<and> proposals_enabled log = Inr (sw_proposals w \<noteq> Some False)
   \<and> mandates_enabled log = Inr (sw_mandates w \<noteq> Some False)
   \<and> conflict_detect_enabled log = Inr (sw_conflict w = Some True)
   \<and> reflect_enabled log = Inr (sw_reflect w = Some True)
   \<and> capture_enabled log = Inr (sw_capture w = Some True)
   \<and> backfill_consented log = Inr (sw_backfill w = Some True)
   \<and> explicitly_set FEvolve log = Inr (sw_evolve w \<noteq> None)
   \<and> explicitly_set FProposals log = Inr (sw_proposals w \<noteq> None)
   \<and> explicitly_set FMandates log = Inr (sw_mandates w \<noteq> None)
   \<and> explicitly_set FConflictDetect log = Inr (sw_conflict w \<noteq> None)
   \<and> explicitly_set FReflect log = Inr (sw_reflect w \<noteq> None)"

definition shows_records :: "log \<Rightarrow> switches \<Rightarrow> bool" where
  "shows_records log w \<longleftrightarrow>
     capture_enabled_at log = Inr (sw_at w)
   \<and> reasoner_config_json log = Inr (sw_reasoner w)
   \<and> cloud_reasoner_consent_json log = Inr (sw_consent w)
   \<and> language_pack_record log = Inr (sw_pack w)
   \<and> active_model log = Inr (sw_model w)
   \<and> (\<forall>a. sw_model w = Some a \<longrightarrow> in_u64 (am_schema_version a) \<and> am_schema_version a < 4294967296)"

definition setting_ok :: "setting \<Rightarrow> bool" where
  "setting_ok s = (case s of SetCapture _ _ at \<Rightarrow> in_i64 at | SetModel _ d \<Rightarrow> in_u64 d \<and> d < 4294967296 | _ \<Rightarrow> True)"

lemmas setter_defs = set_evolve_enabled_def set_proposals_enabled_def set_mandates_enabled_def
  set_conflict_detect_enabled_def set_reflect_enabled_def set_capture_enabled_def set_reasoner_config_def
  set_cloud_reasoner_consent_def set_language_pack_record_def set_bool_flag_def set_config_def

lemmas reader_defs = evolve_enabled_def proposals_enabled_def mandates_enabled_def conflict_detect_enabled_def
  reflect_enabled_def capture_enabled_def backfill_consented_def explicitly_set_def closed_flag_def
  latest_config_value_def or_default_def capture_enabled_at_def reasoner_config_json_def
  cloud_reasoner_consent_json_def language_pack_record_def active_model_def

definition content_of :: "setting \<Rightarrow> model_choice option \<Rightarrow> (string \<times> json) list" where
  "content_of s cur = (case s of
     SetEvolve b \<Rightarrow> [(flag_key FEvolve, JBool b)]
   | SetProposals b \<Rightarrow> [(flag_key FProposals, JBool b)]
   | SetMandates b \<Rightarrow> [(flag_key FMandates, JBool b)]
   | SetConflictDetect b \<Rightarrow> [(flag_key FConflictDetect, JBool b)]
   | SetReflect b \<Rightarrow> [(flag_key FReflect, JBool b)]
   | SetCapture b bf at \<Rightarrow> (flag_key FCaptureEnabled, JBool b)
      # (if b then (CAPTURE_ENABLED_AT_KEY, JNum at) # (if bf then [(flag_key FBackfillConsented, JBool True)] else [])
         else [(flag_key FBackfillConsented, JBool False)])
   | SetReasoner j \<Rightarrow> [(flag_key FReasonerConfig, j)]
   | SetConsent j \<Rightarrow> [(flag_key FCloudReasonerConsent, j)]
   | SetPack p \<Rightarrow> [(flag_key FLanguagePack, pack_to_json p)]
   | SetModel m d \<Rightarrow> [(''active_model_id'', JStr m), (''dim'', JNum d),
       (''schema_version'', JNum (case cur of None \<Rightarrow> SCHEMA_VERSION | Some a \<Rightarrow> am_schema_version a))])"

lemma apply_setting_append:
  assumes "active_model (g_log g) = Inr cur"
  shows "apply_setting k st s g = append_to k st (draft_event CONFIG_T (jobj (content_of s cur)) None) g"
  using assms by (cases s) (simp_all add: setter_defs set_active_model_def content_of_def)

lemma pack_json_roundtrip: "pack_from_json (pack_to_json p) = Inr p"
  by (cases "lp_migration p") (simp_all add: pack_from_json_def pack_to_json_def migration_of_def)

section \<open>The switches are refined by the log\<close>

lemma config_append:
  assumes "append_to k st (draft_event CONFIG_T (jobj kvs) None) g = (g', Inr i)"
  shows "newest_config (bool_key key) (g_log g') =
      (case Option.bind (map_of (rev kvs) key) as_bool of Some b \<Rightarrow> Inr (Some b)
       | None \<Rightarrow> newest_config (bool_key key) (g_log g))"
    and "newest_config (\<lambda>ev. json_get (ev_content ev) key) (g_log g') =
      (case map_of (rev kvs) key of Some b \<Rightarrow> Inr (Some b)
       | None \<Rightarrow> newest_config (\<lambda>ev. json_get (ev_content ev) key) (g_log g))"
    and "newest_config (\<lambda>ev. active_model_of (ev_content ev)) (g_log g') =
      (case active_model_of (jobj kvs) of Some b \<Rightarrow> Inr (Some b)
       | None \<Rightarrow> newest_config (\<lambda>ev. active_model_of (ev_content ev)) (g_log g))"
  using newest_config_append [OF assms, of "bool_key key" "\<lambda>c. Option.bind (json_get c key) as_bool"]
    newest_config_append [OF assms, of "\<lambda>ev. json_get (ev_content ev) key" "\<lambda>c. json_get c key"]
    newest_config_append [OF assms, of "\<lambda>ev. active_model_of (ev_content ev)" active_model_of]
  by (simp_all add: bool_key_def)

lemma flags_step:
  assumes "shows_flags (g_log g) w" "append_to k st (draft_event CONFIG_T (jobj (content_of s cur)) None) g = (g', Inr i)"
  shows "shows_flags (g_log g') (switch_step s w)"
  using assms(1) unfolding shows_flags_def reader_defs
  by (cases s) (auto simp: config_append [OF assms(2)] content_of_def)

lemma model_of_content:
  "setting_ok s \<Longrightarrow> (\<And>a. cur = Some a \<Longrightarrow> in_u64 (am_schema_version a) \<and> am_schema_version a < 4294967296) \<Longrightarrow>
   active_model_of (jobj (content_of s cur)) = (case s of
     SetModel m d \<Rightarrow> Some \<lparr>am_active_model_id = m, am_dim = d,
       am_schema_version = (case cur of None \<Rightarrow> SCHEMA_VERSION | Some a \<Rightarrow> am_schema_version a)\<rparr>
   | _ \<Rightarrow> None)"
  by (cases s) (auto simp: active_model_of_def content_of_def setting_ok_def get_u32_def in_u64_def split: option.splits)

lemma records_step:
  assumes "shows_records (g_log g) w" "setting_ok s"
    and "append_to k st (draft_event CONFIG_T (jobj (content_of s (sw_model w))) None) g = (g', Inr i)"
  shows "shows_records (g_log g') (switch_step s w)"
proof -
  have m: "active_model_of (jobj (content_of s (sw_model w))) = (case s of
     SetModel m d \<Rightarrow> Some \<lparr>am_active_model_id = m, am_dim = d,
       am_schema_version = (case sw_model w of None \<Rightarrow> SCHEMA_VERSION | Some a \<Rightarrow> am_schema_version a)\<rparr>
     | _ \<Rightarrow> None)"
    using assms(1) by (intro model_of_content [OF assms(2)]) (simp add: shows_records_def)
  note append = config_append [OF assms(3)] m content_of_def
  have "capture_enabled_at (g_log g') = Inr (sw_at (switch_step s w))"
    using assms(1,2) unfolding shows_records_def capture_enabled_at_def latest_config_value_def
    by (cases s) (simp_all add: append setting_ok_def)
  moreover have "reasoner_config_json (g_log g') = Inr (sw_reasoner (switch_step s w))"
    using assms(1) unfolding shows_records_def reasoner_config_json_def latest_config_value_def
    by (cases s) (simp_all add: append)
  moreover have "cloud_reasoner_consent_json (g_log g') = Inr (sw_consent (switch_step s w))"
    using assms(1) unfolding shows_records_def cloud_reasoner_consent_json_def latest_config_value_def
    by (cases s) (simp_all add: append)
  moreover have "language_pack_record (g_log g') = Inr (sw_pack (switch_step s w))"
    using assms(1) unfolding shows_records_def language_pack_record_def latest_config_value_def
    by (cases s) (simp_all add: append pack_json_roundtrip)
  moreover have "active_model (g_log g') = Inr (sw_model (switch_step s w))"
    using assms(1) unfolding shows_records_def active_model_def append(3) m
    by (cases s) simp_all
  moreover have "in_u64 (am_schema_version a) \<and> am_schema_version a < 4294967296" if "sw_model (switch_step s w) = Some a" for a
    using that assms(1) unfolding shows_records_def
    by (cases s) (auto simp: in_u64_def split: option.splits)
  ultimately show ?thesis by (simp add: shows_records_def)
qed

lemma setting_step:
  assumes "shows_flags (g_log g) w" "shows_records (g_log g) w" "setting_ok s" "apply_setting k st s g = (g', Inr i)"
  shows "shows_flags (g_log g') (switch_step s w)" "shows_records (g_log g') (switch_step s w)"
proof -
  have "active_model (g_log g) = Inr (sw_model w)" using assms(2) by (simp add: shows_records_def)
  then have a: "append_to k st (draft_event CONFIG_T (jobj (content_of s (sw_model w))) None) g = (g', Inr i)"
    using assms(4) by (simp add: apply_setting_append)
  show "shows_flags (g_log g') (switch_step s w)" by (rule flags_step [OF assms(1) a])
  show "shows_records (g_log g') (switch_step s w)" by (rule records_step [OF assms(2,3) a])
qed

lemma setting_error:
  assumes "shows_records (g_log g) w" "apply_setting k st s g = (g', Inl e)"
  shows "g' = g"
proof -
  have "active_model (g_log g) = Inr (sw_model w)" using assms(1) by (simp add: shows_records_def)
  then show ?thesis using assms(2) by (simp add: apply_setting_append append_to_Inl)
qed

lemma no_config_shows:
  assumes "\<forall>r\<in>set log. r_type r \<noteq> CONFIG_T"
  shows "shows_flags log no_switches" "shows_records log no_switches"
proof -
  have "filter (\<lambda>r. r_type r = CONFIG_T) log = []" using assms by (simp add: filter_empty_conv)
  then show "shows_flags log no_switches" "shows_records log no_switches"
    unfolding shows_flags_def shows_records_def reader_defs newest_config_def no_switches_def
    by simp_all
qed

text \<open>C26. The settings behave as a record of switches: after any run of setters, some of which may fail, every
  switch reads as the last successful setting of it left it, with its documented default when there was
  none, and one setting never changes what another one reads.\<close>

theorem settings_refine_switches:
  assumes "\<forall>r\<in>set (g_log g). r_type r \<noteq> CONFIG_T" "\<forall>(st, s)\<in>set ops. setting_ok s"
    and "run_settings k ops g = (g', performed)"
  shows "shows_flags (g_log g') (fold switch_step performed no_switches)
    \<and> shows_records (g_log g') (fold switch_step performed no_switches)"
proof -
  have "shows_flags (g_log g') (fold switch_step performed w) \<and> shows_records (g_log g') (fold switch_step performed w)"
    if "shows_flags (g_log g) w" "shows_records (g_log g) w" "\<forall>(st, s)\<in>set ops. setting_ok s"
      "run_settings k ops g = (g', performed)" for w g
    using that
  proof (induction k ops g arbitrary: w performed rule: run_settings.induct)
    case (1 k g)
    then show ?case by simp
  next
    case (2 k st s ops g)
    obtain g1 r where r: "apply_setting k st s g = (g1, r)" by (cases "apply_setting k st s g")
    show ?case
    proof (cases r)
      case (Inl e)
      then have "g1 = g" using setting_error [OF "2.prems"(2)] r by blast
      then show ?thesis using "2.IH"(1) [OF r [symmetric] Inl] "2.prems" r Inl by simp
    next
      case (Inr i)
      obtain d where d: "run_settings k ops g1 = (g', d)" "performed = s # d"
        using "2.prems"(4) r Inr by (auto split: prod.splits)
      have "setting_ok s" using "2.prems"(3) by simp
      then show ?thesis
        using "2.IH"(2) [OF r [symmetric] Inr setting_step [OF "2.prems"(1,2)]] "2.prems"(3) r Inr d by simp
    qed
  qed
  then show ?thesis
    using no_config_shows [OF assms(1)] assms(2,3) by blast
qed

definition demo_setters :: "(stamp \<times> setting) list" where
  "demo_setters = [((''c1'', ''t''), SetCapture True True 7), ((''c2'', ''t''), SetCapture False True 8),
      ((''c3'', ''t''), SetCapture True False 9), ((''c4'', ''t''), SetEvolve False)]"

definition demo_settings_run :: "engine \<times> setting list" where
  "demo_settings_run = run_settings demo_settings demo_setters demo_engine"

theorem settings_refine_switches_witness:
  "backfill_consented (g_log (fst demo_settings_run)) = Inr False
    \<and> capture_enabled_at (g_log (fst demo_settings_run)) = Inr (Some 9)
    \<and> evolve_enabled (g_log (fst demo_settings_run)) = Inr False"
proof -
  have ran: "snd demo_settings_run = [SetCapture True True 7, SetCapture False True 8, SetCapture True False 9, SetEvolve False]"
    by code_simp
  moreover have "\<forall>r\<in>set (g_log demo_engine). r_type r \<noteq> CONFIG_T" by code_simp
  ultimately have "shows_flags (g_log (fst demo_settings_run)) (fold switch_step (snd demo_settings_run) no_switches)
      \<and> shows_records (g_log (fst demo_settings_run)) (fold switch_step (snd demo_settings_run) no_switches)"
    by (intro settings_refine_switches [where ops = demo_setters and g = demo_engine and k = demo_settings])
      (simp_all add: demo_settings_run_def demo_setters_def setting_ok_def in_i64_def prod_eq_iff)
  then show ?thesis
    by (simp add: ran shows_flags_def shows_records_def no_switches_def)
qed

end
