(* ===== verification/Detect.thy ===== *)
theory Detect
  imports Judge Config
begin

text \<open>
  The conflict detection cycle of \<open>log.rs\<close>: the cursor over the memories, the rebuilt conflict index,
  the budgeted judging of candidate pairs with its per-pair error table, and the proposals it emits.

  The embedder, the neighbour search, the stored vectors, the reasoner, the text of a passage and the RFC
  3339 parser are the fields of a \<open>detector\<close>; the reasoner may answer differently on every call of a
  cycle.
\<close>

section \<open>State and parameters\<close>

record conflict_state =
  cd_engine :: engine
  cd_errors :: "string \<Rightarrow> nat option"

record 'v detector =
  dt_embed :: "string \<Rightarrow> (boss_error, 'v) result"
  dt_model :: string
  dt_vector :: "string \<Rightarrow> nat \<Rightarrow> 'v"
  dt_knn :: "'v knn"
  dt_reasoner :: "nat \<Rightarrow> string \<Rightarrow> (boss_error, json) result"
  dt_passage :: "string \<Rightarrow> nat \<Rightarrow> string option"
  dt_unix :: "string \<Rightarrow> int option"
  dt_stamp :: "nat \<Rightarrow> stamp"

definition conflict_cursor :: "engine \<Rightarrow> nat \<times> nat" where
  "conflict_cursor g = g_conflict_cursor g"

definition set_conflict_cursor :: "nat \<Rightarrow> nat \<Rightarrow> engine \<Rightarrow> engine" where
  "set_conflict_cursor last_seq subject_offset g = g\<lparr>g_conflict_cursor := (last_seq, subject_offset)\<rparr>"

definition conflict_pair_error_count :: "string \<Rightarrow> conflict_state \<Rightarrow> nat" where
  "conflict_pair_error_count pk s = (case cd_errors s pk of None \<Rightarrow> 0 | Some n \<Rightarrow> n)"

definition bump_conflict_pair_error :: "string \<Rightarrow> conflict_state \<Rightarrow> conflict_state \<times> nat" where
  "bump_conflict_pair_error pk s =
     (let n = (case cd_errors s pk of None \<Rightarrow> 1 | Some n \<Rightarrow> n + 1)
      in (s\<lparr>cd_errors := (cd_errors s)(pk \<mapsto> n)\<rparr>, n))"

definition reset_conflict_pair_error :: "string \<Rightarrow> conflict_state \<Rightarrow> conflict_state" where
  "reset_conflict_pair_error pk s = s\<lparr>cd_errors := (cd_errors s)(pk := None)\<rparr>"

section \<open>The digest\<close>

record conflict_digest =
  dg_retired :: nat
  dg_dismissed :: nat
  dg_kept :: nat
  dg_max_seq :: nat

definition digest_step :: "event \<Rightarrow> conflict_digest \<Rightarrow> conflict_digest" where
  "digest_step ev d =
     (if ev_type ev = NOTE_RETIRED_T \<or> ev_type ev = PASSAGE_RETIRED_T
      then (if get_str (ev_content ev) ''via'' = Some ''conflict'' then d\<lparr>dg_retired := dg_retired d + 1\<rparr> else d)
      else if ev_type ev = DISMISSED_T then d\<lparr>dg_dismissed := dg_dismissed d + 1\<rparr>
      else d\<lparr>dg_kept := dg_kept d + 1\<rparr>)"

definition conflict_digest_counts :: "nat \<Rightarrow> log \<Rightarrow> (boss_error, conflict_digest) result" where
  "conflict_digest_counts since_seq lg =
     rbind (events_of_types [NOTE_RETIRED_T, PASSAGE_RETIRED_T, DISMISSED_T, COEXIST_ALLOWED_T] (drop since_seq lg))
       (\<lambda>evs. Inr ((fold digest_step evs \<lparr>dg_retired = 0, dg_dismissed = 0, dg_kept = 0, dg_max_seq = 0\<rparr>)
          \<lparr>dg_max_seq := length lg\<rparr>))"

section \<open>Subjects\<close>

record conflict_subject =
  sj_seq :: nat
  sj_within :: nat
  sj_ref :: conflict_ref

definition conflict_rows :: "log \<Rightarrow> nat \<Rightarrow> nat \<Rightarrow> (nat \<times> row) list" where
  "conflict_rows lg cursor_seq limit =
     take limit (filter (\<lambda>(seq, r). (r_type r = MEMORY_T \<or> r_type r = SESSION_CAPTURED_T) \<and> cursor_seq \<le> seq)
       (enumerate 1 lg))"

definition row_subjects :: "engine \<Rightarrow> current_session list \<Rightarrow> session_marks \<Rightarrow> string set \<Rightarrow> nat \<Rightarrow> nat
    \<Rightarrow> nat \<times> row \<Rightarrow> conflict_subject list" where
  "row_subjects g current marks note_ids cursor_seq subject_offset = (\<lambda>(seq, r).
     let skip_below = (if seq = cursor_seq then subject_offset else 0) in
     if r_type r = MEMORY_T
     then (if skip_below = 0 \<and> r_id r \<in> note_ids then [\<lparr>sj_seq = seq, sj_within = 0, sj_ref = Note (r_id r)\<rparr>] else [])
     else (case List.find (\<lambda>cs. cs_event_id cs = r_id r) current of
         None \<Rightarrow> []
       | Some cs \<Rightarrow> map (\<lambda>pid. \<lparr>sj_seq = seq, sj_within = pid, sj_ref = Passage (cs_session_id cs) pid\<rparr>)
           (filter (\<lambda>pid. (cs_session_id cs, pid) \<notin> sm_retired_passages marks)
             [skip_below..<session_passage_count g (r_id r)])))"

definition unprocessed_conflict_subjects_since :: "engine \<Rightarrow> nat \<Rightarrow> nat \<Rightarrow> nat \<Rightarrow> (boss_error, conflict_subject list) result" where
  "unprocessed_conflict_subjects_since g cursor_seq subject_offset limit =
     rbind (session_events_ordered (g_log g)) (\<lambda>evs.
     rbind (current_notes (\<lambda>_. None) (g_log g)) (\<lambda>notes.
     let (current, marks) = fold_sessions evs in
     Inr (concat (map (row_subjects g current marks (set (map cn_event_id notes)) cursor_seq subject_offset)
       (conflict_rows (g_log g) cursor_seq limit)))))"

section \<open>The index of a cycle\<close>

definition session_passages_for_model :: "string \<Rightarrow> engine \<Rightarrow> (string \<times> nat) list" where
  "session_passages_for_model m g =
     sort_key id (map (\<lambda>(e, ix, _). (e, ix)) (filter (\<lambda>(_, _, m'). m' = m) (g_passages g)))"

definition add_passage :: "'v detector \<Rightarrow> current_session list \<Rightarrow> session_marks \<Rightarrow> string \<times> nat
    \<Rightarrow> 'v hnsw_index \<Rightarrow> 'v hnsw_index" where
  "add_passage d current marks = (\<lambda>(event_id, ix) index.
     case List.find (\<lambda>cs. cs_event_id cs = event_id) current of
       None \<Rightarrow> index
     | Some cs \<Rightarrow> if (cs_session_id cs, ix) \<in> sm_retired_passages marks then index
         else index_add (encode_chunk_key (cs_session_id cs) ix) (dt_vector d event_id ix) index)"

fun add_notes :: "'v detector \<Rightarrow> current_note list \<Rightarrow> 'v hnsw_index \<Rightarrow> (boss_error, 'v hnsw_index) result" where
  "add_notes d [] index = Inr index"
| "add_notes d (n # ns) index =
     (if is_blank (cn_text n) then add_notes d ns index
      else rbind (dt_embed d (cn_text n)) (\<lambda>v. add_notes d ns (index_add (encode_note_key (cn_event_id n)) v index)))"

definition rebuild_conflict_index :: "'v detector \<Rightarrow> engine \<Rightarrow> (boss_error, 'v hnsw_index) result" where
  "rebuild_conflict_index d g =
     rbind (session_events_ordered (g_log g)) (\<lambda>evs.
     let (current, marks) = fold_sessions evs;
         index = fold (add_passage d current marks) (session_passages_for_model (dt_model d) g) empty_index in
     rbind (current_notes (dt_unix d) (g_log g)) (\<lambda>notes. add_notes d notes index))"

definition conflict_search :: "'v detector \<Rightarrow> 'v hnsw_index \<Rightarrow> 'v \<Rightarrow> nat \<Rightarrow> (string \<times> nat \<times> float) list" where
  "conflict_search d index qv k = List.map_filter (\<lambda>(key, score).
     map_option (\<lambda>(sid, ix). (sid, ix, score)) (decode_chunk_key key)) (index_search (dt_knn d) index qv k)"

definition conflict_search_refs :: "'v detector \<Rightarrow> 'v hnsw_index \<Rightarrow> 'v \<Rightarrow> nat \<Rightarrow> (conflict_ref \<times> float) list" where
  "conflict_search_refs d index qv k = List.map_filter (\<lambda>(key, score).
     map_option (\<lambda>r. (r, score)) (decode_key key)) (index_search (dt_knn d) index qv k)"

section \<open>Judging one pair\<close>

record detect_report =
  dr_skipped_disabled :: bool
  dr_scanned_subjects :: nat
  dr_judged :: nat
  dr_proposed :: nat
  dr_dropped :: nat
  dr_reasoner_errors :: nat
  dr_budget_hit :: bool
  dr_ceiling_hit :: bool
  dr_poison_skipped :: nat

definition empty_report :: detect_report where
  "empty_report = \<lparr>dr_skipped_disabled = False, dr_scanned_subjects = 0, dr_judged = 0, dr_proposed = 0,
     dr_dropped = 0, dr_reasoner_errors = 0, dr_budget_hit = False, dr_ceiling_hit = False, dr_poison_skipped = 0\<rparr>"

text \<open>What the loops of one cycle update.\<close>

record sweep =
  sp_state :: conflict_state
  sp_open_pairs :: "string set"
  sp_open_count :: nat
  sp_report :: detect_report
  sp_budget :: nat

definition note_text :: "log \<Rightarrow> string \<Rightarrow> string option" where
  "note_text lg i = (case event_by_id lg i of Inr (Some e) \<Rightarrow> get_str (ev_content e) ''text'' | _ \<Rightarrow> None)"

definition ref_text :: "'v detector \<Rightarrow> log \<Rightarrow> conflict_ref \<Rightarrow> string option" where
  "ref_text d lg r = map_option bound_judge_text
     (case r of Note i \<Rightarrow> note_text lg i | Passage s p \<Rightarrow> dt_passage d s p)"

definition ref_source_event :: "current_session list \<Rightarrow> conflict_ref \<Rightarrow> string option" where
  "ref_source_event current r = (case r of Note i \<Rightarrow> Some i | Passage s _ \<Rightarrow> head_of current s)"

definition ref_ts :: "'v detector \<Rightarrow> current_session list \<Rightarrow> log \<Rightarrow> conflict_ref \<Rightarrow> int" where
  "ref_ts d current lg r = (case ref_source_event current r of None \<Rightarrow> 0
     | Some i \<Rightarrow> (case event_by_id lg i of
         Inr (Some e) \<Rightarrow> (case dt_unix d (ev_ts e) of None \<Rightarrow> 0 | Some t \<Rightarrow> t) | _ \<Rightarrow> 0))"

fun ref_kind :: "conflict_ref \<Rightarrow> string" where
  "ref_kind (Note _) = ''note''"
| "ref_kind (Passage _ _) = ''passage''"

definition report_update :: "(detect_report \<Rightarrow> detect_report) \<Rightarrow> sweep \<Rightarrow> sweep" where
  "report_update f w = w\<lparr>sp_report := f (sp_report w)\<rparr>"

definition emit_proposal :: "'v detector \<Rightarrow> settings \<Rightarrow> current_session list \<Rightarrow> int \<Rightarrow> conflict_ref \<Rightarrow> conflict_ref
    \<Rightarrow> verdict \<Rightarrow> sweep \<Rightarrow> sweep \<times> (boss_error, unit) result" where
  "emit_proposal d k current detected_at older newer v w =
     (let s = sp_state w; hint = winner_str (vt_winner v); band = confidence_band (vt_confidence v);
          sources = List.map_filter (ref_source_event current) [older, newer] in
      case append_conflict_proposal k (dt_stamp d (dr_proposed (sp_report w))) older newer hint band
          (templated_why hint band (ref_kind older) (ref_kind newer)) detected_at sources (cd_engine s) of
        (g, Inl e) \<Rightarrow> (w\<lparr>sp_state := s\<lparr>cd_engine := g\<rparr>\<rparr>, Inl e)
      | (g, Inr _) \<Rightarrow> (report_update (\<lambda>r. r\<lparr>dr_proposed := dr_proposed r + 1\<rparr>)
          (w\<lparr>sp_state := s\<lparr>cd_engine := g\<rparr>, sp_open_pairs := insert (unordered_pair_key older newer) (sp_open_pairs w),
             sp_open_count := sp_open_count w + 1\<rparr>), Inr ()))"

text \<open>The result says whether the pair blocks its subject, that is whether the reasoner failed on it and
  it may be tried again.\<close>

definition judge_candidate :: "'v detector \<Rightarrow> settings \<Rightarrow> current_session list \<Rightarrow> int \<Rightarrow> conflict_ref \<times> conflict_ref
    \<Rightarrow> sweep \<Rightarrow> sweep \<times> (boss_error, bool) result" where
  "judge_candidate d k current detected_at = (\<lambda>(a, b) w.
     let s = sp_state w; lg = g_log (cd_engine s);
         (older, newer) = (if ref_ts d current lg a \<le> ref_ts d current lg b then (a, b) else (b, a));
         pk = unordered_pair_key older newer in
     if conflict_pair_error_count pk s \<ge> CONFLICT_PAIR_ERROR_BUDGET then (w, Inr False)
     else (case (ref_text d lg older, ref_text d lg newer) of
       (Some ot, Some nt) \<Rightarrow>
         let n = dr_judged (sp_report w);
             w1 = report_update (\<lambda>r. r\<lparr>dr_judged := dr_judged r + 1\<rparr>) (w\<lparr>sp_budget := sp_budget w - 1\<rparr>) in
         (case judge_pair (dt_reasoner d n) ot nt of
            Inr (Some v) \<Rightarrow>
              let w2 = w1\<lparr>sp_state := reset_conflict_pair_error pk s\<rparr> in
              if sp_open_count w \<ge> CONFLICT_OPEN_CEILING
              then (report_update (\<lambda>r. r\<lparr>dr_ceiling_hit := True\<rparr>) w2, Inr False)
              else (case is_conflict_proposal_suppressed (cd_engine s) older newer of
                  Inl e \<Rightarrow> (w2, Inl e)
                | Inr True \<Rightarrow> (w2, Inr False)
                | Inr False \<Rightarrow> (case emit_proposal d k current detected_at older newer v w2 of
                    (w3, Inl e) \<Rightarrow> (w3, Inl e) | (w3, Inr _) \<Rightarrow> (w3, Inr False)))
          | Inr None \<Rightarrow> (report_update (\<lambda>r. r\<lparr>dr_dropped := dr_dropped r + 1\<rparr>)
                (w1\<lparr>sp_state := reset_conflict_pair_error pk s\<rparr>), Inr False)
          | Inl _ \<Rightarrow> (case bump_conflict_pair_error pk s of (s', m) \<Rightarrow>
              (report_update (\<lambda>r. r\<lparr>dr_reasoner_errors := dr_reasoner_errors r + 1,
                 dr_poison_skipped := dr_poison_skipped r + (if m \<ge> CONFLICT_PAIR_ERROR_BUDGET then 1 else 0)\<rparr>)
                 (w1\<lparr>sp_state := s'\<rparr>), Inr (m < CONFLICT_PAIR_ERROR_BUDGET))))
     | _ \<Rightarrow> (report_update (\<lambda>r. r\<lparr>dr_dropped := dr_dropped r + 1\<rparr>) w, Inr False)))"

fun judge_all :: "'v detector \<Rightarrow> settings \<Rightarrow> current_session list \<Rightarrow> int \<Rightarrow> (conflict_ref \<times> conflict_ref) list
    \<Rightarrow> bool \<Rightarrow> sweep \<Rightarrow> sweep \<times> (boss_error, bool) result" where
  "judge_all d k current detected_at [] blocked w = (w, Inr blocked)"
| "judge_all d k current detected_at (p # ps) blocked w =
     (case judge_candidate d k current detected_at p w of
        (w', Inl e) \<Rightarrow> (w', Inl e)
      | (w', Inr b) \<Rightarrow> judge_all d k current detected_at ps (blocked \<or> b) w')"

section \<open>One cycle\<close>

definition passage_row :: "current_session list \<Rightarrow> (string \<times> nat) list \<Rightarrow> string \<Rightarrow> nat \<Rightarrow> (string \<times> nat) option" where
  "passage_row current rows sid pid = find_last (\<lambda>(e, ix). ix = pid
     \<and> map_option cs_session_id (List.find (\<lambda>cs. cs_event_id cs = e) current) = Some sid) rows"

text \<open>The query vector of a subject; \<open>None\<close> skips it.\<close>

definition subject_query :: "'v detector \<Rightarrow> engine \<Rightarrow> current_session list \<Rightarrow> (string \<times> nat) list \<Rightarrow> conflict_ref
    \<Rightarrow> (boss_error, 'v option) result" where
  "subject_query d g current rows r = (case r of
     Note i \<Rightarrow> rbind (event_by_id (g_log g) i) (\<lambda>found.
       case Option.bind found (\<lambda>e. get_str (ev_content e) ''text'') of
         None \<Rightarrow> Inr None
       | Some t \<Rightarrow> if is_blank t then Inr None else rbind (dt_embed d t) (\<lambda>v. Inr (Some v)))
   | Passage sid pid \<Rightarrow> Inr (map_option (\<lambda>(e, ix). dt_vector d e ix) (passage_row current rows sid pid)))"

definition advance :: "conflict_subject \<Rightarrow> sweep \<Rightarrow> sweep" where
  "advance s w = w\<lparr>sp_state := (sp_state w)\<lparr>cd_engine :=
     set_conflict_cursor (sj_seq s) (sj_within s + 1) (cd_engine (sp_state w))\<rparr>\<rparr>"

record 'v cycle =
  cy_index :: "'v hnsw_index"
  cy_current :: "current_session list"
  cy_rows :: "(string \<times> nat) list"
  cy_excluded :: "string set"
  cy_detected_at :: int

definition subject_pairs :: "'v detector \<Rightarrow> 'v cycle \<Rightarrow> conflict_subject \<Rightarrow> 'v \<Rightarrow> string set
    \<Rightarrow> (conflict_ref \<times> conflict_ref) list" where
  "subject_pairs d c s qv open_pairs =
     (let near = conflict_search_refs d (cy_index c) qv (CONFLICT_SEARCH_K + 1) in
      decide_conflict_sweep (sj_ref s) near CANDIDATE_SIM_MIN
        (insert (pair_key (sj_ref s)) (cy_excluded c)) open_pairs MAX_CANDIDATE_PAIRS_PER_SUBJECT)"

fun sweep_subjects :: "'v detector \<Rightarrow> settings \<Rightarrow> 'v cycle \<Rightarrow> conflict_subject list \<Rightarrow> sweep
    \<Rightarrow> sweep \<times> (boss_error, unit) result" where
  "sweep_subjects d k c [] w = (w, Inr ())"
| "sweep_subjects d k c (s # ss) w =
     (case subject_query d (cd_engine (sp_state w)) (cy_current c) (cy_rows c) (sj_ref s) of
        Inl e \<Rightarrow> (w, Inl e)
      | Inr None \<Rightarrow> sweep_subjects d k c ss (advance s w)
      | Inr (Some qv) \<Rightarrow>
          let pairs = subject_pairs d c s qv (sp_open_pairs w) in
          if length pairs > sp_budget w
          then (report_update (\<lambda>r. r\<lparr>dr_budget_hit := True\<rparr>) w, Inr ())
          else (case judge_all d k (cy_current c) (cy_detected_at c) pairs False w of
              (w', Inl e) \<Rightarrow> (w', Inl e)
            | (w', Inr True) \<Rightarrow> (w', Inr ())
            | (w', Inr False) \<Rightarrow> sweep_subjects d k c ss (advance s w')))"

definition cycle_setup :: "'v detector \<Rightarrow> engine \<Rightarrow> string set \<Rightarrow> int
    \<Rightarrow> (boss_error, 'v cycle \<times> open_conflict list \<times> string set) result" where
  "cycle_setup d g excluded detected_at =
     rbind (rebuild_conflict_index d g) (\<lambda>index.
     rbind (session_events_ordered (g_log g)) (\<lambda>evs.
     rbind (open_conflict_proposals g) (\<lambda>opens.
     rbind (resolution_exclusions (g_log g)) (\<lambda>resolved.
       Inr (\<lparr>cy_index = index, cy_current = fst (fold_sessions evs), cy_rows = session_passages_for_model (dt_model d) g,
         cy_excluded = excluded, cy_detected_at = detected_at\<rparr>, opens, resolved)))))"

definition detect_conflicts_once :: "'v detector \<Rightarrow> settings \<Rightarrow> string set \<Rightarrow> int \<Rightarrow> conflict_state
    \<Rightarrow> conflict_state \<times> (boss_error, detect_report) result" where
  "detect_conflicts_once d k excluded detected_at st =
     (let g = cd_engine st; (cursor_seq, cursor_off) = conflict_cursor g in
      case conflict_detect_enabled (g_log g) of
        Inl e \<Rightarrow> (st, Inl e)
      | Inr False \<Rightarrow> (st, Inr (empty_report\<lparr>dr_skipped_disabled := True\<rparr>))
      | Inr True \<Rightarrow> (case unprocessed_conflict_subjects_since g cursor_seq cursor_off CONFLICT_SCAN_BOUND of
          Inl e \<Rightarrow> (st, Inl e)
        | Inr [] \<Rightarrow> (st, Inr empty_report)
        | Inr subjects \<Rightarrow> (case cycle_setup d g excluded detected_at of
            Inl e \<Rightarrow> (st, Inl e)
          | Inr (c, opens, resolved) \<Rightarrow>
              let w = \<lparr>sp_state = st,
                sp_open_pairs = set (map (\<lambda>p. unordered_pair_key (oc_a p) (oc_b p)) opens) \<union> resolved,
                sp_open_count = length opens, sp_report = empty_report\<lparr>dr_scanned_subjects := length subjects\<rparr>,
                sp_budget = CONFLICT_JUDGE_PER_SWEEP\<rparr> in
              (case sweep_subjects d k c subjects w of
                 (w', Inl e) \<Rightarrow> (sp_state w', Inl e)
               | (w', Inr _) \<Rightarrow> (sp_state w', Inr (sp_report w'))))))"

section \<open>What the finder returns\<close>

lemma unordered_pair_key_commute: "unordered_pair_key a b = unordered_pair_key b a"
  by (auto simp: unordered_pair_key_def Let_def)

lemma first_by_distinct: "distinct (map f (first_by f seen xs)) \<and> f ` set (first_by f seen xs) \<inter> seen = {}"
  by (induction f seen xs rule: first_by.induct) auto

lemma first_by_subset: "set (first_by f seen xs) \<subseteq> set xs"
  by (induction f seen xs rule: first_by.induct) auto

definition pair_key_of :: "conflict_ref \<times> conflict_ref \<Rightarrow> string" where
  "pair_key_of = (\<lambda>(a, b). unordered_pair_key a b)"

lemma decide_fresh:
  assumes "pairs = decide_conflict_sweep subject near m excluded open_pairs n"
  shows "distinct (map pair_key_of pairs)" "pair_key_of ` set pairs \<inter> open_pairs = {}" "length pairs \<le> n"
proof -
  let ?f = "\<lambda>(_ :: float, r). unordered_pair_key subject r"
  let ?ys = "take n (first_by ?f {} (sort_key similarity_key (List.map_filter (candidate subject m excluded open_pairs) near)))"
  have p: "pairs = map (\<lambda>(_, r). (subject, r)) ?ys"
    by (simp add: assms decide_conflict_sweep_def Let_def)
  have keys: "map pair_key_of pairs = map ?f ?ys"
    unfolding p by (simp add: pair_key_of_def split_def)
  have "distinct (map ?f ?ys)"
    unfolding take_map [symmetric] using first_by_distinct by (intro distinct_take) blast
  then show "distinct (map pair_key_of pairs)" by (simp only: keys)
  have "set ?ys \<subseteq> set (List.map_filter (candidate subject m excluded open_pairs) near)"
    using first_by_subset [of ?f "{}" "sort_key similarity_key (List.map_filter (candidate subject m excluded open_pairs) near)"]
    by (auto dest: in_set_takeD)
  then have "?f ` set ?ys \<inter> open_pairs = {}"
    by (auto simp: map_filter_def candidate_def Let_def split: if_splits)
  then have "set (map ?f ?ys) \<inter> open_pairs = {}" by simp
  then show "pair_key_of ` set pairs \<inter> open_pairs = {}"
    using keys by (metis list.set_map)
  show "length pairs \<le> n" by (simp add: p)
qed

section \<open>What a cycle emits\<close>

definition proposal_row :: "row \<Rightarrow> conflict_ref \<times> conflict_ref \<Rightarrow> bool" where
  "proposal_row r = (\<lambda>(a, b). r_type r = CONFLICT_PROPOSAL_T \<and> (\<exists>ev. r_payload r = Some ev
     \<and> json_get (ev_content ev) ''a_ref'' = Some (ref_to_json a) \<and> json_get (ev_content ev) ''b_ref'' = Some (ref_to_json b)))"

definition rows_since :: "sweep \<Rightarrow> sweep \<Rightarrow> row list \<Rightarrow> bool" where
  "rows_since w w' rows \<longleftrightarrow> cd_engine (sp_state w') = (cd_engine (sp_state w))
     \<lparr>g_log := g_log (cd_engine (sp_state w)) @ rows, g_conflict_cursor := g_conflict_cursor (cd_engine (sp_state w'))\<rparr>"

text \<open>\<open>emits ps w w'\<close>: between the two states exactly the pairs \<open>ps\<close> became proposals.\<close>

definition emits :: "(conflict_ref \<times> conflict_ref) list \<Rightarrow> sweep \<Rightarrow> sweep \<Rightarrow> bool" where
  "emits ps w w' \<longleftrightarrow> (\<exists>rows. rows_since w w' rows \<and> list_all2 proposal_row rows ps)
     \<and> sp_open_pairs w' = sp_open_pairs w \<union> pair_key_of ` set ps
     \<and> distinct (map pair_key_of ps) \<and> pair_key_of ` set ps \<inter> sp_open_pairs w = {}
     \<and> sp_open_count w' = sp_open_count w + length ps
     \<and> dr_proposed (sp_report w') = dr_proposed (sp_report w) + length ps
     \<and> (ps \<noteq> [] \<longrightarrow> sp_open_count w' \<le> CONFLICT_OPEN_CEILING)"

lemma rows_since_trans: "rows_since w w1 xs \<Longrightarrow> rows_since w1 w2 ys \<Longrightarrow> rows_since w w2 (xs @ ys)"
  unfolding rows_since_def
  by (cases "cd_engine (sp_state w)"; cases "cd_engine (sp_state w1)"; cases "cd_engine (sp_state w2)") simp

lemma emits_trans:
  assumes "emits ps w w1" "emits qs w1 w2"
  shows "emits (ps @ qs) w w2"
proof -
  obtain xs ys where "rows_since w w1 xs" "list_all2 proposal_row xs ps" "rows_since w1 w2 ys" "list_all2 proposal_row ys qs"
    using assms by (auto simp: emits_def)
  then have "rows_since w w2 (xs @ ys) \<and> list_all2 proposal_row (xs @ ys) (ps @ qs)"
    by (auto intro: rows_since_trans list_all2_appendI)
  then show ?thesis
    using assms unfolding emits_def by (intro conjI) auto
qed

lemma rows_since_eq: "cd_engine (sp_state w') = cd_engine (sp_state w) \<Longrightarrow> rows_since w w' []"
  by (simp add: rows_since_def)

text \<open>A step that touches neither the log nor the open pairs emits nothing.\<close>

lemma emits_none:
  assumes "cd_engine (sp_state w') = cd_engine (sp_state w)" "sp_open_pairs w' = sp_open_pairs w"
    "sp_open_count w' = sp_open_count w" "dr_proposed (sp_report w') = dr_proposed (sp_report w)"
  shows "emits [] w w'"
  using assms by (auto simp: emits_def intro: rows_since_eq)

lemma emits_advance: "emits [] w (advance s w)"
  by (simp add: emits_def advance_def rows_since_def set_conflict_cursor_def)

lemma append_conflict_proposal_row:
  assumes "append_conflict_proposal k st a b h band why t srcs g = (g', Inr i)"
  obtains r where "g' = g\<lparr>g_log := g_log g @ [r]\<rparr>" "proposal_row r (a, b)"
proof -
  define ev where "ev = build_proposer_event CONFLICT_PROPOSER_PRODUCER CONFLICT_PROPOSAL_T
       (jobj [(''a_ref'', ref_to_json a), (''b_ref'', ref_to_json b), (''winner_hint'', JStr h),
              (''confidence_band'', JStr band), (''why'', JStr why), (''detected_at'', JNum t)]) srcs"
  obtain lg where lg: "append (k_crypto k) (k_key k) st ev (g_log g) = Inr (i, lg)" "g' = g\<lparr>g_log := lg\<rparr>"
    using assms by (auto simp: append_conflict_proposal_def append_to_Inr ev_def)
  obtain r ev' where r: "lg = g_log g @ [r]" "r_type r = ev_type ev" "r_payload r = Some ev'"
    "ev_content ev' = ev_content (stamp_origin (g_log g) ev)"
    using append_row [OF lg(1)] by metis
  have "proposal_row r (a, b)"
    using r by (auto simp: proposal_row_def stamp_origin_def ev_def build_proposer_event_def json_get_obj_insert)
  then show ?thesis using that lg(2) r(1) by blast
qed

lemma emit_proposal_emits:
  assumes "emit_proposal d k current t a b v w = (w', r)" "unordered_pair_key a b \<notin> sp_open_pairs w"
    and "sp_open_count w < CONFLICT_OPEN_CEILING"
  shows "emits (case r of Inl _ \<Rightarrow> [] | Inr _ \<Rightarrow> [(a, b)]) w w'"
proof -
  obtain g' res where res: "append_conflict_proposal k (dt_stamp d (dr_proposed (sp_report w))) a b (winner_str (vt_winner v))
      (confidence_band (vt_confidence v)) (templated_why (winner_str (vt_winner v)) (confidence_band (vt_confidence v))
        (ref_kind a) (ref_kind b)) t (List.map_filter (ref_source_event current) [a, b]) (cd_engine (sp_state w)) = (g', res)"
    by fastforce
  show ?thesis
  proof (cases res)
    case (Inl e)
    then have "g' = cd_engine (sp_state w)"
      using res by (simp add: append_conflict_proposal_def append_to_Inl)
    then show ?thesis
      using assms(1) unfolding emit_proposal_def Let_def res Inl by (auto intro!: emits_none)
  next
    case (Inr i)
    then obtain r' where "g' = (cd_engine (sp_state w))\<lparr>g_log := g_log (cd_engine (sp_state w)) @ [r']\<rparr>" "proposal_row r' (a, b)"
      using append_conflict_proposal_row [OF res [unfolded Inr]] by blast
    then show ?thesis
      using assms unfolding emit_proposal_def Let_def res Inr
      by (auto simp: emits_def rows_since_def report_update_def pair_key_of_def intro!: exI [of _ "[r']"])
  qed
qed

text \<open>The cases of judging one pair: it changes no log and no open pair, with or without a call of the
  reasoner, or it emits the pair after a call.\<close>

definition quiet :: "nat \<Rightarrow> sweep \<Rightarrow> sweep \<Rightarrow> bool" where
  "quiet n w w' \<longleftrightarrow> cd_engine (sp_state w') = cd_engine (sp_state w) \<and> sp_open_pairs w' = sp_open_pairs w
     \<and> sp_open_count w' = sp_open_count w \<and> dr_proposed (sp_report w') = dr_proposed (sp_report w)
     \<and> dr_judged (sp_report w') = dr_judged (sp_report w) + n \<and> sp_budget w' = sp_budget w - n"

lemma quiet_emits: "quiet n w w' \<Longrightarrow> emits [] w w'"
  by (simp add: quiet_def emits_none)

lemma judge_candidate_cases:
  assumes "judge_candidate d k current t (a, b) w = (w', r)"
  obtains (quiet) n where "quiet n w w'" "n \<le> 1"
  | (emitted) w2 v x y r' where "quiet 1 w w2" "sp_open_count w < CONFLICT_OPEN_CEILING"
      "emit_proposal d k current t x y v w2 = (w', r')" "unordered_pair_key x y = unordered_pair_key a b"
proof -
  let ?s = "sp_state w"
  let ?log = "g_log (cd_engine ?s)"
  obtain older newer where on: "(if ref_ts d current ?log a \<le> ref_ts d current ?log b then (a, b) else (b, a)) = (older, newer)"
    by fastforce
  have pk: "unordered_pair_key older newer = unordered_pair_key a b"
    using on unordered_pair_key_commute by (auto split: if_splits)
  note J = assms [unfolded judge_candidate_def prod.case Let_def on]
  show ?thesis
  proof (cases "conflict_pair_error_count (unordered_pair_key older newer) ?s \<ge> CONFLICT_PAIR_ERROR_BUDGET")
    case True
    then have "quiet 0 w w'" using J by (simp add: quiet_def)
    then show ?thesis by (rule that(1)) simp
  next
    case low: False
    show ?thesis
    proof (cases "ref_text d ?log older = None \<or> ref_text d ?log newer = None")
      case True
      then have "quiet 0 w w'" using J low by (auto simp: quiet_def report_update_def split: option.splits)
      then show ?thesis by (rule that(1)) simp
    next
      case False
      then obtain ot nt where tx: "ref_text d ?log older = Some ot" "ref_text d ?log newer = Some nt" by auto
      note J = J [unfolded tx option.case prod.case]
      show ?thesis
      proof (cases "judge_pair (dt_reasoner d (dr_judged (sp_report w))) ot nt")
        case (Inl e)
        then have "quiet 1 w w'" using J low by (auto simp: quiet_def report_update_def bump_conflict_pair_error_def Let_def)
        then show ?thesis by (rule that(1)) simp
      next
        case (Inr res)
        show ?thesis
        proof (cases res)
          case None
          then have "quiet 1 w w'" using J low Inr by (auto simp: quiet_def report_update_def reset_conflict_pair_error_def)
          then show ?thesis by (rule that(1)) simp
        next
          case (Some v)
          let ?w2 = "(report_update (\<lambda>r. r\<lparr>dr_judged := dr_judged r + 1\<rparr>) (w\<lparr>sp_budget := sp_budget w - 1\<rparr>))
            \<lparr>sp_state := reset_conflict_pair_error (unordered_pair_key older newer) ?s\<rparr>"
          have q: "quiet 1 w ?w2" by (simp add: quiet_def report_update_def reset_conflict_pair_error_def)
          show ?thesis
          proof (cases "sp_open_count w < CONFLICT_OPEN_CEILING \<and> is_conflict_proposal_suppressed (cd_engine ?s) older newer = Inr False")
            case True
            then obtain r' where "emit_proposal d k current t older newer v ?w2 = (w', r')"
              using J low Inr Some by (auto split: prod.splits sum.splits)
            then show ?thesis using that(2) q True pk by blast
          next
            case False
            then have "quiet 1 w w'"
              using J low unfolding Inr Some
              by (cases "CONFLICT_OPEN_CEILING \<le> sp_open_count w"; cases "is_conflict_proposal_suppressed (cd_engine ?s) older newer")
                (auto simp: quiet_def report_update_def reset_conflict_pair_error_def split: bool.splits)
            then show ?thesis by (rule that(1)) simp
          qed
        qed
      qed
    qed
  qed
qed

text \<open>The budget and the cursor: \<open>spends n\<close> allows at most \<open>n\<close> calls of the reasoner.\<close>

definition spends :: "nat \<Rightarrow> sweep \<Rightarrow> sweep \<Rightarrow> bool" where
  "spends n w w' \<longleftrightarrow> (n \<le> sp_budget w \<longrightarrow>
     dr_judged (sp_report w') + sp_budget w' = dr_judged (sp_report w) + sp_budget w
     \<and> sp_budget w \<le> sp_budget w' + n
     \<and> dr_proposed (sp_report w') + dr_judged (sp_report w) \<le> dr_proposed (sp_report w) + dr_judged (sp_report w'))
   \<and> g_conflict_cursor (cd_engine (sp_state w')) = g_conflict_cursor (cd_engine (sp_state w))"

lemma spends_trans: "spends n w w1 \<Longrightarrow> spends m w1 w2 \<Longrightarrow> spends (n + m) w w2"
  by (auto simp: spends_def)

lemma emit_proposal_spends:
  assumes "emit_proposal d k current t x y v w2 = (w', r')" "quiet 1 w w2"
  shows "spends 1 w w'"
proof -
  have c: "g_conflict_cursor g' = g_conflict_cursor g" if "append_conflict_proposal k st a b h band why t srcs g = (g', res)"
    for st a b h band why t srcs g g' res
    using that by (auto simp: append_conflict_proposal_def append_to_def split: sum.splits)
  show ?thesis
    using assms by (auto simp: emit_proposal_def Let_def report_update_def spends_def quiet_def c
        split: prod.splits sum.splits dest!: c)
qed

lemma judge_candidate_spends:
  assumes "judge_candidate d k current t p w = (w', r)"
  shows "spends 1 w w'"
proof -
  obtain a b where p: "p = (a, b)" by (cases p)
  show ?thesis
  proof (rule judge_candidate_cases [OF assms [unfolded p]])
    fix n assume "quiet n w w'" "n \<le> 1"
    then show ?thesis by (auto simp: quiet_def spends_def)
  next
    fix w2 v x y r' assume "quiet 1 w w2" "emit_proposal d k current t x y v w2 = (w', r')"
    then show ?thesis by (rule_tac emit_proposal_spends)
  qed
qed

lemma judge_candidate_emits:
  assumes "judge_candidate d k current t p w = (w', r)" "pair_key_of p \<notin> sp_open_pairs w"
  shows "\<exists>ps. emits ps w w' \<and> pair_key_of ` set ps \<subseteq> {pair_key_of p}"
proof -
  obtain a b where p: "p = (a, b)" by (cases p)
  show ?thesis
  proof (rule judge_candidate_cases [OF assms(1) [unfolded p]])
    fix n assume "quiet n w w'"
    then show ?thesis using quiet_emits by fastforce
  next
    fix w2 v x y r'
    assume e: "quiet 1 w w2" "sp_open_count w < CONFLICT_OPEN_CEILING" "emit_proposal d k current t x y v w2 = (w', r')"
      "unordered_pair_key x y = unordered_pair_key a b"
    have "emits (case r' of Inl _ \<Rightarrow> [] | Inr _ \<Rightarrow> [(x, y)]) w2 w'"
      using e assms(2) by (intro emit_proposal_emits [OF e(3)]) (auto simp: quiet_def pair_key_of_def p)
    then have "emits ([] @ (case r' of Inl _ \<Rightarrow> [] | Inr _ \<Rightarrow> [(x, y)])) w w'"
      by (rule emits_trans [OF quiet_emits [OF e(1)]])
    then show ?thesis
      using e(4) by (intro exI [of _ "case r' of Inl _ \<Rightarrow> [] | Inr _ \<Rightarrow> [(x, y)]"])
        (auto simp: pair_key_of_def p split: sum.splits)
  qed
qed

lemma judge_all_spends:
  "judge_all d k current t ps blocked w = (w', r) \<Longrightarrow> spends (length ps) w w'"
proof (induction d k current t ps blocked w rule: judge_all.induct)
  case (1 d k current t blocked w)
  then show ?case by (simp add: spends_def)
next
  case (2 d k current t p ps blocked w)
  obtain w1 r1 where r1: "judge_candidate d k current t p w = (w1, r1)" by fastforce
  note s1 = judge_candidate_spends [OF r1]
  show ?case
  proof (cases r1)
    case (Inl e)
    then show ?thesis using "2.prems" r1 s1 by (auto simp: spends_def)
  next
    case (Inr b)
    then show ?thesis
      using spends_trans [OF s1 "2.IH" [OF r1 [symmetric] Inr]] "2.prems" r1 by simp
  qed
qed

lemma judge_all_emits:
  assumes "judge_all d k current t ps blocked w = (w', r)" "distinct (map pair_key_of ps)"
    "pair_key_of ` set ps \<inter> sp_open_pairs w = {}"
  shows "\<exists>qs. emits qs w w'"
  using assms
proof (induction d k current t ps blocked w rule: judge_all.induct)
  case (1 d k current t blocked w)
  then show ?case by (auto intro!: exI [of _ "[]"] emits_none)
next
  case (2 d k current t p ps blocked w)
  obtain w1 r1 where r1: "judge_candidate d k current t p w = (w1, r1)" by fastforce
  obtain qs where qs: "emits qs w w1" "pair_key_of ` set qs \<subseteq> {pair_key_of p}"
    using judge_candidate_emits [OF r1] "2.prems"(3) by auto
  show ?case
  proof (cases r1)
    case (Inl e)
    then show ?thesis using "2.prems"(1) r1 qs by auto
  next
    case (Inr b)
    have "sp_open_pairs w1 = sp_open_pairs w \<union> pair_key_of ` set qs" using qs(1) by (simp add: emits_def)
    moreover have "pair_key_of ` set ps \<inter> {pair_key_of p} = {}" "pair_key_of ` set ps \<inter> sp_open_pairs w = {}"
      using "2.prems"(2,3) by auto
    ultimately have "pair_key_of ` set ps \<inter> sp_open_pairs w1 = {}"
      using qs(2) by blast
    then obtain qs' where "emits qs' w1 w'"
      using "2.IH" [OF r1 [symmetric] Inr] "2.prems"(1,2) r1 Inr by auto
    then show ?thesis using emits_trans [OF qs(1)] by blast
  qed
qed

lemma sweep_subjects_emits:
  "sweep_subjects d k c ss w = (w', r) \<Longrightarrow> \<exists>qs. emits qs w w'"
proof (induction d k c ss w arbitrary: r rule: sweep_subjects.induct)
  case (1 d k c w)
  then show ?case by (auto intro!: exI [of _ "[]"] emits_none)
next
  case (2 d k c s ss w)
  let ?q = "subject_query d (cd_engine (sp_state w)) (cy_current c) (cy_rows c) (sj_ref s)"
  have none: "emits [] w w" by (rule emits_none) simp_all
  show ?case
  proof (cases ?q)
    case (Inl e)
    then show ?thesis using "2.prems" none by auto
  next
    case (Inr q)
    show ?thesis
    proof (cases q)
      case None
      then obtain qs where "emits qs (advance s w) w'" using "2.IH"(1) [OF Inr None] "2.prems" Inr by auto
      then show ?thesis using emits_trans [OF emits_advance] by fastforce
    next
      case (Some qv)
      define pairs where "pairs = subject_pairs d c s qv (sp_open_pairs w)"
      note fresh = decide_fresh [OF pairs_def [unfolded subject_pairs_def Let_def]]
      show ?thesis
      proof (cases "length pairs > sp_budget w")
        case True
        then have "w' = report_update (\<lambda>r. r\<lparr>dr_budget_hit := True\<rparr>) w"
          using "2.prems" Inr Some by (simp add: pairs_def [symmetric])
        then have "emits [] w w'" by (intro emits_none) (simp_all add: report_update_def)
        then show ?thesis ..
      next
        case False
        obtain w1 r1 where r1: "judge_all d k (cy_current c) (cy_detected_at c) pairs False w = (w1, r1)" by fastforce
        obtain qs where qs: "emits qs w w1" using judge_all_emits [OF r1 fresh(1,2)] by blast
        show ?thesis
        proof (cases "r1 = Inr False")
          case go: True
          then obtain qs' where "emits qs' (advance s w1) w'"
            using "2.IH"(2) [OF Inr Some pairs_def False r1 [symmetric] go refl] "2.prems" Inr Some False r1
            by (auto simp: pairs_def [symmetric])
          then show ?thesis using emits_trans [OF qs emits_trans [OF emits_advance]] by blast
        next
          case stop: False
          then have "w' = w1"
            using "2.prems" Inr Some False r1 by (auto simp: pairs_def [symmetric] split: sum.splits bool.splits)
          then show ?thesis using qs by blast
        qed
      qed
    qed
  qed
qed

text \<open>Calls and proposals of the loop, and where it leaves the cursor.\<close>

definition paid :: "sweep \<Rightarrow> sweep \<Rightarrow> bool" where
  "paid w w' \<longleftrightarrow> dr_judged (sp_report w') + sp_budget w' = dr_judged (sp_report w) + sp_budget w
     \<and> dr_proposed (sp_report w') + dr_judged (sp_report w) \<le> dr_proposed (sp_report w) + dr_judged (sp_report w')"

lemma paid_trans: "paid w w1 \<Longrightarrow> paid w1 w2 \<Longrightarrow> paid w w2"
  by (auto simp: paid_def)

definition cursor_of :: "sweep \<Rightarrow> nat \<times> nat" where
  "cursor_of w = g_conflict_cursor (cd_engine (sp_state w))"

lemma advance_simps [simp]:
  "cursor_of (advance s w) = (sj_seq s, sj_within s + 1)"
  "sp_budget (advance s w) = sp_budget w"
  "sp_report (advance s w) = sp_report w"
  "paid w (advance s w)"
  by (simp_all add: cursor_of_def advance_def set_conflict_cursor_def paid_def)

text \<open>The reasoner is healthy when it always gives a verdict; then no pair blocks its subject.\<close>

definition healthy :: "'v detector \<Rightarrow> bool" where
  "healthy d \<longleftrightarrow> (\<forall>n a b. \<exists>v. judge_pair (dt_reasoner d n) a b = Inr v)"

lemma judge_candidate_unblocked:
  assumes "healthy d" "judge_candidate d k current t p w = (w', Inr b)"
  shows "\<not> b"
proof -
  have "judge_pair (dt_reasoner d n) x y \<noteq> Inl e" for n x y e
    using assms(1) unfolding healthy_def by (metis sum.distinct(1))
  then show ?thesis
    using assms(2) by (auto simp: judge_candidate_def Let_def split: prod.splits option.splits sum.splits if_splits bool.splits)
qed

lemma judge_all_unblocked:
  assumes "healthy d" "judge_all d k current t ps False w = (w', Inr b)"
  shows "\<not> b"
  using assms(2)
proof (induction ps arbitrary: w)
  case (Cons p ps)
  then obtain w1 b1 where w1: "judge_candidate d k current t p w = (w1, Inr b1)"
    by (auto split: prod.splits sum.splits)
  then have "\<not> b1" using judge_candidate_unblocked [OF assms(1)] by blast
  then show ?case using Cons w1 by simp
qed simp

lemma sweep_subjects_progress:
  assumes "sweep_subjects d k c ss w = (w', r)"
  shows "paid w w' \<and> (cursor_of w' = cursor_of w \<or> (\<exists>x\<in>set ss. cursor_of w' = (sj_seq x, sj_within x + 1)))
    \<and> (healthy d \<and> r = Inr () \<and> ss \<noteq> [] \<and> sp_budget w \<ge> MAX_CANDIDATE_PAIRS_PER_SUBJECT
         \<longrightarrow> (\<exists>x\<in>set ss. cursor_of w' = (sj_seq x, sj_within x + 1)))"
  using assms
proof (induction d k c ss w arbitrary: r rule: sweep_subjects.induct)
  case (1 d k c w)
  then show ?case by (simp add: paid_def)
next
  case (2 d k c s ss w)
  show ?case
  proof (cases "subject_query d (cd_engine (sp_state w)) (cy_current c) (cy_rows c) (sj_ref s)")
    case (Inl e)
    then show ?thesis using "2.prems" by (auto simp: paid_def)
  next
    case (Inr q)
    show ?thesis
    proof (cases q)
      case None
      then show ?thesis
        using "2.IH"(1) [OF Inr None, of r] "2.prems" Inr paid_trans [OF advance_simps(4) [where w = w and s = s]] by auto
    next
      case (Some qv)
      define pairs where "pairs = subject_pairs d c s qv (sp_open_pairs w)"
      have len: "length pairs \<le> MAX_CANDIDATE_PAIRS_PER_SUBJECT"
        using decide_fresh(3) [OF pairs_def [unfolded subject_pairs_def Let_def]] .
      show ?thesis
      proof (cases "length pairs > sp_budget w")
        case True
        then have "w' = report_update (\<lambda>r. r\<lparr>dr_budget_hit := True\<rparr>) w"
          using "2.prems" Inr Some by (simp add: pairs_def [symmetric])
        then show ?thesis
          using True len by (simp add: report_update_def paid_def cursor_of_def)
      next
        case False
        obtain w1 r1 where r1: "judge_all d k (cy_current c) (cy_detected_at c) pairs False w = (w1, r1)" by fastforce
        have s1: "paid w w1" "cursor_of w1 = cursor_of w"
          using judge_all_spends [OF r1] False by (auto simp: spends_def paid_def cursor_of_def)
        show ?thesis
        proof (cases "r1 = Inr False")
          case go: True
          have ih: "sweep_subjects d k c ss (advance s w1) = (w', r)"
            using "2.prems" Inr Some False r1 go by (auto simp: pairs_def [symmetric])
          have "paid w w'" if "paid (advance s w1) w'"
            using paid_trans [OF s1(1) paid_trans [OF advance_simps(4) that]] .
          then show ?thesis
            using "2.IH"(2) [OF Inr Some pairs_def False r1 [symmetric] go refl ih] by auto
        next
          case stop: False
          have "w' = w1 \<and> (r = Inr () \<longrightarrow> r1 = Inr True)"
            using "2.prems" Inr Some False r1 stop by (auto simp: pairs_def [symmetric] split: sum.splits bool.splits)
          moreover have "\<not> healthy d" if "r1 = Inr True"
            using judge_all_unblocked [of d k "cy_current c" "cy_detected_at c" pairs w w1 True] r1 that by auto
          ultimately show ?thesis using s1 by auto
        qed
      qed
    qed
  qed
qed

section \<open>The cycle\<close>

definition open_keys :: "open_conflict list \<Rightarrow> string set" where
  "open_keys opens = set (map (\<lambda>p. unordered_pair_key (oc_a p) (oc_b p)) opens)"

text \<open>A cycle either changes nothing, or it is the loop over the subjects of its window.\<close>

lemma detect_cases:
  assumes "detect_conflicts_once d k excluded t st = (st', r)"
  obtains (idle) "st' = st" "\<And>rep. r = Inr rep \<Longrightarrow> dr_scanned_subjects rep = 0"
  | (loop) subjects c opens resolved w w' res where
      "unprocessed_conflict_subjects_since (cd_engine st) (fst (g_conflict_cursor (cd_engine st)))
         (snd (g_conflict_cursor (cd_engine st))) CONFLICT_SCAN_BOUND = Inr subjects" "subjects \<noteq> []"
      "open_conflict_proposals (cd_engine st) = Inr opens" "resolution_exclusions (g_log (cd_engine st)) = Inr resolved"
      "sp_state w = st" "sp_open_pairs w = open_keys opens \<union> resolved" "sp_open_count w = length opens"
      "sp_budget w = CONFLICT_JUDGE_PER_SWEEP" "dr_judged (sp_report w) = 0" "dr_proposed (sp_report w) = 0"
      "sweep_subjects d k c subjects w = (w', res)" "st' = sp_state w'"
      "r = (case res of Inl e \<Rightarrow> Inl e | Inr _ \<Rightarrow> Inr (sp_report w'))"
proof -
  let ?g = "cd_engine st"
  obtain cs co where cur: "g_conflict_cursor ?g = (cs, co)" by fastforce
  note D = assms [unfolded detect_conflicts_once_def conflict_cursor_def cur Let_def prod.case]
  show ?thesis
  proof (cases "conflict_detect_enabled (g_log ?g) = Inr True")
    case False
    then show ?thesis
      using D idle by (auto simp: empty_report_def split: sum.splits bool.splits)
  next
    case en: True
    note D = D [unfolded en sum.case bool.case]
    show ?thesis
    proof (cases "unprocessed_conflict_subjects_since ?g cs co CONFLICT_SCAN_BOUND")
      case (Inl e)
      then show ?thesis using D idle by auto
    next
      case (Inr subjects)
      show ?thesis
      proof (cases "subjects = []")
        case True
        then show ?thesis using D Inr idle by (auto simp: empty_report_def)
      next
        case ne: False
        then obtain x xs where xs: "subjects = x # xs" by (cases subjects) auto
        show ?thesis
        proof (cases "cycle_setup d ?g excluded t")
          case (Inl e)
          then show ?thesis using D Inr xs idle by auto
        next
          case cyc: (Inr v)
          obtain c opens resolved where v: "v = (c, opens, resolved)" by (cases v)
          have reads: "open_conflict_proposals ?g = Inr opens" "resolution_exclusions (g_log ?g) = Inr resolved"
            using cyc by (auto simp: cycle_setup_def rbind_eq_Inr v)
          define w where "w = \<lparr>sp_state = st, sp_open_pairs = open_keys opens \<union> resolved,
                sp_open_count = length opens, sp_report = empty_report\<lparr>dr_scanned_subjects := length subjects\<rparr>,
                sp_budget = CONFLICT_JUDGE_PER_SWEEP\<rparr>"
          obtain w' res where run: "sweep_subjects d k c subjects w = (w', res)" by fastforce
          have "st' = sp_state w' \<and> r = (case res of Inl e \<Rightarrow> Inl e | Inr _ \<Rightarrow> Inr (sp_report w'))"
            using D run unfolding Inr cyc v xs w_def open_keys_def by (auto split: sum.splits)
          then show ?thesis
            using loop [of subjects opens resolved w c w' res] reads run Inr ne cur
            by (simp add: w_def empty_report_def)
        qed
      qed
    qed
  qed
qed

text \<open>C28. A detection cycle proposes no pair that is open, kept or under a live dismissal, and no pair twice:
  what it adds to the log, also when it ends in an error, is a list of conflict proposals for distinct
  pairs outside those sets, at most eight of them, and never past the ceiling of open proposals.\<close>

theorem cycle_proposals_fresh:
  assumes "detect_conflicts_once d k excluded t st = (st', r)"
    and "open_conflict_proposals (cd_engine st) = Inr opens" "resolution_exclusions (g_log (cd_engine st)) = Inr resolved"
  shows "\<exists>rows ps. g_log (cd_engine st') = g_log (cd_engine st) @ rows \<and> list_all2 proposal_row rows ps
    \<and> distinct (map pair_key_of ps) \<and> pair_key_of ` set ps \<inter> (open_keys opens \<union> resolved) = {}
    \<and> length ps \<le> CONFLICT_JUDGE_PER_SWEEP \<and> length opens + length ps \<le> max CONFLICT_OPEN_CEILING (length opens)"
  using assms(1)
proof (cases rule: detect_cases)
  case idle
  then show ?thesis by (intro exI [of _ "[]"]) simp
next
  case (loop subjects c opens' resolved' w w' res)
  have same: "opens' = opens" "resolved' = resolved" using loop(3,4) assms(2,3) by simp_all
  obtain ps where ps: "emits ps w w'" using sweep_subjects_emits [OF loop(11)] by blast
  then obtain rows where rows: "rows_since w w' rows" "list_all2 proposal_row rows ps" by (auto simp: emits_def)
  have "g_log (cd_engine st') = g_log (cd_engine st) @ rows"
    using rows(1) loop(5,12) by (metis engine.select_convs(1) engine.surjective engine.update_convs(1,7) rows_since_def)
  moreover have "paid w w'" using sweep_subjects_progress [OF loop(11)] by blast
  then have "length ps \<le> CONFLICT_JUDGE_PER_SWEEP"
    using ps loop(8-10) by (simp add: paid_def emits_def)
  moreover have "length opens + length ps \<le> max CONFLICT_OPEN_CEILING (length opens)"
    using ps loop(7) same by (cases "ps = []") (auto simp: emits_def)
  ultimately show ?thesis
    using ps rows(2) loop(6) same by (intro exI [of _ rows] exI [of _ ps]) (auto simp: emits_def)
qed

section \<open>Progress\<close>

definition position :: "conflict_subject \<Rightarrow> nat \<times> nat" where
  "position s = (sj_seq s, sj_within s)"

text \<open>All subjects at or after the cursor, whatever the window.\<close>

definition pending_subjects :: "engine \<Rightarrow> conflict_subject list" where
  "pending_subjects g = (case unprocessed_conflict_subjects_since g (fst (g_conflict_cursor g))
     (snd (g_conflict_cursor g)) (length (g_log g)) of Inl _ \<Rightarrow> [] | Inr ss \<Rightarrow> ss)"

lemma row_subjects_from:
  assumes "0 < seq"
  shows "filter (\<lambda>s. (c, off) \<le> position s) (row_subjects g cur marks ids 0 0 (seq, r)) =
    (if c \<le> seq then row_subjects g cur marks ids c off (seq, r) else [])"
proof -
  have "filter (\<lambda>pid. c < seq \<or> c = seq \<and> off \<le> pid) (filter P [0..<n]) =
      (if c \<le> seq then filter P [(if seq = c then off else 0)..<n] else [])" for P n
  proof (cases "c = seq")
    case True
    have "filter (\<lambda>pid. off \<le> pid) [0..<n] = [off..<n]"
      by (induction n) auto
    then have "filter (\<lambda>pid. off \<le> pid) (filter P [0..<n]) = filter P [off..<n]"
      by (metis (no_types, lifting) filter_filter filter_cong)
    then show ?thesis using True by simp
  next
    case False
    then show ?thesis by (cases "c < seq") auto
  qed
  then show ?thesis
    using assms by (auto simp: row_subjects_def Let_def position_def less_eq_prod_def filter_map comp_def split: option.split)
qed

definition subjects_from :: "engine \<Rightarrow> current_session list \<Rightarrow> session_marks \<Rightarrow> string set \<Rightarrow> nat \<Rightarrow> nat \<Rightarrow> nat
    \<Rightarrow> conflict_subject list" where
  "subjects_from g cur marks ids c off limit =
     concat (map (row_subjects g cur marks ids c off) (conflict_rows (g_log g) c limit))"

lemma enumerate_rows: "(n, r) \<in> set (enumerate k xs) \<Longrightarrow> k \<le> n"
  by (simp add: in_set_enumerate_eq)

lemma subjects_from_filter:
  "length (g_log g) \<le> limit \<Longrightarrow> length (g_log g) \<le> limit' \<Longrightarrow> subjects_from g cur marks ids c off limit =
     filter (\<lambda>s. (c, off) \<le> position s) (subjects_from g cur marks ids 0 0 limit')"
proof -
  assume lm: "length (g_log g) \<le> limit" "length (g_log g) \<le> limit'"
  have len: "length (filter P (enumerate 1 (g_log g))) \<le> length (g_log g)" for P
    by (metis length_enumerate length_filter_le)
  have "concat (map (row_subjects g cur marks ids c off)
        (filter (\<lambda>(seq, r). (r_type r = MEMORY_T \<or> r_type r = SESSION_CAPTURED_T) \<and> c \<le> seq) xs)) =
      filter (\<lambda>s. (c, off) \<le> position s) (concat (map (row_subjects g cur marks ids 0 0)
        (filter (\<lambda>(seq, r). (r_type r = MEMORY_T \<or> r_type r = SESSION_CAPTURED_T) \<and> 0 \<le> seq) xs)))"
    if "\<And>n r. (n, r) \<in> set xs \<Longrightarrow> 0 < n" for xs
    using that
  proof (induction xs)
    case (Cons x xs)
    obtain n r where x: "x = (n, r)" by (cases x)
    have "0 < n" using Cons.prems by (auto simp: x)
    then show ?case
      using Cons by (auto simp: x row_subjects_from [of n c off])
  qed simp
  from this [of "enumerate 1 (g_log g)"] show ?thesis
    using lm len order_trans enumerate_rows [of _ _ 1 "g_log g"] unfolding subjects_from_def conflict_rows_def
    by (subst (1 2) take_all) (blast intro: order_trans, blast intro: order_trans, fastforce)
qed

lemma subjects_from_window:
  assumes "s \<in> set (subjects_from g cur marks ids c off limit)"
  shows "s \<in> set (subjects_from g cur marks ids c off (length (g_log g)))"
proof -
  have "set (conflict_rows (g_log g) c limit) \<subseteq> set (conflict_rows (g_log g) c (length (g_log g)))"
  proof
    fix x assume "x \<in> set (conflict_rows (g_log g) c limit)"
    moreover have "take (length (g_log g)) (filter P (enumerate 1 (g_log g))) = filter P (enumerate 1 (g_log g))" for P
      by (metis length_enumerate length_filter_le take_all)
    ultimately show "x \<in> set (conflict_rows (g_log g) c (length (g_log g)))"
      by (auto simp: conflict_rows_def dest: in_set_takeD)
  qed
  then show ?thesis using assms by (auto simp: subjects_from_def)
qed

lemma unprocessed_eq:
  "unprocessed_conflict_subjects_since g c off limit = Inr ss \<longleftrightarrow> (\<exists>evs notes.
     session_events_ordered (g_log g) = Inr evs \<and> current_notes (\<lambda>_. None) (g_log g) = Inr notes \<and>
     ss = subjects_from g (fst (fold_sessions evs)) (snd (fold_sessions evs)) (set (map cn_event_id notes)) c off limit)"
  by (auto simp: unprocessed_conflict_subjects_since_def rbind_eq_Inr subjects_from_def split_def Let_def)

text \<open>Proposals are no subjects and hide none.\<close>

lemma events_of_types_proposals:
  assumes "list_all2 proposal_row rows ps" "CONFLICT_PROPOSAL_T \<notin> set types"
  shows "events_of_types types (lg @ rows) = events_of_types types lg"
proof -
  have "filter (\<lambda>r. r_type r \<in> set types) rows = []"
    using assms by (auto simp: filter_empty_conv proposal_row_def list_all2_conv_all_nth in_set_conv_nth)
  then show ?thesis by (simp add: events_of_types_def)
qed

lemma conflict_rows_proposals:
  assumes "list_all2 proposal_row rows ps"
  shows "filter (\<lambda>(seq, r). (r_type r = MEMORY_T \<or> r_type r = SESSION_CAPTURED_T) \<and> c \<le> seq) (enumerate 1 (lg @ rows)) =
     filter (\<lambda>(seq, r). (r_type r = MEMORY_T \<or> r_type r = SESSION_CAPTURED_T) \<and> c \<le> seq) (enumerate 1 lg)"
proof -
  have "r_type r = CONFLICT_PROPOSAL_T" if "r \<in> set rows" for r
    using assms that by (auto simp: proposal_row_def list_all2_conv_all_nth in_set_conv_nth)
  then have "filter (\<lambda>(seq, r). (r_type r = MEMORY_T \<or> r_type r = SESSION_CAPTURED_T) \<and> c \<le> seq) (enumerate (1 + length lg) rows) = []"
    by (fastforce simp: filter_empty_conv in_set_enumerate_eq)
  then show ?thesis by (simp add: enumerate_append_eq)
qed

lemma pending_after:
  assumes "unprocessed_conflict_subjects_since g c off lm = Inr ss"
    and "g' = g\<lparr>g_log := g_log g @ rows, g_conflict_cursor := (c', off')\<rparr>" "list_all2 proposal_row rows ps"
    and "(c, off) \<le> (c', off')" "g_conflict_cursor g = (c, off)"
  shows "pending_subjects g' = filter (\<lambda>s. (c', off') \<le> position s) (pending_subjects g)" "set ss \<subseteq> set (pending_subjects g)"
    "\<forall>s\<in>set (pending_subjects g). (c, off) \<le> position s"
proof -
  obtain evs nts where r: "session_events_ordered (g_log g) = Inr evs" "current_notes (\<lambda>_. None) (g_log g) = Inr nts"
    "ss = subjects_from g (fst (fold_sessions evs)) (snd (fold_sessions evs)) (set (map cn_event_id nts)) c off lm"
    using assms(1) by (auto simp: unprocessed_eq)
  let ?S = "\<lambda>g. subjects_from g (fst (fold_sessions evs)) (snd (fold_sessions evs)) (set (map cn_event_id nts))"
  let ?n = "length (g_log g)" and ?n' = "length (g_log g')"
  have r': "session_events_ordered (g_log g') = Inr evs" "current_notes (\<lambda>_. None) (g_log g') = Inr nts"
    using r events_of_types_proposals [OF assms(3)] assms(2)
    by (simp_all add: session_events_ordered_def current_notes_def note_types_def)
  have p: "pending_subjects g = ?S g c off ?n"
    using r assms(5) unprocessed_eq [of g c off ?n "?S g c off ?n"] by (auto simp: pending_subjects_def)
  have p': "pending_subjects g' = ?S g' c' off' ?n'"
    using r' assms(2) unprocessed_eq [of g' c' off' ?n' "?S g' c' off' ?n'"] by (auto simp: pending_subjects_def)
  have spc: "session_passage_count g' = session_passage_count g"
    using assms(2) by (simp add: fun_eq_iff session_passage_count_def)
  have "row_subjects g' = row_subjects g"
    unfolding row_subjects_def spc ..
  moreover have "conflict_rows (g_log g') 0 m = conflict_rows (g_log g) 0 m" for m
    using conflict_rows_proposals [OF assms(3), of 0 "g_log g"] assms(2) unfolding conflict_rows_def by simp
  ultimately have same: "?S g' 0 0 ?n' = ?S g 0 0 ?n'"
    unfolding subjects_from_def by simp
  have le: "?n \<le> ?n'" using assms(2) by simp
  have "?S g' c' off' ?n' = filter (\<lambda>s. (c', off') \<le> position s) (?S g 0 0 ?n')"
    unfolding same [symmetric] by (rule subjects_from_filter) simp_all
  also have "\<dots> = filter (\<lambda>s. (c', off') \<le> position s) (filter (\<lambda>s. (c, off) \<le> position s) (?S g 0 0 ?n'))"
    using order_trans [OF assms(4)] unfolding filter_filter by (intro filter_cong refl) blast
  also have "\<dots> = filter (\<lambda>s. (c', off') \<le> position s) (?S g c off ?n)"
    using le by (intro arg_cong [where f = "filter _"] subjects_from_filter [symmetric]) simp_all
  finally show "pending_subjects g' = filter (\<lambda>s. (c', off') \<le> position s) (pending_subjects g)"
    by (simp add: p p')
  show "set ss \<subseteq> set (pending_subjects g)"
    unfolding p r(3) using subjects_from_window by blast
  show "\<forall>s\<in>set (pending_subjects g). (c, off) \<le> position s"
    unfolding p subjects_from_filter [where c = c and off = off, OF order_refl order_refl] by simp
qed

text \<open>C29. With a reasoner that answers, detection drains: every cycle that finds a subject in its window and
  ends without an error leaves strictly fewer memories to examine, so repeated cycles come to an end.\<close>

theorem cycle_drains:
  assumes "detect_conflicts_once d k excluded t st = (st', Inr rep)" "healthy d" "dr_scanned_subjects rep \<noteq> 0"
  shows "length (pending_subjects (cd_engine st')) < length (pending_subjects (cd_engine st))"
  using assms(1)
proof (cases rule: detect_cases)
  case idle
  then show ?thesis using assms(3) by simp
next
  case (loop subjects c opens resolved w w' res)
  have ok: "res = Inr ()" using loop(13) by (cases res) auto
  obtain cs co where cur: "g_conflict_cursor (cd_engine st) = (cs, co)" by fastforce
  obtain x where x: "x \<in> set subjects" "cursor_of w' = (sj_seq x, sj_within x + 1)"
    using sweep_subjects_progress [OF loop(11)] assms(2) ok loop(2,8) by auto
  obtain ps where "emits ps w w'" using sweep_subjects_emits [OF loop(11)] by blast
  then obtain rows where rows: "rows_since w w' rows" "list_all2 proposal_row rows ps" by (auto simp: emits_def)
  have g': "cd_engine st' = (cd_engine st)\<lparr>g_log := g_log (cd_engine st) @ rows,
      g_conflict_cursor := (sj_seq x, sj_within x + 1)\<rparr>"
    using rows(1) x(2) loop(5,12) by (simp add: rows_since_def cursor_of_def)
  have sub: "unprocessed_conflict_subjects_since (cd_engine st) cs co CONFLICT_SCAN_BOUND = Inr subjects"
    using loop(1) cur by simp
  have "set subjects \<subseteq> set (pending_subjects (cd_engine st))" "\<forall>s\<in>set (pending_subjects (cd_engine st)). (cs, co) \<le> position s"
    using pending_after [OF sub refl rows(2) order_refl cur] by blast+
  then have xp: "x \<in> set (pending_subjects (cd_engine st))" "(cs, co) \<le> position x" using x(1) by auto
  have le: "(cs, co) \<le> (sj_seq x, sj_within x + 1)" using xp(2) by (auto simp: position_def less_eq_prod_def)
  have "\<not> (sj_seq x, sj_within x + 1) \<le> position x" by (simp add: position_def less_eq_prod_def)
  then show ?thesis
    unfolding pending_after(1) [OF sub g' rows(2) le cur]
    using length_filter_less [OF xp(1)] by simp
qed

end
