(* ===== verification/Cycles.thy ===== *)
theory Cycles
  imports Detect
begin

text \<open>
  Detection cycles on concrete logs, and the log on which they stop making progress: a scan window full of
  superseded captures holds no subject, and a window without a subject never moves the cursor.
\<close>

section \<open>A window without subjects\<close>

lemma conflict_rows_full:
  assumes "length (conflict_rows lg c n) = n"
  shows "conflict_rows (lg @ newer) c n = conflict_rows lg c n"
  using assms by (simp add: conflict_rows_def enumerate_append_eq min_def split: if_splits)

lemma payloads_mono:
  assumes "payloads xs = Inr a" "payloads (xs @ ys) = Inr b"
  shows "set a \<subseteq> set b"
  using assms by (auto simp: payloads_append rbind_eq_Inr)

lemma session_events_mono:
  assumes "session_events_ordered lg = Inr evs" "session_events_ordered (lg @ newer) = Inr evs'"
  shows "set evs \<subseteq> set evs'"
  using assms payloads_mono by (auto simp: session_events_ordered_def events_of_types_def)

lemma superseded_mono:
  "set evs \<subseteq> set evs' \<Longrightarrow> i \<in> sm_superseded (session_marks_of evs) \<Longrightarrow> i \<in> sm_superseded (session_marks_of evs')"
  by (auto simp: superseded_iff superseded_ids_iff)

lemma captured_superseded_not_current:
  "i \<in> sm_superseded (session_marks_of evs) \<Longrightarrow> i \<notin> cs_event_id ` set (fst (fold_sessions evs))"
proof
  assume i: "i \<in> sm_superseded (session_marks_of evs)" "i \<in> cs_event_id ` set (fst (fold_sessions evs))"
  then obtain cs where cs: "cs \<in> set (fst (fold_sessions evs))" "cs_event_id cs = i" by blast
  obtain ev where "session_entry (session_marks_of evs) ev = Some (cs_session_id cs, cs)"
    using cs(1) by (auto simp: fold_sessions_iff)
  moreover have "parse_session_content ev = Some cs \<Longrightarrow> cs_event_id cs = ev_id ev"
    by (auto simp: parse_session_content_def Let_def bind_eq_Some_conv)
  ultimately show False
    using i(1) cs(2) by (auto simp: session_entry_def split: if_splits option.splits)
qed

lemma spent_row_no_subject:
  assumes "r_type r = SESSION_CAPTURED_T \<and> r_id r \<in> sm_superseded (session_marks_of evs)
    \<or> seq = c \<and> 0 < off \<and> r_type r = MEMORY_T"
  shows "row_subjects g (fst (fold_sessions evs)) marks ids c off (seq, r) = []"
proof (cases "r_type r = MEMORY_T")
  case True
  then show ?thesis using assms by (simp add: row_subjects_def)
next
  case False
  then have "cs_event_id cs \<noteq> r_id r" if "cs \<in> set (fst (fold_sessions evs))" for cs
    using assms False captured_superseded_not_current [of "r_id r" evs] imageI [OF that, of cs_event_id] by metis
  then have "List.find (\<lambda>cs. cs_event_id cs = r_id r) (fst (fold_sessions evs)) = None"
    by (auto simp: find_None_iff)
  then show ?thesis using False by (simp add: row_subjects_def)
qed

text \<open>The scan window counts rows, not memories: when its sixty-four rows are captures that were superseded
  since (the first may be the note the cursor has just passed), detection is stuck. Whatever is appended
  later, a cycle changes nothing, the cursor included, and judges no pair.\<close>

lemma dead_captures_starve:
  assumes "session_events_ordered (g_log (cd_engine st)) = Inr evs"
    and "conflict_cursor (cd_engine st) = (c, off)"
    and "length (conflict_rows (g_log (cd_engine st)) c CONFLICT_SCAN_BOUND) = CONFLICT_SCAN_BOUND"
    and "\<And>seq r. (seq, r) \<in> set (conflict_rows (g_log (cd_engine st)) c CONFLICT_SCAN_BOUND) \<Longrightarrow>
      r_type r = SESSION_CAPTURED_T \<and> r_id r \<in> sm_superseded (session_marks_of evs)
      \<or> seq = c \<and> 0 < off \<and> r_type r = MEMORY_T"
    and "g_log (cd_engine later) = g_log (cd_engine st) @ newer" "conflict_cursor (cd_engine later) = (c, off)"
    and "detect_conflicts_once d k excluded t later = (st', r)"
  shows "st' = later \<and> (\<forall>rep. r = Inr rep \<longrightarrow> dr_scanned_subjects rep = 0)"
  using assms(7)
proof (cases rule: detect_cases)
  case idle
  then show ?thesis by blast
next
  case (loop subjects c' opens resolved w w' res)
  have u: "unprocessed_conflict_subjects_since (cd_engine later) c off CONFLICT_SCAN_BOUND = Inr subjects"
    using loop(1) assms(6) by (simp add: conflict_cursor_def)
  then obtain evs' ids where e: "session_events_ordered (g_log (cd_engine later)) = Inr evs'"
    "subjects = concat (map (row_subjects (cd_engine later) (fst (fold_sessions evs')) (snd (fold_sessions evs')) ids c off)
       (conflict_rows (g_log (cd_engine later)) c CONFLICT_SCAN_BOUND))"
    by (auto simp: unprocessed_conflict_subjects_since_def rbind_eq_Inr Let_def split_def)
  have sub: "set evs \<subseteq> set evs'"
    using session_events_mono [OF assms(1)] e(1) assms(5) by simp
  have "subjects = []"
    unfolding e(2) assms(5) conflict_rows_full [OF assms(3)] concat_eq_Nil_conv set_map ball_simps
    using assms(4) superseded_mono [OF sub] spent_row_no_subject by auto blast
  then show ?thesis using loop(2) by simp
qed

section \<open>Cycles on concrete logs\<close>

definition demo_detector :: "unit detector" where
  "demo_detector = \<lparr>dt_embed = \<lambda>_. Inr (), dt_model = ''m'', dt_vector = \<lambda>_ _. (),
     dt_knn = \<lambda>pts v n ef. map (\<lambda>(slot, _). (slot, Fin False 0)) pts,
     dt_reasoner = \<lambda>_ _. Inr (jobj [(''contradicts'', JBool True), (''winner'', JStr ''newer''),
       (''confidence'', JNum 90), (''why'', JStr [])]),
     dt_passage = \<lambda>_ _. None, dt_unix = \<lambda>_. None, dt_stamp = \<lambda>n. (''p'', ''t'')\<rparr>"

definition demo_two_notes :: conflict_state where
  "demo_two_notes = \<lparr>cd_engine = fst (set_conflict_detect_enabled demo_settings (''f'', ''t'') True
      (fst (remember demo_settings (''b'', ''t'') (\<lambda>_ _. Inr ()) ''ho'' demo_engine))), cd_errors = \<lambda>_. None\<rparr>"

definition demo_cycle :: "conflict_state \<times> (boss_error, detect_report) result" where
  "demo_cycle = detect_conflicts_once demo_detector demo_settings {} 5 demo_two_notes"

lemma demo_cycle:
  "demo_cycle = (fst demo_cycle, Inr (empty_report\<lparr>dr_scanned_subjects := 2, dr_judged := 1, dr_proposed := 1\<rparr>))"
proof -
  have "snd demo_cycle = Inr (empty_report\<lparr>dr_scanned_subjects := 2, dr_judged := 1, dr_proposed := 1\<rparr>)" by code_simp
  then show ?thesis by (simp add: prod_eq_iff)
qed

lemma demo_healthy: "healthy demo_detector"
proof -
  have "verdict_of_json (jobj [(''contradicts'', JBool True), (''winner'', JStr ''newer''),
       (''confidence'', JNum 90), (''why'', JStr [])]) = Some \<lparr>vt_contradicts = True, vt_winner = WinNewer, vt_confidence = 90, vt_why = []\<rparr>"
    by code_simp
  then show ?thesis by (simp add: healthy_def demo_detector_def judge_pair_def)
qed

theorem cycle_proposals_fresh_witness:
  "\<exists>rows ps. g_log (cd_engine (fst demo_cycle)) = g_log (cd_engine demo_two_notes) @ rows \<and> list_all2 proposal_row rows ps
     \<and> distinct (map pair_key_of ps) \<and> pair_key_of ` set ps \<inter> (open_keys [] \<union> {}) = {}
     \<and> length ps \<le> CONFLICT_JUDGE_PER_SWEEP \<and> length ([] :: open_conflict list) + length ps \<le> max CONFLICT_OPEN_CEILING (length ([] :: open_conflict list))"
proof -
  have "open_conflict_proposals (cd_engine demo_two_notes) = Inr []"
    "resolution_exclusions (g_log (cd_engine demo_two_notes)) = Inr {}" by code_simp+
  then show ?thesis
    using cycle_proposals_fresh [OF trans [OF demo_cycle_def [symmetric] demo_cycle]] by blast
qed

theorem cycle_drains_witness:
  "length (pending_subjects (cd_engine (fst demo_cycle))) < length (pending_subjects (cd_engine demo_two_notes))"
  using cycle_drains [OF trans [OF demo_cycle_def [symmetric] demo_cycle] demo_healthy]
  by (simp add: empty_report_def)

text \<open>A note that was judged, then one session captured sixty-five times, each capture but the last superseded
  by a later one.\<close>

definition demo_row :: "string \<Rightarrow> string \<Rightarrow> (string \<times> json) list \<Rightarrow> row" where
  "demo_row i ty c = \<lparr>r_id = i, r_ts = ''t'', r_type = ty,
     r_payload = Some ((draft_event ty (jobj c) None)\<lparr>ev_id := i\<rparr>), r_prev = [], r_hash = []\<rparr>"

definition demo_capture_id :: "nat \<Rightarrow> string" where
  "demo_capture_id n = CHR ''c'' # show_nat n"

definition demo_supersede_row :: "nat \<Rightarrow> row" where
  "demo_supersede_row n = demo_row (CHR ''x'' # show_nat n) SUPERSEDE_T [(''supersedes'', JStr (demo_capture_id n))]"

definition demo_recaptured :: log where
  "demo_recaptured = demo_row ''a'' MEMORY_T [] #
     map (\<lambda>n. demo_row (demo_capture_id n) SESSION_CAPTURED_T []) [0..<65] @ map demo_supersede_row [0..<64]"

definition demo_stuck :: conflict_state where
  "demo_stuck = \<lparr>cd_engine = demo_engine\<lparr>g_log := demo_recaptured, g_conflict_cursor := (1, 1)\<rparr>, cd_errors = \<lambda>_. None\<rparr>"

definition demo_stuck_later :: conflict_state where
  "demo_stuck_later = demo_stuck\<lparr>cd_engine := (cd_engine demo_stuck)\<lparr>g_log := demo_recaptured @
     [demo_row ''f'' CONFIG_T [(flag_key FConflictDetect, JBool True)],
      demo_row ''b'' MEMORY_T [(''text'', JStr ''hi'')], demo_row ''d'' MEMORY_T [(''text'', JStr ''ho'')]]\<rparr>\<rparr>"

lemma payloads_map: "(\<And>n. r_payload (f n) = Some (h n)) \<Longrightarrow> payloads (map f ns) = Inr (map h ns)"
  by (induction ns) simp_all

lemma enumerate_map_upt: "enumerate k (map f [0..<n]) = map (\<lambda>i. (k + i, f i)) [0..<n]"
  by (intro nth_equalityI) (simp_all add: nth_enumerate_eq)

lemma demo_recaptured_events:
  "session_events_ordered demo_recaptured = Inr
     (map (\<lambda>n. the (r_payload (demo_row (demo_capture_id n) SESSION_CAPTURED_T []))) [0..<65] @
      map (\<lambda>n. the (r_payload (demo_supersede_row n))) [0..<64])"
proof -
  have "payloads (map (\<lambda>n. demo_row (demo_capture_id n) SESSION_CAPTURED_T []) ns)
      = Inr (map (\<lambda>n. the (r_payload (demo_row (demo_capture_id n) SESSION_CAPTURED_T []))) ns)"
    "payloads (map demo_supersede_row ns) = Inr (map (\<lambda>n. the (r_payload (demo_supersede_row n))) ns)" for ns
    by (rule payloads_map, simp add: demo_row_def demo_supersede_row_def)+
  moreover have "r_type (demo_row i ty c) = ty" "r_type (demo_supersede_row n) = SUPERSEDE_T" for i ty c n
    by (simp_all add: demo_row_def demo_supersede_row_def)
  ultimately show ?thesis
    by (simp add: session_events_ordered_def events_of_types_def demo_recaptured_def filter_map o_def payloads_append del: upt_Suc upt_rec_numeral)
qed

lemma demo_recaptured_window:
  "conflict_rows demo_recaptured 1 CONFLICT_SCAN_BOUND = (1, demo_row ''a'' MEMORY_T []) #
     map (\<lambda>i. (2 + i, demo_row (demo_capture_id i) SESSION_CAPTURED_T [])) [0..<63]"
proof -
  have "r_type (demo_row i ty c) = ty" "r_type (demo_supersede_row n) = SUPERSEDE_T" for i ty c n
    by (simp_all add: demo_row_def demo_supersede_row_def)
  then show ?thesis
    by (simp add: conflict_rows_def demo_recaptured_def enumerate_append_eq enumerate_map_upt filter_map o_def take_map
      del: upt_Suc upt_rec_numeral)
qed

lemma demo_spent:
  assumes "i < 64"
  shows "demo_capture_id i \<in> sm_superseded (session_marks_of (projr (session_events_ordered demo_recaptured)))"
proof -
  have "\<exists>ev\<in>(\<lambda>n. the (r_payload (demo_supersede_row n))) ` {0..<64}.
      ev_type ev = SUPERSEDE_T \<and> get_str (ev_content ev) ''supersedes'' = Some (demo_capture_id i)"
    by (intro bexI [OF _ imageI [of i]]) (use assms in \<open>simp_all add: demo_supersede_row_def demo_row_def\<close>)
  then show ?thesis
    unfolding superseded_iff superseded_ids_iff demo_recaptured_events sum.sel set_append set_map set_upt by blast
qed

lemma dead_captures_starve_witness:
  "conflict_detect_enabled (g_log (cd_engine demo_stuck_later)) = Inr True
   \<and> fst (detect_conflicts_once demo_detector demo_settings {} 5 demo_stuck_later) = demo_stuck_later"
proof -
  let ?run = "detect_conflicts_once demo_detector demo_settings {} 5 demo_stuck_later"
  let ?evs = "projr (session_events_ordered demo_recaptured)"
  have log: "g_log (cd_engine demo_stuck) = demo_recaptured"
    "g_log (cd_engine demo_stuck_later) = demo_recaptured @
      [demo_row ''f'' CONFIG_T [(flag_key FConflictDetect, JBool True)],
       demo_row ''b'' MEMORY_T [(''text'', JStr ''hi'')], demo_row ''d'' MEMORY_T [(''text'', JStr ''ho'')]]"
    "conflict_cursor (cd_engine demo_stuck) = (1, 1)" "conflict_cursor (cd_engine demo_stuck_later) = (1, 1)"
    by (simp_all add: demo_stuck_def demo_stuck_later_def conflict_cursor_def)
  have spent: "r_type r = SESSION_CAPTURED_T \<and> r_id r \<in> sm_superseded (session_marks_of ?evs)
      \<or> seq = 1 \<and> 0 < (1 :: nat) \<and> r_type r = MEMORY_T"
    if "(seq, r) \<in> set (conflict_rows demo_recaptured 1 CONFLICT_SCAN_BOUND)" for seq r
    using that demo_spent unfolding demo_recaptured_window by (auto simp: demo_row_def)
  have "length (conflict_rows demo_recaptured 1 CONFLICT_SCAN_BOUND) = CONFLICT_SCAN_BOUND"
    unfolding demo_recaptured_window by simp
  moreover have "session_events_ordered demo_recaptured = Inr ?evs"
    unfolding demo_recaptured_events sum.sel ..
  ultimately have "fst ?run = demo_stuck_later"
    using dead_captures_starve [of demo_stuck ?evs 1 1, unfolded log(1,3), OF _ refl _ spent log(2,4) prod.collapse [symmetric]]
    by blast
  moreover have "conflict_detect_enabled (g_log (cd_engine demo_stuck_later)) = Inr True"
    unfolding log(2) by (simp add: conflict_detect_enabled_def closed_flag_def latest_config_value_def newest_config_def
      demo_row_def json_get_jobj)
  ultimately show ?thesis by simp
qed

end
