(* ===== verification/Retrieval.thy ===== *)
theory Retrieval
  imports VectorIndex Config "HOL-Library.Word"
begin

text \<open>
  The vector and keyword indexes of \<open>log.rs\<close>: deriving vectors, the rebuild of the indexes from the
  log, and the searches.  A rebuild may stop at any statement of the store.  The embedder is an argument; so is the
  full-text engine, which from the indexed rows and an escaped query gives the matching rows with
  their scores, best first.
\<close>

section \<open>State\<close>

abbreviation "DQ \<equiv> CHR 0x22"

record 'v embedder =
  em_embed :: "string list \<Rightarrow> (boss_error, 'v list) result"
  em_model :: string
  em_dim :: nat

record 'v vector_row =
  vr_id :: string
  vr_model :: string
  vr_dim :: nat
  vr_vec :: 'v

record 'v retrieval =
  rt_vectors :: "'v vector_row list"
  rt_entity_vectors :: "'v vector_row list"
  rt_index :: "'v hnsw_index option"
  rt_entity_index :: "'v hnsw_index option"
  rt_fts :: "(nat \<times> string) list"
  rt_fts_map :: "(nat \<times> string) list"

text \<open>The blob of a vector: its components as little-endian bytes.\<close>

definition vec_to_blob :: "32 word list \<Rightarrow> bytes" where
  "vec_to_blob xs = concat (map (\<lambda>x. map (\<lambda>i. char_of (unat (drop_bit (8 * i) x) mod 256)) [0..<4]) xs)"

fun chunks_exact4 :: "bytes \<Rightarrow> 32 word list" where
  "chunks_exact4 (a # b # c # d # rest) =
     word_of_nat (of_char a + 256 * of_char b + 65536 * of_char c + 16777216 * of_char d) # chunks_exact4 rest"
| "chunks_exact4 _ = []"

definition blob_to_vec :: "bytes \<Rightarrow> (boss_error, 32 word list) result" where
  "blob_to_vec blob = (if length blob mod 4 \<noteq> 0 then Inl StoreErr else Inr (chunks_exact4 blob))"

section \<open>Deriving vectors\<close>

definition EMBEDDABLE_EVENT_TYPES :: "string list" where
  "EMBEDDABLE_EVENT_TYPES = [MEMORY_T, PAGE_T, FILE_INGESTED_T, SESSION_CAPTURED_T]"

definition embeddable_text :: "event \<Rightarrow> string option" where
  "embeddable_text ev = (if ev_type ev \<notin> set EMBEDDABLE_EVENT_TYPES then None else get_str (ev_content ev) ''text'')"

definition embed_one :: "'v embedder \<Rightarrow> string \<Rightarrow> (boss_error, 'v) result" where
  "embed_one em text = rbind (em_embed em [text]) (\<lambda>batch.
     if length batch \<noteq> 1 then Inl EmbedErr else Inr (hd batch))"

definition upsert_vector :: "'v embedder \<Rightarrow> string \<Rightarrow> 'v \<Rightarrow> 'v vector_row list \<Rightarrow> 'v vector_row list" where
  "upsert_vector em i v rows = filter (\<lambda>r. \<not> (vr_id r = i \<and> vr_model r = em_model em)) rows
     @ [\<lparr>vr_id = i, vr_model = em_model em, vr_dim = em_dim em, vr_vec = v\<rparr>]"

definition derive_vector :: "'v embedder \<Rightarrow> event \<Rightarrow> 'v retrieval \<Rightarrow> 'v retrieval \<times> (boss_error, bool) result" where
  "derive_vector em ev rt =
     (case embeddable_text ev of None \<Rightarrow> (rt, Inr False)
      | Some text \<Rightarrow> (case embed_one em text of Inl e \<Rightarrow> (rt, Inl e)
          | Inr v \<Rightarrow> (rt\<lparr>rt_vectors := upsert_vector em (ev_id ev) v (rt_vectors rt)\<rparr>, Inr True)))"

definition embed_and_upsert :: "'v embedder \<Rightarrow> event \<Rightarrow> 'v retrieval \<Rightarrow> 'v retrieval \<times> (boss_error, bool) result" where
  "embed_and_upsert em ev rt =
     (case embeddable_text ev of None \<Rightarrow> (rt, Inr False)
      | Some text \<Rightarrow> (case embed_one em text of Inl e \<Rightarrow> (rt, Inl e)
          | Inr v \<Rightarrow> (rt\<lparr>rt_vectors := upsert_vector em (ev_id ev) v (rt_vectors rt)\<rparr>, Inr True)))"

definition has_vector :: "string \<Rightarrow> string \<Rightarrow> 'v vector_row list \<Rightarrow> bool" where
  "has_vector m i rows \<longleftrightarrow> list_ex (\<lambda>r. vr_id r = i \<and> vr_model r = m) rows"

definition collect_pending :: "string \<Rightarrow> log \<Rightarrow> 'v retrieval \<Rightarrow> (boss_error, event list) result" where
  "collect_pending m lg rt =
     rbind (embed_excluded_event_ids lg) (\<lambda>excluded.
     rbind (payloads (filter (\<lambda>r. r_type r \<in> set EMBEDDABLE_EVENT_TYPES \<and> \<not> has_vector m (r_id r) (rt_vectors rt)) lg))
       (\<lambda>evs. Inr (filter (\<lambda>ev. ev_id ev \<notin> excluded) evs)))"

fun rederive_loop :: "'v embedder \<Rightarrow> event list \<Rightarrow> nat \<Rightarrow> 'v retrieval \<Rightarrow> 'v retrieval \<times> nat" where
  "rederive_loop em [] n rt = (rt, n)"
| "rederive_loop em (ev # evs) n rt =
     (case embed_and_upsert em ev rt of
        (rt', Inr True) \<Rightarrow> rederive_loop em evs (n + 1) rt'
      | (rt', _) \<Rightarrow> rederive_loop em evs n rt')"

definition rederive_pending :: "'v embedder \<Rightarrow> log \<Rightarrow> 'v retrieval \<Rightarrow> 'v retrieval \<times> (boss_error, nat) result" where
  "rederive_pending em lg rt =
     (case collect_pending (em_model em) lg rt of Inl e \<Rightarrow> (rt, Inl e)
      | Inr pending \<Rightarrow> (case rederive_loop em pending 0 rt of (rt', n) \<Rightarrow> (rt', Inr n)))"

section \<open>The indexes\<close>

definition vectors_for_model :: "string \<Rightarrow> 'v retrieval \<Rightarrow> (string \<times> 'v) list" where
  "vectors_for_model m rt = map (\<lambda>r. (vr_id r, vr_vec r)) (sort_key vr_id (filter (\<lambda>r. vr_model r = m) (rt_vectors rt)))"

definition entity_vectors_for_model :: "string \<Rightarrow> 'v retrieval \<Rightarrow> (string \<times> 'v) list" where
  "entity_vectors_for_model m rt =
     map (\<lambda>r. (vr_id r, vr_vec r)) (sort_key vr_id (filter (\<lambda>r. vr_model r = m) (rt_entity_vectors rt)))"

definition build_index :: "(string \<times> 'v) list \<Rightarrow> 'v hnsw_index" where
  "build_index rows = fold (\<lambda>(i, v). index_add i v) rows empty_index"

text \<open>The rowid of a new row of the full-text table is one more than the largest.\<close>

definition next_rowid :: "(nat \<times> string) list \<Rightarrow> nat" where
  "next_rowid rows = fold max (map fst rows) 0 + 1"

text \<open>The statements of the store that a rebuild or a collection depends on, for the ones that fail.\<close>

datatype db_call = VectorRead | TextRead | KeywordWipe | MapWipe | KeywordInsert string | EntityRead
  | StaleDelete | CountRead

definition keyword_add :: "db_call list \<Rightarrow> string \<Rightarrow> string \<Rightarrow> 'v retrieval \<Rightarrow> 'v retrieval \<times> (boss_error, unit) result" where
  "keyword_add fl i text rt =
     (if KeywordInsert i \<in> set fl then (rt, Inl StoreErr)
      else if i \<in> snd ` set (rt_fts_map rt) then (rt, Inr ())
      else let n = next_rowid (rt_fts rt) in
        (rt\<lparr>rt_fts := rt_fts rt @ [(n, text)], rt_fts_map := rt_fts_map rt @ [(n, i)]\<rparr>, Inr ()))"

definition collect_embeddable_events_ordered :: "log \<Rightarrow> (boss_error, (string \<times> string) list) result" where
  "collect_embeddable_events_ordered lg =
     (let rows = filter (\<lambda>r. r_type r \<in> set EMBEDDABLE_EVENT_TYPES) lg in
      rbind (payloads rows) (\<lambda>evs. Inr (List.map_filter
        (\<lambda>(r, ev). map_option (Pair (r_id r)) (embeddable_text ev)) (zip rows evs))))"

fun keyword_loop :: "db_call list \<Rightarrow> (string \<times> string) list \<Rightarrow> 'v retrieval \<Rightarrow> 'v retrieval \<times> (boss_error, unit) result" where
  "keyword_loop fl [] rt = (rt, Inr ())"
| "keyword_loop fl ((i, text) # evs) rt = (case keyword_add fl i text rt of
     (rt', Inl e) \<Rightarrow> (rt', Inl e) | (rt', Inr _) \<Rightarrow> keyword_loop fl evs rt')"

text \<open>The two statements that wipe the keyword index are not one transaction.\<close>

definition rebuild_indexes :: "db_call list \<Rightarrow> 'v embedder \<Rightarrow> log \<Rightarrow> 'v retrieval \<Rightarrow> 'v retrieval \<times> (boss_error, unit) result" where
  "rebuild_indexes fl em lg rt =
     (if VectorRead \<in> set fl then (rt, Inl StoreErr)
      else let rt1 = rt\<lparr>rt_index := Some (build_index (vectors_for_model (em_model em) rt))\<rparr> in
      case (if TextRead \<in> set fl then Inl StoreErr else collect_embeddable_events_ordered lg) of
        Inl e \<Rightarrow> (rt1, Inl e)
      | Inr evs \<Rightarrow>
        if KeywordWipe \<in> set fl then (rt1, Inl StoreErr)
        else if MapWipe \<in> set fl then (rt1\<lparr>rt_fts := []\<rparr>, Inl StoreErr)
        else keyword_loop fl evs (rt1\<lparr>rt_fts := [], rt_fts_map := []\<rparr>))"

definition rebuild_entity_index :: "db_call list \<Rightarrow> 'v embedder \<Rightarrow> 'v retrieval \<Rightarrow> 'v retrieval \<times> (boss_error, unit) result" where
  "rebuild_entity_index fl em rt =
     (if EntityRead \<in> set fl then (rt, Inl StoreErr)
      else (rt\<lparr>rt_entity_index := Some (build_index (entity_vectors_for_model (em_model em) rt))\<rparr>, Inr ()))"

section \<open>Searching\<close>

definition vector_search :: "'v knn \<Rightarrow> 'v retrieval \<Rightarrow> 'v \<Rightarrow> nat \<Rightarrow> (boss_error, (string \<times> float) list) result" where
  "vector_search knn rt qv k = (case rt_index rt of
     None \<Rightarrow> Inl (InvalidInput ''vector index not built'') | Some ix \<Rightarrow> Inr (index_search knn ix qv k))"

definition vector_index_len :: "'v retrieval \<Rightarrow> nat" where
  "vector_index_len rt = (case rt_index rt of None \<Rightarrow> 0 | Some ix \<Rightarrow> index_len ix)"

definition double_quotes :: "string \<Rightarrow> string" where
  "double_quotes term = concat (map (\<lambda>c. if c = DQ then [DQ, DQ] else [c]) term)"

fun join :: "string \<Rightarrow> string list \<Rightarrow> string" where
  "join sep [] = []"
| "join sep [x] = x"
| "join sep (x # y # ys) = x @ sep @ join sep (y # ys)"

definition escape_fts_query :: "string \<Rightarrow> string" where
  "escape_fts_query raw =
     (let terms = map (\<lambda>t. [DQ] @ double_quotes t @ [DQ]) (split_whitespace raw) in
      if terms = [] then [DQ, DQ] else join '' OR '' terms)"

type_synonym bm25 = "(nat \<times> string) list \<Rightarrow> string \<Rightarrow> (boss_error, (nat \<times> float) list) result"

definition keyword_search :: "bm25 \<Rightarrow> 'v retrieval \<Rightarrow> string \<Rightarrow> nat \<Rightarrow> (boss_error, (string \<times> float) list) result" where
  "keyword_search bm rt query k =
     (if is_blank query then Inr []
      else rbind (bm (rt_fts rt) (escape_fts_query query)) (\<lambda>rows.
        Inr (take k (List.map_filter (\<lambda>(n, s). map_option (\<lambda>i. (i, to_format F32 s)) (map_of (rt_fts_map rt) n)) rows))))"

section \<open>Blobs round-trip\<close>

lemma bytes_value:
  assumes "n < 4294967296"
  shows "n mod 256 + 256 * (n div 256 mod 256) + 65536 * (n div 65536 mod 256) + 16777216 * (n div 16777216 mod 256) = (n :: nat)"
proof -
  have split: "a + 256 * b + 65536 * c + 16777216 * l = n"
    if "a + 256 * m = n" "b + 256 * k = m" "c + 256 * l = k" for a b c l m k :: nat
    using that by linarith
  have "n div 65536 = n div 256 div 256" "n div 16777216 = n div 256 div 256 div 256"
    using div_mult2_eq [of n 256 256] div_mult2_eq [of n 65536 256] by simp_all
  moreover have "n div 16777216 < 256" using assms by (simp add: less_mult_imp_div_less)
  ultimately show ?thesis
    using split [OF mod_mult_div_eq [of n 256] mod_mult_div_eq [of "n div 256" 256] mod_mult_div_eq [of "n div 256 div 256" 256]]
    by (metis mod_less)
qed

lemma blob_roundtrip: "blob_to_vec (vec_to_blob xs) = Inr xs"
proof -
  have "chunks_exact4 (vec_to_blob xs) = xs"
  proof (induction xs)
    case Nil
    then show ?case by (simp add: vec_to_blob_def)
  next
    case (Cons x xs)
    let ?n = "unat x"
    have "?n < 4294967296" using unsigned_less [of x] by simp
    then have "word_of_nat (?n mod 256 + 256 * (?n div 256 mod 256) + 65536 * (?n div 65536 mod 256)
        + 16777216 * (?n div 16777216 mod 256)) = x"
      by (simp only: bytes_value) simp
    moreover have "vec_to_blob (x # xs) = char_of (?n mod 256) # char_of (?n div 256 mod 256)
        # char_of (?n div 65536 mod 256) # char_of (?n div 16777216 mod 256) # vec_to_blob xs"
      by (simp add: vec_to_blob_def upt_rec unat_drop_bit_eq) (simp add: drop_bit_eq_div)
    ultimately show ?case using Cons by simp
  qed
  moreover have "length (vec_to_blob xs) mod 4 = 0"
    by (induction xs) (simp_all add: vec_to_blob_def)
  ultimately show ?thesis by (simp add: blob_to_vec_def)
qed

end
