(* ===== verification/Reembed.thy ===== *)
theory Reembed
  imports Retrieval
begin

text \<open>
  Changing the embedding model: \<open>reembed_migration\<close>, and the crash-safe pair \<open>reembed_prepare\<close> (writes the new
  vectors beside the old ones) and \<open>reembed_finalize_gc\<close> (drops the old ones and rebuilds the indexes).
\<close>

section \<open>Entity vectors\<close>

definition derive_entity_vector :: "'v embedder \<Rightarrow> string \<Rightarrow> string \<Rightarrow> 'v retrieval \<Rightarrow> 'v retrieval \<times> (boss_error, unit) result" where
  "derive_entity_vector em i text rt = (case embed_one em text of Inl e \<Rightarrow> (rt, Inl e)
     | Inr v \<Rightarrow> (rt\<lparr>rt_entity_vectors := upsert_vector em i v (rt_entity_vectors rt)\<rparr>, Inr ()))"

fun entity_loop :: "'v embedder \<Rightarrow> (string \<times> string) list \<Rightarrow> nat \<Rightarrow> 'v retrieval \<Rightarrow> 'v retrieval \<times> (boss_error, nat) result" where
  "entity_loop em [] n rt = (rt, Inr n)"
| "entity_loop em ((i, text) # rest) n rt = (case derive_entity_vector em i text rt of
     (rt', Inl e) \<Rightarrow> (rt', Inl e) | (rt', Inr _) \<Rightarrow> entity_loop em rest (n + 1) rt')"

definition rederive_entity_vectors_pending :: "'v embedder \<Rightarrow> engine \<Rightarrow> 'v retrieval \<Rightarrow> 'v retrieval \<times> (boss_error, nat) result" where
  "rederive_entity_vectors_pending em g rt =
     entity_loop em (map (\<lambda>e. (entity_id e, label e)) (sort_key entity_id
       (filter (\<lambda>e. \<not> has_vector (em_model em) (entity_id e) (rt_entity_vectors rt)) (t_entities (g_tables g))))) 0 rt"

section \<open>The one-step migration\<close>

record reembed_stats =
  re_reembedded :: nat
  re_gc_removed :: nat

definition reembed_migration :: "db_call list \<Rightarrow> settings \<Rightarrow> stamp \<Rightarrow> 'v embedder \<Rightarrow> engine \<times> 'v retrieval
    \<Rightarrow> (engine \<times> 'v retrieval) \<times> (boss_error, reembed_stats) result" where
  "reembed_migration fl k st em = (\<lambda>(g, rt).
     case active_model (g_log g) of Inl e \<Rightarrow> ((g, rt), Inl e)
     | Inr cur \<Rightarrow>
       let ev = (draft_event CONFIG_T (jobj [(''active_model_id'', JStr (em_model em)), (''dim'', JNum (int (em_dim em) mod 2 ^ 32)),
             (''schema_version'', JNum (case cur of None \<Rightarrow> SCHEMA_VERSION | Some a \<Rightarrow> am_schema_version a))]) None)
             \<lparr>ev_did := ''did:wba:bossclaw-migration''\<rparr> in
       (case append_to k st ev g of (g', Inl e) \<Rightarrow> ((g', rt), Inl e)
        | (g', Inr _) \<Rightarrow> (case rederive_pending em (g_log g') rt of (rt', Inl e) \<Rightarrow> ((g', rt'), Inl e)
          | (rt', Inr n) \<Rightarrow>
            if StaleDelete \<in> set fl then ((g', rt'), Inl StoreErr)
            else let kept = filter (\<lambda>r. vr_model r = em_model em) (rt_vectors rt') in
            (case rebuild_indexes fl em (g_log g') (rt'\<lparr>rt_vectors := kept\<rparr>) of (rt'', Inl e) \<Rightarrow> ((g', rt''), Inl e)
             | (rt'', Inr _) \<Rightarrow> ((g', rt''), if CountRead \<in> set fl then Inl StoreErr
                 else Inr \<lparr>re_reembedded = n, re_gc_removed = length (rt_vectors rt') - length kept\<rparr>)))))"

section \<open>The two-stage migration\<close>

definition count_missing_vectors :: "string \<Rightarrow> (string \<times> string) list \<Rightarrow> 'v retrieval \<Rightarrow> nat" where
  "count_missing_vectors m embeddable rt = length (filter (\<lambda>(i, _). \<not> has_vector m i (rt_vectors rt)) embeddable)"

text \<open>The progress reports of the loop, in order.\<close>

fun prepare_loop :: "'v embedder \<Rightarrow> event list \<Rightarrow> nat \<Rightarrow> nat \<Rightarrow> 'v retrieval \<Rightarrow> 'v retrieval \<times> (nat \<times> nat) list" where
  "prepare_loop em [] d size_all rt = (rt, [])"
| "prepare_loop em (ev # evs) d size_all rt =
     (case embed_and_upsert em ev rt of
        (rt', Inr True) \<Rightarrow> (case prepare_loop em evs (d + 1) size_all rt' of (rt'', ps) \<Rightarrow> (rt'', (d + 1, size_all) # ps))
      | (rt', _) \<Rightarrow> prepare_loop em evs d size_all rt')"

definition reembed_prepare :: "settings \<Rightarrow> 'v embedder \<Rightarrow> engine \<times> 'v retrieval
    \<Rightarrow> (engine \<times> 'v retrieval) \<times> (nat \<times> nat) list \<times> (boss_error, unit) result" where
  "reembed_prepare k em = (\<lambda>(g, rt).
     case rbind (embed_excluded_event_ids (g_log g)) (\<lambda>ex.
          rbind (collect_embeddable_events_ordered (g_log g)) (\<lambda>all. Inr (filter (\<lambda>(i, _). i \<notin> ex) all))) of
       Inl e \<Rightarrow> ((g, rt), [], Inl e)
     | Inr embeddable \<Rightarrow>
       let size_all = length embeddable in
       (case collect_pending (em_model em) (g_log g) rt of Inl e \<Rightarrow> ((g, rt), [(0, size_all)], Inl e)
        | Inr pending \<Rightarrow> (case prepare_loop em pending (size_all - length pending) size_all rt of (rt1, ps) \<Rightarrow>
          let progress = (0, size_all) # ps in
          (case rebuild_graph (k_fmt k) (g_log g) of Inl e \<Rightarrow> ((g, rt1), progress, Inl e)
           | Inr t \<Rightarrow> let g1 = g\<lparr>g_tables := t\<rparr> in
             (case rederive_entity_vectors_pending em g1 rt1 of (rt2, Inl e) \<Rightarrow> ((g1, rt2), progress, Inl e)
              | (rt2, Inr _) \<Rightarrow> ((g1, rt2), progress,
                  if count_missing_vectors (em_model em) embeddable rt2 > 0 then Inl StoreErr else Inr ()))))))"

text \<open>The two deletions are one transaction: all or nothing.\<close>

definition gc_stale_vectors :: "db_call list \<Rightarrow> string \<Rightarrow> 'v retrieval \<Rightarrow> 'v retrieval \<times> (boss_error, nat) result" where
  "gc_stale_vectors fl m rt =
     (if StaleDelete \<in> set fl then (rt, Inl StoreErr)
      else (rt\<lparr>rt_vectors := filter (\<lambda>r. vr_model r = m) (rt_vectors rt),
         rt_entity_vectors := filter (\<lambda>r. vr_model r = m) (rt_entity_vectors rt)\<rparr>,
       Inr (length (filter (\<lambda>r. vr_model r \<noteq> m) (rt_vectors rt)))))"

definition reembed_finalize_gc ::
    "db_call list \<Rightarrow> 'v embedder \<Rightarrow> log \<Rightarrow> 'v retrieval \<Rightarrow> 'v retrieval \<times> (boss_error, reembed_stats) result" where
  "reembed_finalize_gc fl em lg rt =
     (case gc_stale_vectors fl (em_model em) rt of (rt1, Inl e) \<Rightarrow> (rt1, Inl e)
      | (rt1, Inr removed) \<Rightarrow> (case rebuild_indexes fl em lg rt1 of (rt2, Inl e) \<Rightarrow> (rt2, Inl e)
         | (rt2, Inr _) \<Rightarrow> (case rebuild_entity_index fl em rt2 of (rt3, Inl e) \<Rightarrow> (rt3, Inl e)
            | (rt3, Inr _) \<Rightarrow> (rt3, if CountRead \<in> set fl then Inl StoreErr
                else Inr \<lparr>re_reembedded = length (vectors_for_model (em_model em) rt3), re_gc_removed = removed\<rparr>))))"

section \<open>What the first stage leaves alone\<close>

text \<open>The rows of other models, the indexes, and the rows that exist.\<close>

definition keeps :: "string \<Rightarrow> 'v retrieval \<Rightarrow> 'v retrieval \<Rightarrow> bool" where
  "keeps m rt rt' \<longleftrightarrow>
     filter (\<lambda>r. vr_model r \<noteq> m) (rt_vectors rt') = filter (\<lambda>r. vr_model r \<noteq> m) (rt_vectors rt)
   \<and> filter (\<lambda>r. vr_model r \<noteq> m) (rt_entity_vectors rt') = filter (\<lambda>r. vr_model r \<noteq> m) (rt_entity_vectors rt)
   \<and> rt_index rt' = rt_index rt \<and> rt_entity_index rt' = rt_entity_index rt
   \<and> rt_fts rt' = rt_fts rt \<and> rt_fts_map rt' = rt_fts_map rt
   \<and> (\<forall>i. has_vector m i (rt_vectors rt) \<longrightarrow> has_vector m i (rt_vectors rt'))"

lemma keeps_refl [simp]: "keeps m rt rt"
  by (simp add: keeps_def)

lemma keeps_trans: "keeps m a b \<Longrightarrow> keeps m b c \<Longrightarrow> keeps m a c"
  by (simp add: keeps_def)

lemma has_vector_upsert:
  "has_vector m i (upsert_vector em j v rows) \<longleftrightarrow> m = em_model em \<and> i = j \<or> has_vector m i rows"
  by (auto simp: has_vector_def upsert_vector_def list_ex_iff)

lemma upsert_other: "filter (\<lambda>r. vr_model r \<noteq> em_model em) (upsert_vector em i v rows) = filter (\<lambda>r. vr_model r \<noteq> em_model em) rows"
  by (auto simp: upsert_vector_def intro: filter_cong)

lemma embed_and_upsert_keeps: "embed_and_upsert em ev rt = (rt', r) \<Longrightarrow> keeps (em_model em) rt rt'"
  by (auto simp: embed_and_upsert_def keeps_def upsert_other has_vector_upsert split: option.splits sum.splits)

lemma prepare_loop_keeps: "keeps (em_model em) rt (fst (prepare_loop em evs d n rt))"
proof (induction em evs d n rt rule: prepare_loop.induct)
  case (2 em ev evs d n rt)
  obtain rt1 r where r: "embed_and_upsert em ev rt = (rt1, r)" by fastforce
  have "keeps (em_model em) rt1 (fst (prepare_loop em evs d n rt1))" if "r \<noteq> Inr True"
  proof (cases r)
    case (Inl e)
    show ?thesis by (rule 2(1) [OF r [symmetric] Inl])
  next
    case (Inr b)
    then show ?thesis using 2(3) [OF r [symmetric] Inr] that by simp
  qed
  moreover have "keeps (em_model em) rt1 (fst (prepare_loop em evs (d + 1) n rt1))" if "r = Inr True"
    using 2(2) [OF r [symmetric]] that by blast
  ultimately show ?case
    using keeps_trans [OF embed_and_upsert_keeps [OF r]] r
    by (auto split: sum.splits bool.splits prod.splits)
qed simp

lemma derive_entity_keeps:
  "derive_entity_vector em i t rt = (rt', r) \<Longrightarrow> keeps (em_model em) rt rt' \<and> rt_vectors rt' = rt_vectors rt"
  by (auto simp: derive_entity_vector_def keeps_def upsert_other split: sum.splits)

lemma entity_loop_keeps: "entity_loop em xs n rt = (rt', r) \<Longrightarrow> keeps (em_model em) rt rt' \<and> rt_vectors rt' = rt_vectors rt"
proof (induction em xs n rt arbitrary: rt' r rule: entity_loop.induct)
  case (2 em i t xs n rt)
  obtain rt1 q where q: "derive_entity_vector em i t rt = (rt1, q)" by fastforce
  show ?case
  proof (cases q)
    case (Inl e)
    then show ?thesis using 2(2) derive_entity_keeps [OF q] q by simp
  next
    case (Inr u)
    have "keeps (em_model em) rt1 rt' \<and> rt_vectors rt' = rt_vectors rt1"
      using 2(1) [OF q [symmetric] Inr] 2(2) q Inr by simp
    then show ?thesis using derive_entity_keeps [OF q] keeps_trans by metis
  qed
qed simp


text \<open>The run of the first stage: either it stops before the projections are rebuilt, or it goes through.\<close>

lemma prepare_cases:
  assumes "reembed_prepare k em (g, rt) = ((g', rt'), progress, r)"
  obtains (early) pending d n where "g' = g" "rt' = rt \<or> rt' = fst (prepare_loop em pending d n rt)" "isl r"
  | (ran) ex everything pending d n t q where
      "embed_excluded_event_ids (g_log g) = Inr ex" "collect_embeddable_events_ordered (g_log g) = Inr everything"
      "collect_pending (em_model em) (g_log g) rt = Inr pending"
      "rebuild_graph (k_fmt k) (g_log g) = Inr t" "g' = g\<lparr>g_tables := t\<rparr>"
      "rederive_entity_vectors_pending em g' (fst (prepare_loop em pending d n rt)) = (rt', q)"
      "r = (case q of Inl e \<Rightarrow> Inl e | Inr _ \<Rightarrow>
         if count_missing_vectors (em_model em) (filter (\<lambda>(i, _). i \<notin> ex) everything) rt' > 0 then Inl StoreErr else Inr ())"
proof (cases "embed_excluded_event_ids (g_log g)")
  case (Inl e)
  then have "g' = g" "rt' = rt" "isl r" using assms by (auto simp: reembed_prepare_def)
  then show ?thesis using early by blast
next
  case ex: (Inr ex)
  show ?thesis
  proof (cases "collect_embeddable_events_ordered (g_log g)")
    case (Inl e)
    then have "g' = g" "rt' = rt" "isl r" using assms ex by (auto simp: reembed_prepare_def)
    then show ?thesis using early by blast
  next
    case every: (Inr everything)
    let ?n = "length (filter (\<lambda>(i, _). i \<notin> ex) everything)"
    show ?thesis
    proof (cases "collect_pending (em_model em) (g_log g) rt")
      case (Inl e)
      then have "g' = g" "rt' = rt" "isl r" using assms ex every by (auto simp: reembed_prepare_def Let_def)
      then show ?thesis using early by blast
    next
      case pend: (Inr pending)
      obtain rt1 ps where l: "prepare_loop em pending (?n - length pending) ?n rt = (rt1, ps)" by fastforce
      note run = assms [unfolded reembed_prepare_def prod.case ex every rbind_simps sum.case Let_def pend l]
      show ?thesis
      proof (cases "rebuild_graph (k_fmt k) (g_log g)")
        case (Inl e)
        then have "g' = g" "rt' = fst (prepare_loop em pending (?n - length pending) ?n rt)" "isl r" using run l by auto
        then show ?thesis using early by blast
      next
        case graph: (Inr t)
        obtain rt2 q where q: "rederive_entity_vectors_pending em (g\<lparr>g_tables := t\<rparr>) rt1 = (rt2, q)" by fastforce
        have "g' = g\<lparr>g_tables := t\<rparr>" "rt' = rt2" "r = (case q of Inl e \<Rightarrow> Inl e | Inr _ \<Rightarrow>
          if count_missing_vectors (em_model em) (filter (\<lambda>(i, _). i \<notin> ex) everything) rt2 > 0 then Inl StoreErr else Inr ())"
          using run graph q by (auto split: sum.splits)
        then show ?thesis
          using ran [OF ex every pend graph] q l by (metis fst_conv)
      qed
    qed
  qed
qed


section \<open>Both stages\<close>


lemma index_add_ids: "fst ` set (hx_id_to_slot (index_add i v ix)) = insert i (fst ` set (hx_id_to_slot ix))"
  by (auto simp: index_add_def Let_def map_of_eq_None_iff)

lemma build_index_ids: "fst ` set (hx_id_to_slot (build_index rows)) = fst ` set rows"
proof -
  have "fst ` set (hx_id_to_slot (fold (\<lambda>(i, v). index_add i v) rows ix)) = fst ` set (hx_id_to_slot ix) \<union> fst ` set rows" for ix :: "'a hnsw_index"
  proof (induction rows arbitrary: ix)
    case (Cons p rows)
    then show ?case using Cons [of "index_add (fst p) (snd p) ix"] index_add_ids [of "fst p" "snd p" ix] by (simp add: split_def)
  qed simp
  then show ?thesis by (simp add: build_index_def empty_index_def)
qed

lemma vectors_for_model_ids:
  "fst ` set (vectors_for_model m rt) = {i. has_vector m i (rt_vectors rt)}"
  "fst ` set (entity_vectors_for_model m rt) = {i. has_vector m i (rt_entity_vectors rt)}"
  by (force simp: vectors_for_model_def entity_vectors_for_model_def has_vector_def list_ex_iff)+

lemma keyword_add_props:
  assumes "keyword_add fl i t rt = (rt', r)"
  shows "rt_vectors rt' = rt_vectors rt \<and> rt_entity_vectors rt' = rt_entity_vectors rt \<and> rt_index rt' = rt_index rt"
    and "r = Inr () \<Longrightarrow> snd ` set (rt_fts_map rt') = insert i (snd ` set (rt_fts_map rt))"
    and "fl = [] \<Longrightarrow> r = Inr ()"
  using assms by (auto simp: keyword_add_def Let_def split: if_splits)

lemma keyword_loop_props:
  assumes "keyword_loop fl evs rt = (rt', r)"
  shows "rt_vectors rt' = rt_vectors rt \<and> rt_entity_vectors rt' = rt_entity_vectors rt \<and> rt_index rt' = rt_index rt"
    and "r = Inr () \<Longrightarrow> snd ` set (rt_fts_map rt') = snd ` set (rt_fts_map rt) \<union> fst ` set evs"
    and "fl = [] \<Longrightarrow> r = Inr ()"
proof -
  have "(rt_vectors rt' = rt_vectors rt \<and> rt_entity_vectors rt' = rt_entity_vectors rt \<and> rt_index rt' = rt_index rt)
    \<and> (r = Inr () \<longrightarrow> snd ` set (rt_fts_map rt') = snd ` set (rt_fts_map rt) \<union> fst ` set evs) \<and> (fl = [] \<longrightarrow> r = Inr ())"
    using assms
  proof (induction fl evs rt rule: keyword_loop.induct)
    case (2 fl i t evs rt)
    obtain rt1 q where q: "keyword_add fl i t rt = (rt1, q)" by fastforce
    show ?case
    proof (cases q)
      case (Inl e)
      then show ?thesis using 2(2) q keyword_add_props [OF q] by auto
    next
      case (Inr u)
      have "keyword_loop fl evs rt1 = (rt', r)" using 2(2) q Inr by simp
      from 2(1) [OF q [symmetric] Inr this] show ?thesis
        using keyword_add_props [OF q] Inr by auto
    qed
  qed simp
  then show "rt_vectors rt' = rt_vectors rt \<and> rt_entity_vectors rt' = rt_entity_vectors rt \<and> rt_index rt' = rt_index rt"
    "r = Inr () \<Longrightarrow> snd ` set (rt_fts_map rt') = snd ` set (rt_fts_map rt) \<union> fst ` set evs"
    "fl = [] \<Longrightarrow> r = Inr ()" by blast+
qed

lemma rebuild_indexes_props:
  assumes "rebuild_indexes fl em lg rt = (rt', r)" "collect_embeddable_events_ordered lg = Inr evs"
  shows "rt_vectors rt' = rt_vectors rt \<and> rt_entity_vectors rt' = rt_entity_vectors rt"
    and "r = Inr () \<Longrightarrow> rt_index rt' = Some (build_index (vectors_for_model (em_model em) rt))
      \<and> snd ` set (rt_fts_map rt') = fst ` set evs"
    and "fl = [] \<Longrightarrow> r = Inr ()"
proof -
  let ?rt0 = "rt\<lparr>rt_index := Some (build_index (vectors_for_model (em_model em) rt)), rt_fts := [], rt_fts_map := []\<rparr>"
  have "(rt_vectors rt' = rt_vectors rt \<and> rt_entity_vectors rt' = rt_entity_vectors rt)
    \<and> (r = Inr () \<longrightarrow> rt_index rt' = Some (build_index (vectors_for_model (em_model em) rt))
      \<and> snd ` set (rt_fts_map rt') = fst ` set evs) \<and> (fl = [] \<longrightarrow> r = Inr ())"
  proof (cases "VectorRead \<in> set fl \<or> TextRead \<in> set fl \<or> KeywordWipe \<in> set fl \<or> MapWipe \<in> set fl")
    case True
    then show ?thesis using assms by (auto simp: rebuild_indexes_def Let_def split: if_splits)
  next
    case False
    then have "keyword_loop fl evs ?rt0 = (rt', r)" using assms by (simp add: rebuild_indexes_def Let_def)
    from keyword_loop_props [OF this] show ?thesis by simp
  qed
  then show "rt_vectors rt' = rt_vectors rt \<and> rt_entity_vectors rt' = rt_entity_vectors rt"
    "r = Inr () \<Longrightarrow> rt_index rt' = Some (build_index (vectors_for_model (em_model em) rt))
      \<and> snd ` set (rt_fts_map rt') = fst ` set evs" "fl = [] \<Longrightarrow> r = Inr ()" by blast+
qed

lemma has_vector_filter: "has_vector m i (filter (\<lambda>r. vr_model r = m) rows) = has_vector m i rows"
  by (auto simp: has_vector_def list_ex_iff)

text \<open>The second stage, wherever it stops, keeps every vector of the new model; when it succeeds nothing else is
  left and both indexes are built from what is there.\<close>

lemma finalize_props:
  assumes "reembed_finalize_gc fl em lg rt = (rt', r)" "collect_embeddable_events_ordered lg = Inr evs"
  shows "has_vector (em_model em) i (rt_vectors rt') = has_vector (em_model em) i (rt_vectors rt)"
    and "has_vector (em_model em) i (rt_entity_vectors rt') = has_vector (em_model em) i (rt_entity_vectors rt)"
    and "\<not> isl r \<Longrightarrow> rt_vectors rt' = filter (\<lambda>r. vr_model r = em_model em) (rt_vectors rt)
      \<and> rt_entity_vectors rt' = filter (\<lambda>r. vr_model r = em_model em) (rt_entity_vectors rt)
      \<and> rt_index rt' = Some (build_index (vectors_for_model (em_model em) rt'))
      \<and> rt_entity_index rt' = Some (build_index (entity_vectors_for_model (em_model em) rt'))
      \<and> snd ` set (rt_fts_map rt') = fst ` set evs"
    and "fl = [] \<Longrightarrow> \<not> isl r"
proof -
  obtain rt1 q1 where gc: "gc_stale_vectors fl (em_model em) rt = (rt1, q1)" by fastforce
  have v1: "has_vector (em_model em) i (rt_vectors rt1) = has_vector (em_model em) i (rt_vectors rt)"
    "has_vector (em_model em) i (rt_entity_vectors rt1) = has_vector (em_model em) i (rt_entity_vectors rt)" for i
    using gc by (auto simp: gc_stale_vectors_def has_vector_filter split: if_splits)
  obtain rt2 q2 where ri: "rebuild_indexes fl em lg rt1 = (rt2, q2)" by fastforce
  note p2 = rebuild_indexes_props [OF ri assms(2)]
  obtain rt3 q3 where re: "rebuild_entity_index fl em rt2 = (rt3, q3)" by fastforce
  have v3: "rt_vectors rt3 = rt_vectors rt2" "rt_entity_vectors rt3 = rt_entity_vectors rt2"
    using re by (auto simp: rebuild_entity_index_def split: if_splits)
  have stops: "rt' = rt1 \<or> rt' = rt2 \<or> rt' = rt3"
    using assms(1) gc ri re by (auto simp: reembed_finalize_gc_def split: sum.splits)
  show "has_vector (em_model em) i (rt_vectors rt') = has_vector (em_model em) i (rt_vectors rt)"
    "has_vector (em_model em) i (rt_entity_vectors rt') = has_vector (em_model em) i (rt_entity_vectors rt)"
    using stops p2(1) v1 v3 by auto
  show "rt_vectors rt' = filter (\<lambda>r. vr_model r = em_model em) (rt_vectors rt)
      \<and> rt_entity_vectors rt' = filter (\<lambda>r. vr_model r = em_model em) (rt_entity_vectors rt)
      \<and> rt_index rt' = Some (build_index (vectors_for_model (em_model em) rt'))
      \<and> rt_entity_index rt' = Some (build_index (entity_vectors_for_model (em_model em) rt'))
      \<and> snd ` set (rt_fts_map rt') = fst ` set evs" if ok: "\<not> isl r"
  proof -
    have q: "\<not> isl q1" "q2 = Inr ()" "q3 = Inr ()" "rt' = rt3"
      using assms(1) gc ri re ok by (auto simp: reembed_finalize_gc_def split: sum.splits if_splits)
    have "rt_vectors rt1 = filter (\<lambda>r. vr_model r = em_model em) (rt_vectors rt)"
      "rt_entity_vectors rt1 = filter (\<lambda>r. vr_model r = em_model em) (rt_entity_vectors rt)"
      using gc q(1) by (auto simp: gc_stale_vectors_def split: if_splits)
    moreover have "rt_index rt3 = rt_index rt2" "rt_fts_map rt3 = rt_fts_map rt2"
      "rt_entity_index rt3 = Some (build_index (entity_vectors_for_model (em_model em) rt2))"
      using re q(3) by (auto simp: rebuild_entity_index_def split: if_splits)
    ultimately show ?thesis
      using p2(1) p2(2) [OF q(2)] v3 by (simp add: q(4) vectors_for_model_def entity_vectors_for_model_def)
  qed
  show "\<not> isl r" if none: "fl = []"
  proof -
    obtain n where "q1 = Inr n" using gc none by (auto simp: gc_stale_vectors_def)
    moreover have "q3 = Inr ()" using re none by (auto simp: rebuild_entity_index_def)
    ultimately show ?thesis
      using assms(1) gc ri re p2(3) [OF none] none by (auto simp: reembed_finalize_gc_def)
  qed
qed

lemma entity_loop_covers:
  "entity_loop em xs n rt = (rt', Inr n') \<Longrightarrow>
   (\<forall>i\<in>fst ` set xs. has_vector (em_model em) i (rt_entity_vectors rt'))
   \<and> (\<forall>i. has_vector (em_model em) i (rt_entity_vectors rt) \<longrightarrow> has_vector (em_model em) i (rt_entity_vectors rt'))"
proof (induction em xs n rt arbitrary: rt' n' rule: entity_loop.induct)
  case (2 em i t xs n rt)
  obtain rt1 q where q: "derive_entity_vector em i t rt = (rt1, q)" by fastforce
  then have ok: "\<not> isl q" using 2(2) by (auto split: sum.splits)
  then obtain u where u: "q = Inr u" by (cases q) auto
  have "has_vector (em_model em) j (rt_entity_vectors rt1) \<longleftrightarrow> j = i \<or> has_vector (em_model em) j (rt_entity_vectors rt)" for j
    using q ok by (auto simp: derive_entity_vector_def has_vector_upsert split: sum.splits)
  then show ?case
    using 2(1) [OF q [symmetric] u] 2(2) q u by auto
qed simp

text \<open>C35. A migration whose first stage reported success can be completed.  The second stage may be tried any number
  of times, each try stopping at any statement of the store; a try without a failing statement succeeds, and
  after a success only vectors of the new model are left, for memories and for entities.  The vector index then
  holds exactly the vectors that are left, every memory, page, file and session with a text that is neither
  retired, superseded nor deleted among them; the keyword index holds every one with a text; and the rebuilt
  entity index holds exactly the entity vectors that are left, every entity of the graph among them.\<close>

theorem reembed_complete:
  assumes "reembed_prepare k em (g, rt) = ((g', rt'), progress, Inr ())"
    and "collect_embeddable_events_ordered (g_log g) = Inr evs" "embed_excluded_event_ids (g_log g) = Inr ex"
    and "reembed_finalize_gc fl em (g_log g')
      (fold (\<lambda>fl rt. fst (reembed_finalize_gc fl em (g_log g') rt)) tries rt') = (rt2, r)"
  shows "(fl = [] \<longrightarrow> \<not> isl r) \<and> (\<not> isl r \<longrightarrow>
    (\<forall>row\<in>set (rt_vectors rt2) \<union> set (rt_entity_vectors rt2). vr_model row = em_model em)
    \<and> (\<exists>ix. rt_index rt2 = Some ix \<and> fst ` set (hx_id_to_slot ix) = vr_id ` set (rt_vectors rt2))
    \<and> fst ` set evs - ex \<subseteq> vr_id ` set (rt_vectors rt2) \<and> snd ` set (rt_fts_map rt2) = fst ` set evs
    \<and> (\<exists>eix. rt_entity_index rt2 = Some eix \<and> fst ` set (hx_id_to_slot eix) = vr_id ` set (rt_entity_vectors rt2))
    \<and> entity_id ` set (t_entities (g_tables g')) \<subseteq> vr_id ` set (rt_entity_vectors rt2))"
  using assms(1)
proof (cases rule: prepare_cases)
  case early
  then show ?thesis by simp
next
  case (ran ex' everything pending d n t q)
  let ?m = "em_model em"
  have same: "ex' = ex" "everything = evs" using ran(1,2) assms(2,3) by simp_all
  have q: "\<not> isl q" using ran(7) by (cases q) auto
  have "count_missing_vectors ?m (filter (\<lambda>(i, _). i \<notin> ex) evs) rt' = 0"
    using ran(7) same by (auto split: sum.splits if_splits)
  then have all: "has_vector ?m i (rt_vectors rt')" if "i \<in> fst ` set evs - ex" for i
    using that by (auto simp: count_missing_vectors_def filter_empty_conv)
  obtain n' where "q = Inr n'" using q by (cases q) auto
  then have ents: "has_vector ?m i (rt_entity_vectors rt')" if "i \<in> entity_id ` set (t_entities (g_tables g'))" for i
    using that entity_loop_covers [OF ran(6) [unfolded rederive_entity_vectors_pending_def \<open>q = Inr n'\<close>]] by force
  have log: "collect_embeddable_events_ordered (g_log g') = Inr evs" using assms(2) ran(5) by simp
  have "has_vector ?m i (rt_vectors (fold (\<lambda>fl rt. fst (reembed_finalize_gc fl em (g_log g') rt)) tries rt0)) = has_vector ?m i (rt_vectors rt0)
    \<and> has_vector ?m i (rt_entity_vectors (fold (\<lambda>fl rt. fst (reembed_finalize_gc fl em (g_log g') rt)) tries rt0)) = has_vector ?m i (rt_entity_vectors rt0)"
    for i rt0
  proof (induction tries arbitrary: rt0)
    case (Cons fl tries)
    then show ?case
      using finalize_props(1,2) [OF _ log, of fl em rt0 "fst (reembed_finalize_gc fl em (g_log g') rt0)" "snd (reembed_finalize_gc fl em (g_log g') rt0)" i]
      by simp
  qed simp
  then have have2: "has_vector ?m i (rt_vectors rt2) = has_vector ?m i (rt_vectors rt')"
    "has_vector ?m i (rt_entity_vectors rt2) = has_vector ?m i (rt_entity_vectors rt')" for i
    using finalize_props(1,2) [OF assms(4) log] by blast+
  note fin = finalize_props(3,4) [OF assms(4) log]
  have ids: "{i. has_vector ?m i rows} = vr_id ` set rows" if "\<forall>row\<in>set rows. vr_model row = ?m" for rows :: "'a vector_row list"
    using that by (auto simp: has_vector_def list_ex_iff)
  show ?thesis
  proof (intro conjI [OF impI [OF fin(2)]] impI, assumption)
    assume "\<not> isl r"
    note f = fin(1) [OF this]
    have pure: "\<forall>row\<in>set (rt_vectors rt2). vr_model row = ?m" "\<forall>row\<in>set (rt_entity_vectors rt2). vr_model row = ?m"
      using f by simp_all
    note i = ids [OF pure(1)] ids [OF pure(2)]
    have ix: "fst ` set (hx_id_to_slot (build_index (vectors_for_model ?m rt2))) = vr_id ` set (rt_vectors rt2)"
      "fst ` set (hx_id_to_slot (build_index (entity_vectors_for_model ?m rt2))) = vr_id ` set (rt_entity_vectors rt2)"
      by (simp_all add: build_index_ids vectors_for_model_ids i)
    have "\<forall>row\<in>set (rt_vectors rt2) \<union> set (rt_entity_vectors rt2). vr_model row = ?m"
      using pure by blast
    moreover have "\<exists>ix. rt_index rt2 = Some ix \<and> fst ` set (hx_id_to_slot ix) = vr_id ` set (rt_vectors rt2)"
      using f ix(1) by (intro exI conjI) (rule conjunct1 [OF conjunct2 [OF conjunct2]])
    moreover have "fst ` set evs - ex \<subseteq> vr_id ` set (rt_vectors rt2)"
      using all unfolding i(1) [symmetric] by (auto simp: have2)
    moreover have "snd ` set (rt_fts_map rt2) = fst ` set evs" using f by (elim conjE)
    moreover have "\<exists>eix. rt_entity_index rt2 = Some eix \<and> fst ` set (hx_id_to_slot eix) = vr_id ` set (rt_entity_vectors rt2)"
      using f ix(2) by (intro exI conjI) (rule conjunct1 [OF conjunct2 [OF conjunct2 [OF conjunct2]]])
    moreover have "entity_id ` set (t_entities (g_tables g')) \<subseteq> vr_id ` set (rt_entity_vectors rt2)"
      using ents unfolding i(2) [symmetric] by (auto simp: have2)
    ultimately show "(\<forall>row\<in>set (rt_vectors rt2) \<union> set (rt_entity_vectors rt2). vr_model row = ?m)
    \<and> (\<exists>ix. rt_index rt2 = Some ix \<and> fst ` set (hx_id_to_slot ix) = vr_id ` set (rt_vectors rt2))
    \<and> fst ` set evs - ex \<subseteq> vr_id ` set (rt_vectors rt2) \<and> snd ` set (rt_fts_map rt2) = fst ` set evs
    \<and> (\<exists>eix. rt_entity_index rt2 = Some eix \<and> fst ` set (hx_id_to_slot eix) = vr_id ` set (rt_entity_vectors rt2))
    \<and> entity_id ` set (t_entities (g_tables g')) \<subseteq> vr_id ` set (rt_entity_vectors rt2)"
      by (intro conjI)
  qed
qed

section \<open>The first stage succeeds\<close>

lemma payloads_ok:
  "\<forall>r\<in>set rows. row_ok r \<Longrightarrow> payloads rows = Inr (map (\<lambda>r. the (r_payload r)) rows)"
  by (induction rows) (auto simp: row_ok_iff)

lemma events_of_types_ok: "\<forall>r\<in>set lg. row_ok r \<Longrightarrow> \<exists>evs. events_of_types types lg = Inr evs"
  by (simp add: events_of_types_def payloads_ok)

lemma rebuild_graph_ok:
  assumes "\<forall>r\<in>set lg. row_ok r"
  shows "\<exists>t. rebuild_graph fmt lg = Inr t"
proof -
  have "payloads (filter P lg) \<noteq> Inl e" for P e
    using assms by (simp add: payloads_ok)
  then have "rebuild_graph fmt lg \<noteq> Inl e" for e
    by (auto simp: rebuild_graph_def graph_events_ordered_def entity_events_ordered_def page_and_supersede_events_ordered_def
      grant_events_ordered_def write_grant_events_ordered_def mandate_events_ordered_def file_and_supersede_events_ordered_def
      events_of_types_def rbind_eq_Inl Let_def)
  then show ?thesis by (metis sum.exhaust)
qed

lemma prepare_loop_covers:
  assumes "\<And>t. \<exists>v. embed_one em t = Inr v" "ev \<in> set evs" "embeddable_text ev \<noteq> None"
  shows "has_vector (em_model em) (ev_id ev) (rt_vectors (fst (prepare_loop em evs d n rt)))"
  using assms(2)
proof (induction evs arbitrary: d rt)
  case (Cons e evs)
  obtain rt1 r where r: "embed_and_upsert em e rt = (rt1, r)" by fastforce
  have later: "has_vector (em_model em) i (rt_vectors rt1) \<Longrightarrow> has_vector (em_model em) i (rt_vectors (fst (prepare_loop em evs d n rt1)))" for i d
    using prepare_loop_keeps [of em rt1 evs d n] by (simp add: keeps_def)
  have "has_vector (em_model em) (ev_id ev) (rt_vectors (fst (prepare_loop em evs d' n rt1)))" for d'
  proof (cases "ev = e")
    case True
    obtain t v where "embeddable_text e = Some t" "embed_one em t = Inr v"
      using assms(1,3) True by (metis not_Some_eq)
    then show ?thesis using r later True by (auto simp: embed_and_upsert_def has_vector_upsert)
  next
    case False
    then show ?thesis using Cons by simp
  qed
  from this [of d] this [of "Suc d"] show ?case
    using r by (auto split: sum.splits bool.splits prod.splits)
qed simp

lemma entity_loop_ok:
  "(\<And>t. \<exists>v. embed_one em t = Inr v) \<Longrightarrow> \<exists>n'. snd (entity_loop em xs n rt) = Inr n'"
proof (induction xs arbitrary: n rt)
  case (Cons p xs)
  obtain v where "embed_one em (snd p) = Inr v" using Cons(2) by blast
  then show ?case using Cons by (cases p) (simp add: derive_entity_vector_def)
qed simp

lemma collected_ok:
  assumes "\<forall>r\<in>set lg. row_ok r" "collect_embeddable_events_ordered lg = Inr evs" "(i, t) \<in> set evs"
  obtains r ev where "r \<in> set lg" "r_id r = i" "r_payload r = Some ev" "ev_id ev = i"
    "r_type r \<in> set EMBEDDABLE_EVENT_TYPES" "embeddable_text ev = Some t"
proof -
  let ?rows = "filter (\<lambda>r. r_type r \<in> set EMBEDDABLE_EVENT_TYPES) lg"
  have "\<forall>r\<in>set ?rows. row_ok r" using assms(1) by simp
  then have "evs = List.map_filter (\<lambda>(r, ev). map_option (Pair (r_id r)) (embeddable_text ev)) (zip ?rows (map (\<lambda>r. the (r_payload r)) ?rows))"
    using assms(2) by (simp add: collect_embeddable_events_ordered_def payloads_ok Let_def)
  then obtain r where r: "r \<in> set ?rows" "embeddable_text (the (r_payload r)) = Some t" "r_id r = i"
    using assms(3) by (auto simp: map_filter_def zip_map2 zip_same_conv_map split: option.splits)
  then show ?thesis using that assms(1) by (auto simp: row_ok_iff)
qed

text \<open>C36. A migration cannot be blocked for ever: on a log whose rows are well formed, the first stage succeeds
  whenever the embedder answers, whatever was retired, superseded or deleted before.\<close>

theorem reembed_succeeds:
  assumes "\<And>t. \<exists>v. embed_one em t = Inr v" "\<forall>r\<in>set (g_log g). row_ok r"
  shows "snd (snd (reembed_prepare k em (g, rt))) = Inr ()"
proof -
  note ok = events_of_types_ok [OF assms(2)]
  obtain ex where ex: "embed_excluded_event_ids (g_log g) = Inr ex"
    using ok by (fastforce simp: embed_excluded_event_ids_def session_events_ordered_def rbind_eq_Inr Let_def)
  obtain evs where evs: "collect_embeddable_events_ordered (g_log g) = Inr evs"
    using assms(2) by (simp add: collect_embeddable_events_ordered_def payloads_ok Let_def)
  let ?pend = "filter (\<lambda>ev. ev_id ev \<notin> ex) (map (\<lambda>r. the (r_payload r))
     (filter (\<lambda>r. r_type r \<in> set EMBEDDABLE_EVENT_TYPES \<and> \<not> has_vector (em_model em) (r_id r) (rt_vectors rt)) (g_log g)))"
  have pend: "collect_pending (em_model em) (g_log g) rt = Inr ?pend"
    using assms(2) by (simp add: collect_pending_def ex payloads_ok)
  obtain t where t: "rebuild_graph (k_fmt k) (g_log g) = Inr t" using rebuild_graph_ok [OF assms(2)] by blast
  let ?n = "length (filter (\<lambda>(i, _). i \<notin> ex) evs)"
  obtain rt1 ps where l: "prepare_loop em ?pend (?n - length ?pend) ?n rt = (rt1, ps)" by fastforce
  have "\<exists>m. snd (rederive_entity_vectors_pending em (g\<lparr>g_tables := t\<rparr>) rt1) = Inr m"
    unfolding rederive_entity_vectors_pending_def by (rule entity_loop_ok [OF assms(1)])
  then obtain rt2 m where q: "rederive_entity_vectors_pending em (g\<lparr>g_tables := t\<rparr>) rt1 = (rt2, Inr m)"
    by (cases "rederive_entity_vectors_pending em (g\<lparr>g_tables := t\<rparr>) rt1") auto
  have same: "rt_vectors rt2 = rt_vectors rt1"
    using entity_loop_keeps q unfolding rederive_entity_vectors_pending_def by blast
  have "has_vector (em_model em) i (rt_vectors rt1)" if i: "(i, tx) \<in> set evs" "i \<notin> ex" for i tx
  proof (cases "has_vector (em_model em) i (rt_vectors rt)")
    case True
    then show ?thesis using prepare_loop_keeps [of em rt ?pend "?n - length ?pend" ?n] l by (simp add: keeps_def)
  next
    case False
    obtain r ev where r: "r \<in> set (g_log g)" "r_id r = i" "r_payload r = Some ev" "ev_id ev = i"
      "r_type r \<in> set EMBEDDABLE_EVENT_TYPES" "embeddable_text ev = Some tx"
      using collected_ok [OF assms(2) evs i(1)] by blast
    then have "ev \<in> set ?pend" using False i(2) by force
    then show ?thesis using prepare_loop_covers [OF assms(1), of ev ?pend "?n - length ?pend" ?n rt] l r(4,6) by simp
  qed
  then have "count_missing_vectors (em_model em) (filter (\<lambda>(i, _). i \<notin> ex) evs) rt2 = 0"
    by (auto simp: count_missing_vectors_def filter_empty_conv same)
  then show ?thesis
    unfolding reembed_prepare_def prod.case ex evs rbind_simps sum.case Let_def pend l t q by simp
qed

section \<open>A migration on a concrete log\<close>

definition demo_embedder :: "nat embedder" where
  "demo_embedder = \<lparr>em_embed = \<lambda>ts. Inr (map length ts), em_model = ''new'', em_dim = 1\<rparr>"

definition demo_retrieval :: "nat retrieval" where
  "demo_retrieval = \<lparr>rt_vectors = [\<lparr>vr_id = ''a'', vr_model = ''old'', vr_dim = 1, vr_vec = 7\<rparr>], rt_entity_vectors = [],
     rt_index = None, rt_entity_index = None, rt_fts = [], rt_fts_map = []\<rparr>"

abbreviation "demo_prepare \<equiv> reembed_prepare demo_settings demo_embedder (demo_engine, demo_retrieval)"


theorem reembed_succeeds_witness: "snd (snd demo_prepare) = Inr ()"
proof (rule reembed_succeeds)
  show "\<exists>v. embed_one demo_embedder t = Inr v" for t by (simp add: embed_one_def demo_embedder_def)
  have "list_all row_ok (g_log demo_engine)" by code_simp
  then show "\<forall>r\<in>set (g_log demo_engine). row_ok r" by (simp add: list_all_iff)
qed


text \<open>A first try stops when it wipes the keyword map, a second one when it reads the entity vectors; the third goes
  through.\<close>

definition demo_entity_engine :: engine where
  "demo_entity_engine = demo_engine\<lparr>g_log := g_log demo_engine @ [
     \<lparr>r_id = ''n'', r_ts = ''t'', r_type = ENTITY_T, r_payload = Some ((draft_event ENTITY_T
        (jobj [(''label'', JStr ''Ada''), (''entity_type'', JStr ''person'')]) None)\<lparr>ev_id := ''n''\<rparr>),
      r_prev = [], r_hash = []\<rparr>]\<rparr>"

abbreviation "demo_prepared \<equiv> reembed_prepare demo_settings demo_embedder (demo_entity_engine, demo_retrieval)"

abbreviation "demo_finalize fl rt \<equiv> reembed_finalize_gc fl demo_embedder (g_log (fst (fst demo_prepared))) rt"

theorem reembed_complete_witness:
  "\<exists>rt2 ix eix. fst (demo_finalize [] (fold (\<lambda>fl rt. fst (demo_finalize fl rt)) [[MapWipe], [EntityRead]] (snd (fst demo_prepared)))) = rt2
    \<and> rt_index rt2 = Some ix \<and> ''a'' \<in> fst ` set (hx_id_to_slot ix)
    \<and> rt_entity_index rt2 = Some eix \<and> ''entity:n'' \<in> fst ` set (hx_id_to_slot eix)
    \<and> (\<forall>row\<in>set (rt_vectors rt2). vr_model row = ''new'')"
proof -
  have "snd (snd demo_prepared) = Inr ()" by code_simp
  then have run: "demo_prepared = ((fst (fst demo_prepared), snd (fst demo_prepared)), fst (snd demo_prepared), Inr ())"
    by (metis prod.collapse)
  have evs: "collect_embeddable_events_ordered (g_log demo_entity_engine) = Inr [(''a'', ''hi'')]"
    "embed_excluded_event_ids (g_log demo_entity_engine) = Inr {}" by code_simp+
  have ent: "entity_id ` set (t_entities (g_tables (fst (fst demo_prepared)))) = {''entity:n''}" by code_simp
  obtain rt2 r where fin: "demo_finalize [] (fold (\<lambda>fl rt. fst (demo_finalize fl rt)) [[MapWipe], [EntityRead]] (snd (fst demo_prepared))) = (rt2, r)"
    by fastforce
  have new: "em_model demo_embedder = ''new''" by (simp add: demo_embedder_def)
  note c = reembed_complete [OF run evs fin, unfolded ent new]
  then have "\<not> isl r" by simp
  with c obtain ix eix where e: "rt_index rt2 = Some ix" "fst ` set (hx_id_to_slot ix) = vr_id ` set (rt_vectors rt2)"
    "fst ` set [(''a'', ''hi'')] - {} \<subseteq> vr_id ` set (rt_vectors rt2)"
    "rt_entity_index rt2 = Some eix" "fst ` set (hx_id_to_slot eix) = vr_id ` set (rt_entity_vectors rt2)"
    "{''entity:n''} \<subseteq> vr_id ` set (rt_entity_vectors rt2)"
    "\<forall>row\<in>set (rt_vectors rt2) \<union> set (rt_entity_vectors rt2). vr_model row = ''new''"
    by (elim conjE impE exE) (rule refl | assumption)+
  have "''a'' \<in> fst ` set (hx_id_to_slot ix)" "''entity:n'' \<in> fst ` set (hx_id_to_slot eix)"
    unfolding e(2,5) using e(3,6) by auto
  then show ?thesis
    unfolding fin using e(1,4,7) by (intro exI [of _ rt2] exI [of _ ix] exI [of _ eix]) simp
qed

end
