(* ===== verification/Recall.thy ===== *)
theory Recall
  imports Retrieval "HOL-Library.Multiset"
begin

text \<open>
  Hybrid recall (\<open>recall.rs\<close>, \<open>EventLog::recall\<close>): the two arms, tie-aware reciprocal rank fusion, the
  boosts, the order of the hits and the filter of what must not surface.  Scores are computed with the
  rounding of \<open>f32\<close> and \<open>f64\<close>; the exponential function, the RFC 3339 parser (nanoseconds) and the iteration
  order of the hash map of scores are arguments.
\<close>

section \<open>Fusion\<close>

abbreviation "FUSION_FETCH \<equiv> (200 :: nat)"
abbreviation "GRAPH_REINFORCE_TOPK \<equiv> (3 :: nat)"
abbreviation "GRAPH_MAX_HOPS \<equiv> (1 :: nat)"

definition f32_of_nat :: "nat \<Rightarrow> float" where
  "f32_of_nat n = of_rational F32 (of_nat n)"

definition RRF_K :: float where
  "RRF_K = f32_of_nat 60"

definition rrf_contribution :: "nat \<Rightarrow> float" where
  "rrf_contribution rank = fdiv F32 (f32_of_nat 1) (fadd F32 RRF_K (f32_of_nat rank))"

fun bump :: "string \<Rightarrow> float \<Rightarrow> (string \<times> float) list \<Rightarrow> (string \<times> float) list" where
  "bump i c [] = [(i, fadd F32 (Fin False 0) c)]"
| "bump i c ((j, s) # m) = (if i = j then (j, fadd F32 s c) # m else (j, s) # bump i c m)"

definition rrf_fuse :: "string list list \<Rightarrow> (string \<times> float) list" where
  "rrf_fuse arms = fold (\<lambda>arm m. fold (\<lambda>(n, i) m. bump i (rrf_contribution (n + 1)) m) (enumerate 0 arm) m) arms []"

definition sort_desc :: "('a \<Rightarrow> 'k::linorder) \<Rightarrow> 'a list \<Rightarrow> 'a list" where
  "sort_desc key xs = rev (sort_key key (rev xs))"

function rank_groups :: "nat \<Rightarrow> (string \<times> float) list \<Rightarrow> (string \<times> nat) list" where
  "rank_groups rank [] = []"
| "rank_groups rank ((i, s) # xs) =
     (let tied = takeWhile (\<lambda>(_, t). t = s) xs in
      (i, rank) # map (\<lambda>(j, _). (j, rank)) tied @ rank_groups (rank + 1 + length tied) (dropWhile (\<lambda>(_, t). t = s) xs))"
  by pat_completeness auto
termination
  by (relation "measure (length \<circ> snd)") (auto simp: less_Suc_eq_le length_dropWhile_le)

definition rank_with_ties :: "(string \<times> float) list \<Rightarrow> bool \<Rightarrow> (string \<times> nat) list" where
  "rank_with_ties scored lower_is_better = rank_groups 1
     (if lower_is_better then sort_key (\<lambda>(_, s). total_key s) scored else sort_desc (\<lambda>(_, s). total_key s) scored)"

definition fuse_scored_arms :: "((string \<times> float) list \<times> bool) list \<Rightarrow> (string \<times> float) list" where
  "fuse_scored_arms arms =
     fold (\<lambda>(arm, lower) m. fold (\<lambda>(i, rank) m. bump i (rrf_contribution rank) m) (rank_with_ties arm lower) m) arms []"

definition resolve_arms :: "(boss_error, 'a list) result \<Rightarrow> (boss_error, 'b list) result
    \<Rightarrow> (boss_error, 'a list \<times> 'b list) result" where
  "resolve_arms v k = (case (v, k) of
     (Inr v, Inr k) \<Rightarrow> Inr (v, k)
   | (Inl _, Inr k) \<Rightarrow> Inr ([], k)
   | (Inr v, Inl _) \<Rightarrow> Inr (v, [])
   | (Inl _, Inl _) \<Rightarrow> Inl (InvalidInput ''recall failed: both arms unavailable''))"

section \<open>Hits\<close>

datatype recall_source = Vector | Keyword

record hit =
  ht_event_id :: string
  ht_score :: float
  ht_sources :: "recall_source list"
  ht_kind :: string

record recall_options =
  ro_pinned :: "string list"
  ro_graph_seeds :: "string list"
  ro_exclude_pages :: bool
  ro_exclude_files :: bool

record 'v recaller =
  rc_embedder :: "'v embedder"
  rc_knn :: "'v knn"
  rc_bm25 :: bm25
  rc_exp :: "float \<Rightarrow> float"
  rc_parse :: "string \<Rightarrow> int option"
  rc_order :: "(string \<times> float) list \<Rightarrow> (string \<times> float) list"

definition candidate_timestamps :: "(string \<Rightarrow> int option) \<Rightarrow> log \<Rightarrow> string list \<Rightarrow> string \<Rightarrow> int option" where
  "candidate_timestamps parse lg ids i =
     (if i \<in> set ids then Option.bind (lookup_row lg i) (\<lambda>r. parse (r_ts r)) else None)"

definition candidate_event_types :: "log \<Rightarrow> string list \<Rightarrow> string \<Rightarrow> string option" where
  "candidate_event_types lg ids i = (if i \<in> set ids then map_option r_type (lookup_row lg i) else None)"

definition current_files_active :: "tables \<Rightarrow> string set" where
  "current_files_active t = set (map f_event_id (filter (\<lambda>f.
     list_ex (\<lambda>gr. canonical_root gr = f_root f \<and> \<not> revoked gr) (t_grants t)) (t_files t)))"

section \<open>Boosts\<close>

definition f64_of_rat :: "rat \<Rightarrow> float" where
  "f64_of_rat x = of_rational F64 x"

text \<open>\<open>num_milliseconds\<close> of a difference in nanoseconds truncates towards zero.\<close>

definition num_milliseconds :: "int \<Rightarrow> int" where
  "num_milliseconds d = (if 0 \<le> d then d div 1000000 else - ((- d) div 1000000))"

definition recency_factor :: "(float \<Rightarrow> float) \<Rightarrow> int \<Rightarrow> int \<Rightarrow> float" where
  "recency_factor exp_f64 now ts =
     (let age_secs = fdiv F64 (f64_of_rat (of_int (num_milliseconds (now - ts)))) (f64_of_rat 1000);
          decay = exp_f64 (fdiv F64 (fneg age_secs) (f64_of_rat 604800))
      in fadd F64 (f64_of_rat 1) (fmul F64 (f64_of_rat (1 / 2)) decay))"

fun f64_powi :: "float \<Rightarrow> nat \<Rightarrow> float" where
  "f64_powi x 0 = f64_of_rat 1"
| "f64_powi x (Suc n) = fmul F64 x (f64_powi x n)"

text \<open>\<open>GRAPH_WEIGHT\<close> is the \<open>f32\<close> nearest to 0.4, widened.\<close>

definition graph_factor :: "nat \<Rightarrow> float" where
  "graph_factor hop = fadd F64 (f64_of_rat 1)
     (fmul F64 (to_format F64 (of_rational F32 (2 / 5))) (f64_powi (f64_of_rat (1 / 2)) (hop - 1)))"

definition boosted_score :: "(float \<Rightarrow> float) \<Rightarrow> int \<Rightarrow> int option \<Rightarrow> bool \<Rightarrow> nat option \<Rightarrow> float \<Rightarrow> float" where
  "boosted_score exp_f64 now ts pinned hop base =
     (let s0 = to_format F64 base;
          s1 = (case ts of None \<Rightarrow> s0 | Some t \<Rightarrow> fmul F64 s0 (recency_factor exp_f64 now t));
          s2 = (if pinned then fmul F64 s1 (f64_of_rat 2) else s1)
      in case hop of None \<Rightarrow> s2 | Some h \<Rightarrow> fmul F64 s2 (graph_factor h))"

definition auto_seeds :: "(string \<times> float) list \<Rightarrow> string list" where
  "auto_seeds fused = take GRAPH_REINFORCE_TOPK (map fst (sort_desc (\<lambda>(i, s). (total_key s, i)) fused))"

section \<open>What may surface\<close>

record surface =
  su_pages :: "string set"
  su_files :: "string set"
  su_sessions :: "string set"
  su_superseded :: "string set"
  su_retired_notes :: "string set"

text \<open>Each set is only computed when a candidate of its kind is there.\<close>

definition surface_of :: "engine \<Rightarrow> string list \<Rightarrow> (boss_error, surface) result" where
  "surface_of g kinds =
     (let pages = (if PAGE_T \<in> set kinds then set (map p_event_id (t_pages (g_tables g))) else {});
          files = (if FILE_INGESTED_T \<in> set kinds then current_files_active (g_tables g) else {}) in
      if SESSION_CAPTURED_T \<in> set kinds \<or> MEMORY_T \<in> set kinds
      then rbind (session_events_ordered (g_log g)) (\<lambda>evs. let (current, marks) = fold_sessions evs in
        Inr \<lparr>su_pages = pages, su_files = files, su_sessions = set (map cs_event_id current),
          su_superseded = sm_superseded marks, su_retired_notes = sm_retired_notes marks\<rparr>)
      else Inr \<lparr>su_pages = pages, su_files = files, su_sessions = {}, su_superseded = {}, su_retired_notes = {}\<rparr>)"

definition may_surface :: "recall_options \<Rightarrow> surface \<Rightarrow> hit \<Rightarrow> bool" where
  "may_surface opts su h =
     (if ht_kind h = PAGE_T then \<not> ro_exclude_pages opts \<and> ht_event_id h \<in> su_pages su
      else if ht_kind h = FILE_INGESTED_T then \<not> ro_exclude_files opts \<and> ht_event_id h \<in> su_files su
      else if ht_kind h = SESSION_CAPTURED_T then ht_event_id h \<in> su_sessions su
      else if ht_kind h = MEMORY_T then ht_event_id h \<notin> su_superseded su \<and> ht_event_id h \<notin> su_retired_notes su
      else True)"

section \<open>Recall\<close>

definition hit_of :: "'v recaller \<Rightarrow> int \<Rightarrow> engine \<Rightarrow> string set \<Rightarrow> string set \<Rightarrow> recall_options \<Rightarrow> string list
    \<Rightarrow> (string \<Rightarrow> nat option) \<Rightarrow> string \<times> float \<Rightarrow> hit \<times> float" where
  "hit_of rc now g vector_set keyword_set opts ids hops = (\<lambda>(i, base).
     let score = boosted_score (rc_exp rc) now (candidate_timestamps (rc_parse rc) (g_log g) ids i)
           (i \<in> set (ro_pinned opts)) (hops i) base;
         sources = (if i \<in> vector_set then [Vector] else []) @ (if i \<in> keyword_set then [Keyword] else []) in
     (\<lparr>ht_event_id = i, ht_score = to_format F32 score, ht_sources = sources,
       ht_kind = (case candidate_event_types (g_log g) ids i of None \<Rightarrow> [] | Some t \<Rightarrow> t)\<rparr>, score))"

text \<open>A missing timestamp sorts below every other.\<close>

definition hit_key :: "(string \<Rightarrow> int option) \<Rightarrow> hit \<times> float \<Rightarrow> (int \<times> rat) \<times> (bool \<times> int) \<times> string" where
  "hit_key timestamps = (\<lambda>(h, score). (total_key score,
     (case timestamps (ht_event_id h) of None \<Rightarrow> (False, 0) | Some t \<Rightarrow> (True, t)), ht_event_id h))"

definition recall_arms :: "'v recaller \<Rightarrow> int \<Rightarrow> engine \<Rightarrow> (string \<times> float) list \<Rightarrow> (string \<times> float) list \<Rightarrow> nat
    \<Rightarrow> recall_options \<Rightarrow> (boss_error, hit list) result" where
  "recall_arms rc now g vector_arm keyword_arm k opts =
     (let fused = rc_order rc (fuse_scored_arms [(vector_arm, True), (keyword_arm, True)]);
          ids = map fst fused;
          timestamps = candidate_timestamps (rc_parse rc) (g_log g) ids;
          seeds = (if ro_graph_seeds opts \<noteq> [] then ro_graph_seeds opts else auto_seeds fused);
          hops = current_neighbors_with_hops (g_tables g) seeds GRAPH_MAX_HOPS;
          scored = map (hit_of rc now g (set (map fst vector_arm)) (set (map fst keyword_arm)) opts ids hops) fused in
      rbind (surface_of g (List.map_filter (candidate_event_types (g_log g) ids) ids)) (\<lambda>su.
        Inr (take k (filter (may_surface opts su) (map fst (sort_desc (hit_key timestamps) scored))))))"

definition recall :: "'v recaller \<Rightarrow> int \<Rightarrow> engine \<Rightarrow> 'v retrieval \<Rightarrow> string \<Rightarrow> nat \<Rightarrow> recall_options
    \<Rightarrow> (boss_error, hit list) result" where
  "recall rc now g rt query k opts =
     rbind (resolve_arms (rbind (embed_one (rc_embedder rc) query) (\<lambda>qv. vector_search (rc_knn rc) rt qv FUSION_FETCH))
         (keyword_search (rc_bm25 rc) rt query FUSION_FETCH)) (\<lambda>(vector_arm, keyword_arm).
       recall_arms rc now g vector_arm keyword_arm k opts)"

section \<open>Sorting in descending order\<close>

lemma mset_sort_desc [simp]: "mset (sort_desc key xs) = mset xs"
  by (simp add: sort_desc_def)

lemma set_sort_desc [simp]: "set (sort_desc key xs) = set xs"
  by (simp add: sort_desc_def)

lemma sorted_sort_desc: "sorted_wrt (\<lambda>x y. key y \<le> key x) (sort_desc key xs)"
proof -
  have "sorted_wrt (\<lambda>x y. key x \<le> key y) (sort_key key (rev xs))"
    using sorted_sort_key [of key "rev xs"] by (simp add: sorted_wrt_map)
  then show ?thesis by (simp add: sort_desc_def sorted_wrt_rev)
qed

lemma sort_desc_permuted:
  assumes "mset xs = mset ys" "inj_on key (set xs)"
  shows "sort_desc key xs = sort_desc key ys"
proof -
  have "sort_key key (rev xs) = sort_key key (rev ys)"
    using assms by (intro sort_key_inj_key_eq) (simp_all add: inj_on_def)
  then show ?thesis by (simp add: sort_desc_def)
qed

lemma insort_key_same: "\<forall>y\<in>insert x (set xs). f y = h y \<Longrightarrow> insort_key f x xs = insort_key h x xs"
  by (induction xs) simp_all

lemma sort_key_same: "\<forall>x\<in>set xs. f x = h x \<Longrightarrow> sort_key f xs = sort_key h xs"
proof (induction xs)
  case (Cons x xs)
  then show ?case using insort_key_same [of x "sort_key h xs" f h] by simp
qed simp

section \<open>Ranks depend on the scores only\<close>

definition better :: "(string \<times> float) list \<Rightarrow> float \<Rightarrow> nat" where
  "better xs s = length (filter (\<lambda>(_, t). total_key t < total_key s) xs)"

lemma rank_groups_iff:
  "sorted (map (\<lambda>(_, s). total_key s) xs) \<Longrightarrow>
   set (rank_groups n xs) = (\<lambda>(i, s). (i, n + better xs s)) ` set xs"
proof (induction n xs rule: rank_groups.induct)
  case (1 n)
  then show ?case by simp
next
  case (2 n i s xs)
  let ?tied = "takeWhile (\<lambda>(_, t). t = s) xs" and ?rest = "dropWhile (\<lambda>(_, t). t = s) xs"
  have xs: "xs = ?tied @ ?rest" by simp
  have tied: "t = s" if "(j, t) \<in> set ?tied" for j t
    using set_takeWhileD [OF that] by simp
  have sorted_rest: "sorted (map (\<lambda>(_, s). total_key s) ?rest)"
    using 2(2) xs by (metis (no_types, lifting) list.simps(9) map_append sorted_append sorted_simps(2))
  have above: "total_key s < total_key t" if "(j, t) \<in> set ?rest" for j t
  proof (cases ?rest)
    case Nil
    show ?thesis using that unfolding Nil by simp
  next
    case (Cons p ps)
    have "snd p \<noteq> s" using hd_dropWhile [of "\<lambda>(_, t). t = s" xs] Cons by (auto split: prod.splits)
    moreover have "total_key s \<le> total_key (snd p)"
    proof -
      have "p \<in> set xs" using Cons by (metis list.set_intros(1) set_dropWhileD)
      then have "(case p of (_, u) \<Rightarrow> total_key u) \<in> set (map (\<lambda>(_, u). total_key u) xs)" by (metis image_eqI set_map)
      then show ?thesis using 2(2) by (cases p) auto
    qed
    moreover have "total_key (snd p) \<le> total_key t"
      using sorted_rest that unfolding Cons by (cases p) auto
    ultimately show ?thesis using total_key_inj by fastforce
  qed
  have b_s: "better ((i, s) # xs) s = 0"
  proof -
    have "set xs = set ?tied \<union> set ?rest" by (metis set_append takeWhile_dropWhile_id)
    then have "\<not> total_key b < total_key s" if "(a, b) \<in> set xs" for a b
      using that tied above by (metis Un_iff less_asym' order_less_irrefl)
    then show ?thesis by (auto simp: better_def filter_empty_conv)
  qed
  have b_rest: "better ((i, s) # xs) t = 1 + length ?tied + better ?rest t" if "(j, t) \<in> set ?rest" for j t
  proof -
    have "filter (\<lambda>(_, u). total_key u < total_key t) ?tied = ?tied"
      using tied above [OF that] by (auto simp: filter_id_conv)
    moreover have "length (filter P xs) = length (filter P ?tied) + length (filter P ?rest)" for P
      by (metis filter_append length_append takeWhile_dropWhile_id)
    ultimately show ?thesis using above [OF that] unfolding better_def by simp
  qed
  have IH: "set (rank_groups (n + 1 + length ?tied) ?rest) = (\<lambda>(j, t). (j, n + 1 + length ?tied + better ?rest t)) ` set ?rest"
    using 2(1) [OF refl sorted_rest] by simp
  let ?f = "\<lambda>(j, t). (j, n + better ((i, s) # xs) t)"
  have "set ((i, s) # xs) = {(i, s)} \<union> set ?tied \<union> set ?rest"
    by (metis Un_assoc insert_is_Un list.simps(15) set_append xs)
  then have "?f ` set ((i, s) # xs) = {(i, n)} \<union> ?f ` set ?tied \<union> ?f ` set ?rest"
    by (simp only: image_Un) (simp add: b_s)
  moreover have "?f ` set ?tied = (\<lambda>(j, _). (j, n)) ` set ?tied"
  proof (intro image_cong refl)
    show "?f p = (case p of (j, _) \<Rightarrow> (j, n))" if "p \<in> set ?tied" for p
    proof (cases p)
      case (Pair j t)
      then show ?thesis using tied [of j t] that b_s by simp
    qed
  qed
  moreover have "?f ` set ?rest = (\<lambda>(j, t). (j, n + 1 + length ?tied + better ?rest t)) ` set ?rest"
    using b_rest by (intro image_cong refl) auto
  ultimately show ?case
    unfolding rank_groups.simps Let_def set_append list.set set_map IH by simp
qed

lemma rank_with_ties_iff:
  "set (rank_with_ties xs True) = (\<lambda>(i, s). (i, 1 + better xs s)) ` set xs"
proof -
  let ?ys = "sort_key (\<lambda>(_, s). total_key s) xs"
  have "better ?ys s = better xs s" for s
  proof -
    have "mset (filter (\<lambda>(_, t). total_key t < total_key s) ?ys) = mset (filter (\<lambda>(_, t). total_key t < total_key s) xs)"
      by simp
    then show ?thesis unfolding better_def by (rule mset_eq_length)
  qed
  then show ?thesis
    unfolding rank_with_ties_def using rank_groups_iff [OF sorted_sort_key, of 1 xs] by simp
qed

lemma rank_groups_ids: "map fst (rank_groups n xs) = map fst xs"
proof (induction n xs rule: rank_groups.induct)
  case (2 n i s xs)
  have "map fst xs = map fst (takeWhile (\<lambda>(_, t). t = s) xs) @ map fst (dropWhile (\<lambda>(_, t). t = s) xs)"
    by (metis map_append takeWhile_dropWhile_id)
  then show ?case using 2 by (auto simp: Let_def)
qed simp

lemma rank_with_ties_ids: "mset (map fst (rank_with_ties xs lower)) = mset (map fst xs)"
  by (simp add: rank_with_ties_def rank_groups_ids)

lemma map_of_eq_set_eq:
  assumes "distinct (map fst xs)" "distinct (map fst ys)"
  shows "map_of xs = map_of ys \<longleftrightarrow> set xs = set ys"
proof
  assume "map_of xs = map_of ys"
  then show "set xs = set ys" using assms by (metis map_of_eq_Some_iff subrelI subset_antisym)
next
  assume "set xs = set ys"
  then show "map_of xs = map_of ys" using assms by (intro ext) (metis map_of_eq_Some_iff not_Some_eq surj_pair)
qed

lemma rank_with_ties_map:
  assumes "mset xs = mset ys" "distinct (map fst xs)"
  shows "map_of (rank_with_ties xs True) = map_of (rank_with_ties ys True)"
proof -
  have "better xs s = better ys s" for s
    using mset_eq_length [of "filter (\<lambda>(_, t). total_key t < total_key s) xs" "filter (\<lambda>(_, t). total_key t < total_key s) ys"] assms(1)
    by (simp add: better_def)
  then have "set (rank_with_ties xs True) = set (rank_with_ties ys True)"
    using mset_eq_setD [OF assms(1)] by (simp add: rank_with_ties_iff)
  moreover have "distinct (map fst (rank_with_ties xs True))" "distinct (map fst (rank_with_ties ys True))"
    using assms rank_with_ties_ids mset_eq_imp_distinct_iff mset_map by metis+
  ultimately show ?thesis by (metis map_of_eq_set_eq)
qed

section \<open>Fused scores\<close>

lemma map_of_bump: "map_of (bump i c m) = (map_of m)(i \<mapsto> fadd F32 (case map_of m i of None \<Rightarrow> Fin False 0 | Some s \<Rightarrow> s) c)"
  by (induction i c m rule: bump.induct) (auto simp: fun_eq_iff)

lemma ids_bump: "fst ` set (bump i c m) = insert i (fst ` set m)"
  by (induction i c m rule: bump.induct) auto

lemma distinct_bump: "distinct (map fst m) \<Longrightarrow> distinct (map fst (bump i c m))"
proof (induction i c m rule: bump.induct)
  case (2 i c j s m)
  then show ?case using ids_bump [of i c m] by (auto simp flip: set_map)
qed simp

abbreviation fuse_arm :: "(string \<times> nat) list \<Rightarrow> (string \<times> float) list \<Rightarrow> (string \<times> float) list" where
  "fuse_arm ranked m \<equiv> fold (\<lambda>(i, rank) m. bump i (rrf_contribution rank) m) ranked m"

lemma ids_fuse_arm: "fst ` set (fuse_arm ranked m) = fst ` set ranked \<union> fst ` set m"
proof (induction ranked arbitrary: m)
  case (Cons p ranked)
  then show ?case using Cons [of "bump (fst p) (rrf_contribution (snd p)) m"] by (simp add: split_def ids_bump)
qed simp

lemma distinct_fuse_arm: "distinct (map fst m) \<Longrightarrow> distinct (map fst (fuse_arm ranked m))"
  by (induction ranked arbitrary: m) (auto simp: distinct_bump)

lemma map_of_fuse_arm:
  "distinct (map fst ranked) \<Longrightarrow> map_of (fuse_arm ranked m) i = (case map_of ranked i of None \<Rightarrow> map_of m i
     | Some r \<Rightarrow> Some (fadd F32 (case map_of m i of None \<Rightarrow> Fin False 0 | Some s \<Rightarrow> s) (rrf_contribution r)))"
proof (induction ranked arbitrary: m)
  case (Cons p ranked)
  obtain j r where p: "p = (j, r)" by fastforce
  have "map_of ranked j = None" using Cons(2) by (simp add: p map_of_eq_None_iff)
  moreover have "map_of (bump j c m) i = map_of m i" if "i \<noteq> j" for c
    using that by (simp add: map_of_bump)
  ultimately show ?case
    using Cons by (cases "i = j") (auto simp: p map_of_bump split: option.splits)
qed simp

lemma fuse_ids:
  "fst ` set (fuse_scored_arms [(va, True), (ka, True)]) = fst ` set va \<union> fst ` set ka"
proof -
  have "fst ` set (rank_with_ties xs True) = fst ` set xs" for xs
    using rank_with_ties_ids [of xs True] by (metis mset_eq_setD set_map)
  then show ?thesis by (simp add: fuse_scored_arms_def ids_fuse_arm) blast
qed

lemma fuse_distinct: "distinct (map fst (fuse_scored_arms [(va, True), (ka, True)]))"
  by (simp add: fuse_scored_arms_def distinct_fuse_arm)

lemma fuse_permuted:
  assumes "mset va = mset va'" "mset ka = mset ka'" "distinct (map fst va)" "distinct (map fst ka)"
  shows "mset (fuse_scored_arms [(va, True), (ka, True)]) = mset (fuse_scored_arms [(va', True), (ka', True)])"
proof -
  let ?f = "fuse_scored_arms [(va, True), (ka, True)]" and ?f' = "fuse_scored_arms [(va', True), (ka', True)]"
  have d: "distinct (map fst (rank_with_ties xs True))" if "distinct (map fst xs)" for xs
    using that rank_with_ties_ids mset_eq_imp_distinct_iff by metis
  have d': "distinct (map fst va')" "distinct (map fst ka')"
    using assms mset_eq_imp_distinct_iff mset_map by metis+
  have "map_of (fuse_arm r m) = map_of (fuse_arm r' m')"
    if "map_of r = map_of r'" "map_of m = map_of m'" "distinct (map fst r)" "distinct (map fst r')" for r r' m m'
    by (rule ext) (simp add: map_of_fuse_arm that split: option.split)
  note arm = this
  have "map_of ?f = map_of ?f'"
    unfolding fuse_scored_arms_def fold.simps prod.case o_apply id_apply
    by (intro arm rank_with_ties_map assms d d' refl)
  then have "set ?f = set ?f'"
    using map_of_eq_set_eq [OF fuse_distinct fuse_distinct] by blast
  then show ?thesis
    using fuse_distinct [of va ka] fuse_distinct [of va' ka'] set_eq_iff_mset_eq_distinct by (metis distinct_map)
qed

section \<open>The order of the hits\<close>

lemma candidate_lookups_set:
  "set ids = set ids' \<Longrightarrow> candidate_timestamps parse lg ids = candidate_timestamps parse lg ids'"
  "set ids = set ids' \<Longrightarrow> candidate_event_types lg ids = candidate_event_types lg ids'"
  by (simp_all add: candidate_timestamps_def candidate_event_types_def fun_eq_iff)

lemma hit_of_set:
  "set ids = set ids' \<Longrightarrow> hit_of rc now g vs ks opts ids hops = hit_of rc now g vs ks opts ids' hops"
  unfolding hit_of_def by (simp add: candidate_lookups_set [of ids ids'])

lemma set_map_filter: "set (List.map_filter f xs) = {y. \<exists>x\<in>set xs. f x = Some y}"
  by (induction xs) (auto simp: List.map_filter_simps split: option.splits)

lemma surface_of_set: "set kinds = set kinds' \<Longrightarrow> surface_of g kinds = surface_of g kinds'"
  by (simp add: surface_of_def)

lemma auto_seeds_permuted:
  assumes "mset m = mset m'" "distinct (map fst m)"
  shows "auto_seeds m = auto_seeds m'"
proof -
  have "inj_on (\<lambda>(i, s). (total_key s, i)) (set m)"
    by (auto simp: inj_on_def total_key_inj)
  from sort_desc_permuted [OF assms(1) this] show ?thesis
    unfolding auto_seeds_def by (rule arg_cong)
qed

text \<open>C33. Recall is deterministic: neither the iteration order of the hash map of scores nor the order in
  which the two arms emit their hits (among equal distances or ranks, say) changes the result.\<close>

theorem recall_deterministic:
  assumes "mset va = mset va'" "mset ka = mset ka'" "distinct (map fst va)" "distinct (map fst ka)"
    and "\<And>m. mset (rc_order rc m) = mset m" "\<And>m. mset (order m) = mset m"
  shows "recall_arms (rc\<lparr>rc_order := order\<rparr>) now g va' ka' k opts = recall_arms rc now g va ka k opts"
proof -
  let ?m = "rc_order rc (fuse_scored_arms [(va, True), (ka, True)])"
  let ?m' = "order (fuse_scored_arms [(va', True), (ka', True)])"
  have m: "mset ?m = mset ?m'"
    using fuse_permuted [OF assms(1-4)] assms(5,6) by simp
  have d: "distinct (map fst ?m)"
    using fuse_distinct [of va ka] assms(5) by (metis mset_eq_imp_distinct_iff mset_map)
  have ids: "set (map fst ?m) = set (map fst ?m')" using mset_eq_setD [OF m] by simp
  have arms: "set (map fst va) = set (map fst va')" "set (map fst ka) = set (map fst ka')"
    using assms(1,2) by (metis mset_eq_setD mset_map)+
  have kinds: "surface_of g (List.map_filter f (map fst ?m)) = surface_of g (List.map_filter f (map fst ?m'))" for f
    unfolding set_map_filter using ids by (intro surface_of_set) (simp add: set_map_filter)
  have sorted: "sort_desc (hit_key ts) (map (hit_of rc now g vs ks opts is hops) ?m)
      = sort_desc (hit_key ts) (map (hit_of rc now g vs ks opts is hops) ?m')" for ts vs ks "is" hops
  proof (rule sort_desc_permuted)
    show "mset (map (hit_of rc now g vs ks opts is hops) ?m) = mset (map (hit_of rc now g vs ks opts is hops) ?m')"
      using m by (simp add: mset_map)
    have "i = j" if "hit_key ts (hit_of rc now g vs ks opts is hops (i, a)) = hit_key ts (hit_of rc now g vs ks opts is hops (j, b))" for i j a b
      using that by (simp add: hit_key_def hit_of_def Let_def)
    then show "inj_on (hit_key ts) (set (map (hit_of rc now g vs ks opts is hops) ?m))"
      using d by (auto simp: inj_on_def distinct_map) (metis eq_key_imp_eq_value d)
  qed
  have "hit_of (rc\<lparr>rc_order := order\<rparr>) = hit_of rc" by (simp add: fun_eq_iff hit_of_def)
  moreover have "rc_order (rc\<lparr>rc_order := order\<rparr>) = order" "rc_parse (rc\<lparr>rc_order := order\<rparr>) = rc_parse rc"
    by simp_all
  ultimately show ?thesis
    unfolding recall_arms_def Let_def
    by (simp only: arms sorted kinds auto_seeds_permuted [OF m d] candidate_lookups_set [OF ids] hit_of_set [OF ids])
qed

section \<open>Which hits\<close>

text \<open>The candidates of a recall with the scores they are sorted by.\<close>

definition scored_candidates :: "'v recaller \<Rightarrow> int \<Rightarrow> engine \<Rightarrow> (string \<times> float) list \<Rightarrow> (string \<times> float) list
    \<Rightarrow> recall_options \<Rightarrow> (hit \<times> float) list" where
  "scored_candidates rc now g va ka opts =
     (let fused = rc_order rc (fuse_scored_arms [(va, True), (ka, True)]); ids = map fst fused;
          seeds = (if ro_graph_seeds opts \<noteq> [] then ro_graph_seeds opts else auto_seeds fused) in
      map (hit_of rc now g (set (map fst va)) (set (map fst ka)) opts ids
        (current_neighbors_with_hops (g_tables g) seeds GRAPH_MAX_HOPS)) fused)"

definition candidate_key :: "'v recaller \<Rightarrow> engine \<Rightarrow> hit \<times> float \<Rightarrow> (int \<times> rat) \<times> (bool \<times> int) \<times> string" where
  "candidate_key rc g p = hit_key (\<lambda>i. Option.bind (lookup_row (g_log g) i) (\<lambda>r. rc_parse rc (r_ts r))) p"

lemma scored_ids:
  "map (ht_event_id \<circ> fst) (scored_candidates rc now g va ka opts) = map fst (rc_order rc (fuse_scored_arms [(va, True), (ka, True)]))"
  by (simp add: scored_candidates_def Let_def hit_of_def split_def)

lemma key_of_candidate:
  "ht_event_id (fst p) \<in> set ids \<Longrightarrow> hit_key (candidate_timestamps (rc_parse rc) (g_log g) ids) p = candidate_key rc g p"
  by (cases p) (simp add: candidate_key_def hit_key_def candidate_timestamps_def)

lemma candidate_of:
  assumes "p \<in> set (scored_candidates rc now g va ka opts)"
  obtains i base hops where "i \<in> set (map fst (rc_order rc (fuse_scored_arms [(va, True), (ka, True)])))"
    "p = hit_of rc now g (set (map fst va)) (set (map fst ka)) opts
       (map fst (rc_order rc (fuse_scored_arms [(va, True), (ka, True)]))) hops (i, base)"
proof -
  obtain q hops where q: "q \<in> set (rc_order rc (fuse_scored_arms [(va, True), (ka, True)]))"
    "p = hit_of rc now g (set (map fst va)) (set (map fst ka)) opts
       (map fst (rc_order rc (fuse_scored_arms [(va, True), (ka, True)]))) hops q"
    using assms unfolding scored_candidates_def Let_def by auto
  have "fst q \<in> set (map fst (rc_order rc (fuse_scored_arms [(va, True), (ka, True)])))"
    unfolding set_map using q(1) by (rule imageI)
  then show ?thesis using that [of "fst q" hops "snd q"] q(2) by simp
qed

lemma scored_kind:
  assumes "p \<in> set (scored_candidates rc now g va ka opts)"
  shows "ht_kind (fst p) = (case lookup_row (g_log g) (ht_event_id (fst p)) of None \<Rightarrow> [] | Some r \<Rightarrow> r_type r)"
  by (rule candidate_of [OF assms]) (simp add: hit_of_def Let_def candidate_event_types_def split: option.split)

lemma scored_sources:
  assumes "p \<in> set (scored_candidates rc now g va ka opts)"
  shows "ht_sources (fst p) = (if ht_event_id (fst p) \<in> fst ` set va then [Vector] else [])
    @ (if ht_event_id (fst p) \<in> fst ` set ka then [Keyword] else [])"
  by (rule candidate_of [OF assms]) (simp add: hit_of_def Let_def)

definition candidate_surface :: "'v recaller \<Rightarrow> int \<Rightarrow> engine \<Rightarrow> (string \<times> float) list \<Rightarrow> (string \<times> float) list
    \<Rightarrow> recall_options \<Rightarrow> (boss_error, surface) result" where
  "candidate_surface rc now g va ka opts =
     (let ids = map (ht_event_id \<circ> fst) (scored_candidates rc now g va ka opts) in
      surface_of g (List.map_filter (candidate_event_types (g_log g) ids) ids))"

lemma recall_arms_Inr:
  assumes "recall_arms rc now g va ka k opts = Inr hits"
  obtains su where
    "candidate_surface rc now g va ka opts = Inr su"
    "hits = take k (map fst (filter (may_surface opts su \<circ> fst) (sort_desc (candidate_key rc g) (scored_candidates rc now g va ka opts))))"
proof -
  let ?c = "scored_candidates rc now g va ka opts" and ?ids = "map (ht_event_id \<circ> fst) (scored_candidates rc now g va ka opts)"
  have run: "rbind (surface_of g (List.map_filter (candidate_event_types (g_log g) ?ids) ?ids)) (\<lambda>su.
      Inr (take k (filter (may_surface opts su) (map fst (sort_desc (hit_key (candidate_timestamps (rc_parse rc) (g_log g) ?ids)) ?c))))) = Inr hits"
    using assms unfolding recall_arms_def scored_ids unfolding scored_candidates_def Let_def .
  have "sort_desc (hit_key (candidate_timestamps (rc_parse rc) (g_log g) ?ids)) ?c = sort_desc (candidate_key rc g) ?c"
    unfolding sort_desc_def by (intro arg_cong [where f = rev] sort_key_same) (simp add: key_of_candidate)
  then show ?thesis
    using run that by (auto simp: rbind_eq_Inr filter_map o_def candidate_surface_def Let_def)
qed

text \<open>C32. Recall returns the best of what may surface: at most \<open>k\<close> hits, each once, by descending score with the
  newer event first on equal scores; every other candidate of the arms that may surface comes with \<open>k\<close> hits
  that all sort before it.  The evidence of a hit names exactly the arms that found it.\<close>

theorem recall_top_k:
  assumes "recall_arms rc now g va ka k opts = Inr hits" "\<And>m. mset (rc_order rc m) = mset m"
  shows "\<exists>su top. candidate_surface rc now g va ka opts = Inr su \<and> hits = map fst top \<and> length hits \<le> k \<and> distinct (map ht_event_id hits)
    \<and> set top \<subseteq> set (scored_candidates rc now g va ka opts)
    \<and> ht_event_id ` fst ` set (scored_candidates rc now g va ka opts) = fst ` set va \<union> fst ` set ka
    \<and> sorted_wrt (\<lambda>p q. candidate_key rc g q \<le> candidate_key rc g p) top
    \<and> list_all (may_surface opts su) hits
    \<and> list_all (\<lambda>h. ht_sources h = (if ht_event_id h \<in> fst ` set va then [Vector] else [])
         @ (if ht_event_id h \<in> fst ` set ka then [Keyword] else [])) hits
    \<and> (\<forall>c\<in>set (scored_candidates rc now g va ka opts). may_surface opts su (fst c) \<longrightarrow> c \<in> set top
         \<or> length hits = k \<and> list_all (\<lambda>p. candidate_key rc g c \<le> candidate_key rc g p) top)"
proof -
  let ?c = "scored_candidates rc now g va ka opts"
  obtain su where su: "candidate_surface rc now g va ka opts = Inr su"
    and hits: "hits = take k (map fst (filter (may_surface opts su \<circ> fst) (sort_desc (candidate_key rc g) ?c)))"
    using recall_arms_Inr [OF assms(1)] by blast
  let ?all = "filter (may_surface opts su \<circ> fst) (sort_desc (candidate_key rc g) ?c)"
  let ?top = "take k ?all"
  have h: "hits = map fst ?top" by (simp add: hits take_map)
  have all: "set ?all = {c \<in> set ?c. may_surface opts su (fst c)}" by auto
  have sorted: "sorted_wrt (\<lambda>p q. candidate_key rc g q \<le> candidate_key rc g p) ?all"
    using sorted_sort_desc by (rule sorted_wrt_filter)
  have fused: "mset (map fst (rc_order rc (fuse_scored_arms [(va, True), (ka, True)]))) = mset (map fst (fuse_scored_arms [(va, True), (ka, True)]))"
    using assms(2) by (simp add: mset_map)
  have ids: "distinct (map (ht_event_id \<circ> fst) ?c)" "set (map (ht_event_id \<circ> fst) ?c) = fst ` set va \<union> fst ` set ka"
    unfolding scored_ids using mset_eq_imp_distinct_iff [OF fused] fuse_distinct mset_eq_setD [OF fused] fuse_ids by auto
  have "distinct (map (ht_event_id \<circ> fst) ?all)"
    using ids(1) mset_eq_imp_distinct_iff [of "map (ht_event_id \<circ> fst) (sort_desc (candidate_key rc g) ?c)" "map (ht_event_id \<circ> fst) ?c"]
    by (simp add: mset_map distinct_map_filter)
  then have d: "distinct (map ht_event_id hits)"
    unfolding h by (simp add: take_map [symmetric] distinct_take flip: map_map)
  have rest: "c \<in> set ?top \<or> length hits = k \<and> list_all (\<lambda>p. candidate_key rc g c \<le> candidate_key rc g p) ?top"
    if "c \<in> set ?c" "may_surface opts su (fst c)" for c
  proof (cases "c \<in> set ?top")
    case False
    have "set ?all = set ?top \<union> set (drop k ?all)" by (metis append_take_drop_id set_append)
    moreover have "c \<in> set ?all" unfolding all using that by simp
    ultimately have c: "c \<in> set (drop k ?all)" using False by blast
    then have "length ?top = k" by (metis drop_all length_take list.set(1) empty_iff min.absorb2 nat_le_linear)
    moreover have "sorted_wrt (\<lambda>p q. candidate_key rc g q \<le> candidate_key rc g p) (?top @ drop k ?all)"
      using sorted by simp
    ultimately show ?thesis using c unfolding h sorted_wrt_append by (simp add: list_all_iff)
  qed simp
  have top: "p \<in> set ?c \<and> may_surface opts su (fst p)" if "p \<in> set ?top" for p
    using that all set_take_subset by fastforce
  have hit: "\<exists>p\<in>set ?c. x = fst p \<and> may_surface opts su x" if "x \<in> set hits" for x
    using that top unfolding h by (metis (no_types, lifting) imageE set_map)
  then have "list_all (may_surface opts su) hits" unfolding list_all_iff by blast
  moreover have "list_all (\<lambda>h. ht_sources h = (if ht_event_id h \<in> fst ` set va then [Vector] else [])
         @ (if ht_event_id h \<in> fst ` set ka then [Keyword] else [])) hits"
    unfolding list_all_iff using hit scored_sources by blast
  moreover have "length hits \<le> k" by (simp add: h)
  moreover have "set ?top \<subseteq> set ?c" using top by blast
  moreover have "ht_event_id ` fst ` set ?c = fst ` set va \<union> fst ` set ka" using ids(2) by (simp add: image_image)
  moreover have "\<forall>c\<in>set ?c. may_surface opts su (fst c) \<longrightarrow> c \<in> set ?top
      \<or> length hits = k \<and> list_all (\<lambda>p. candidate_key rc g c \<le> candidate_key rc g p) ?top"
    using rest by blast
  moreover have "sorted_wrt (\<lambda>p q. candidate_key rc g q \<le> candidate_key rc g p) ?top"
    using sorted by (rule sorted_wrt_take)
  ultimately show ?thesis
    using su h d by (intro exI [of _ su] exI [of _ ?top] conjI) assumption+
qed

section \<open>What was forgotten stays forgotten\<close>

lemma recall_hit:
  assumes "recall rc now g rt query k opts = Inr hits" "h \<in> set hits"
  obtains su kinds where "surface_of g kinds = Inr su" "may_surface opts su h"
    "ht_kind h = (case lookup_row (g_log g) (ht_event_id h) of None \<Rightarrow> [] | Some r \<Rightarrow> r_type r)"
    "ht_kind h \<noteq> [] \<Longrightarrow> ht_kind h \<in> set kinds"
proof -
  obtain va ka where run: "recall_arms rc now g va ka k opts = Inr hits"
    using assms(1) by (auto simp: recall_def rbind_eq_Inr)
  let ?c = "scored_candidates rc now g va ka opts"
  let ?ids = "map (ht_event_id \<circ> fst) ?c"
  obtain su where su: "candidate_surface rc now g va ka opts = Inr su"
    and hits: "hits = take k (map fst (filter (may_surface opts su \<circ> fst) (sort_desc (candidate_key rc g) ?c)))"
    using run by (rule recall_arms_Inr)
  have "h \<in> set (map fst (filter (may_surface opts su \<circ> fst) (sort_desc (candidate_key rc g) ?c)))"
    using assms(2) unfolding hits by (rule in_set_takeD)
  then obtain p where p: "p \<in> set ?c" "h = fst p" "may_surface opts su h" by auto
  have kind: "ht_kind h = (case lookup_row (g_log g) (ht_event_id h) of None \<Rightarrow> [] | Some r \<Rightarrow> r_type r)"
    using scored_kind [OF p(1)] p(2) by simp
  have "ht_event_id h \<in> set ?ids" using p by auto
  moreover from this have "ht_kind h \<noteq> [] \<Longrightarrow> candidate_event_types (g_log g) ?ids (ht_event_id h) = Some (ht_kind h)"
    unfolding kind by (auto simp: candidate_event_types_def split: option.splits)
  ultimately have "ht_kind h \<noteq> [] \<Longrightarrow> ht_kind h \<in> set (List.map_filter (candidate_event_types (g_log g) ?ids) ?ids)"
    unfolding set_map_filter by blast
  then show ?thesis
    using that [of "List.map_filter (candidate_event_types (g_log g) ?ids) ?ids" su] su p(3) kind
    by (simp add: candidate_surface_def Let_def)
qed

text \<open>C30. What was forgotten never surfaces, whatever the two indexes still hold and whatever the query is: a
  recalled note is neither superseded nor retired, a recalled capture is the current one of a session that was not
  deleted, a recalled page is the current one of its topic, and a recalled file is the current version under a
  grant that is active.\<close>

theorem recall_forgets:
  assumes "recall rc now g rt query k opts = Inr hits" "h \<in> set hits" "session_events_ordered (g_log g) = Inr evs"
  shows "(ht_kind h = MEMORY_T \<longrightarrow> ht_event_id h \<notin> superseded_ids evs \<union> sm_retired_notes (session_marks_of evs))
    \<and> (ht_kind h = SESSION_CAPTURED_T \<longrightarrow> (\<exists>cs\<in>set (fst (fold_sessions evs)). cs_event_id cs = ht_event_id h
         \<and> cs_session_id cs \<notin> sm_deleted (session_marks_of evs)))
    \<and> (ht_kind h = PAGE_T \<longrightarrow> \<not> ro_exclude_pages opts \<and> ht_event_id h \<in> p_event_id ` set (t_pages (g_tables g)))
    \<and> (ht_kind h = FILE_INGESTED_T \<longrightarrow> \<not> ro_exclude_files opts \<and> ht_event_id h \<in> current_files_active (g_tables g))"
proof -
  obtain su kinds where su: "surface_of g kinds = Inr su" "may_surface opts su h" "ht_kind h \<noteq> [] \<Longrightarrow> ht_kind h \<in> set kinds"
    using recall_hit [OF assms(1,2)] by metis
  have "snd (fold_sessions evs) = session_marks_of evs" by (simp add: fold_sessions_def Let_def)
  then have marks: "su_superseded su = sm_superseded (session_marks_of evs)" "su_retired_notes su = sm_retired_notes (session_marks_of evs)"
    "su_sessions su = cs_event_id ` set (fst (fold_sessions evs))"
    if "MEMORY_T \<in> set kinds \<or> SESSION_CAPTURED_T \<in> set kinds"
    using su(1) that assms(3) by (auto simp: surface_of_def Let_def split_def)
  have "su_pages su \<subseteq> p_event_id ` set (t_pages (g_tables g))" "su_files su \<subseteq> current_files_active (g_tables g)"
    using su(1) by (auto simp: surface_of_def Let_def split_def rbind_eq_Inr split: if_splits)
  moreover have "superseded_ids evs = sm_superseded (session_marks_of evs)" using superseded_iff by blast
  ultimately show ?thesis
    using su(2,3) marks current_not_deleted [of _ evs] by (auto simp: may_surface_def) blast?
qed

lemma session_events_append:
  assumes "append_to k st ev g = (g', Inr i)" "ev_meta ev = None" "session_events_ordered (g_log g) = Inr evs" "ev_type ev \<in> set session_types"
  obtains ev' where "session_events_ordered (g_log g') = Inr (evs @ [ev'])" "ev_type ev' = ev_type ev" "ev_content ev' = ev_content ev"
  using append_to_events [OF assms(1,2) _ assms(3) [unfolded session_events_types]] assms(4) that session_events_types
  by (metis empty_iff list.set(1))

text \<open>C31. Retiring takes effect at once: after a successful \<open>retire_memory\<close> no recall returns the note, although the
  note keeps its row in both indexes.\<close>

theorem retired_note_not_recalled:
  assumes "retire_memory k st target pid g = (g', Inr i)" "\<forall>r\<in>set (g_log g). row_ok r"
    and "recall rc now g' rt query n opts = Inr hits"
  shows "target \<notin> ht_event_id ` set hits"
proof
  assume "target \<in> ht_event_id ` set hits"
  then obtain h where h: "h \<in> set hits" "ht_event_id h = target" by blast
  let ?ev = "draft_event NOTE_RETIRED_T (jobj ((''retires'', JStr target) # via_conflict pid)) None"
  have ret: "assert_retirable_note (g_log g) target = Inr ()" "append_to k st ?ev g = (g', Inr i)"
    using assms(1) by (auto simp: retire_memory_def split: sum.splits)
  obtain evs where evs: "session_events_ordered (g_log g) = Inr evs"
    using ret(1) by (auto simp: assert_retirable_note_def rbind_eq_Inr)
  obtain r ev where r: "lookup_row (g_log g) target = Some r" "r_payload r = Some ev" "ev_type ev = MEMORY_T"
    using ret(1) by (auto simp: assert_retirable_note_def assert_note_event_def event_by_id_def rbind_eq_Inr split: option.splits if_splits)
  have "r \<in> set (g_log g)" using r(1) by (simp add: lookup_row_def find_SomeD)
  then have "r_type r = MEMORY_T" using r(2,3) assms(2) by (auto simp: row_ok_iff)
  moreover obtain log where log: "append (k_crypto k) (k_key k) st ?ev (g_log g) = Inr (i, log)" "g' = g\<lparr>g_log := log\<rparr>"
    using ret(2) by (auto simp: append_to_Inr)
  obtain q where "log = g_log g @ [q]" using append_row [OF log(1)] by metis
  then have "lookup_row (g_log g') target = Some r" using r(1) log(2) by (simp add: lookup_row_append)
  ultimately have kind: "ht_kind h = MEMORY_T"
    using recall_hit [OF assms(3) h(1)] h(2) by (metis option.simps(5))
  have "NOTE_RETIRED_T \<in> set session_types" by (simp add: session_types_def)
  then obtain ev' where ev': "session_events_ordered (g_log g') = Inr (evs @ [ev'])" "ev_type ev' = NOTE_RETIRED_T"
    "ev_content ev' = jobj ((''retires'', JStr target) # via_conflict pid)"
    using session_events_append [OF ret(2) _ evs] by auto
  have "target \<in> sm_retired_notes (session_marks_of (evs @ [ev']))"
    unfolding marks_snoc retired_mark_step using ev'(2,3) get_str_retires by simp
  then show False
    using recall_forgets [OF assms(3) h(1) ev'(1)] kind h(2) by simp
qed

section \<open>Recalls on concrete logs\<close>

definition demo_recaller :: "nat recaller" where
  "demo_recaller = \<lparr>rc_embedder = \<lparr>em_embed = \<lambda>ts. Inr (map length ts), em_model = ''m'', em_dim = 1\<rparr>,
     rc_knn = \<lambda>pts v n ef. map (\<lambda>(slot, _). (slot, Fin False 0)) pts,
     rc_bm25 = \<lambda>rows q. Inr (map (\<lambda>(n, _). (n, Fin True 1)) rows),
     rc_exp = \<lambda>_. Fin False 1, rc_parse = \<lambda>_. None, rc_order = \<lambda>m. m\<rparr>"

definition demo_opts :: recall_options where
  "demo_opts = \<lparr>ro_pinned = [], ro_graph_seeds = [], ro_exclude_pages = False, ro_exclude_files = False\<rparr>"

definition demo_indexed :: "nat retrieval" where
  "demo_indexed = fst (rebuild_indexes [] (rc_embedder demo_recaller) (g_log demo_engine)
     \<lparr>rt_vectors = [\<lparr>vr_id = ''a'', vr_model = ''m'', vr_dim = 1, vr_vec = 2\<rparr>], rt_entity_vectors = [], rt_index = None,
      rt_entity_index = None, rt_fts = [], rt_fts_map = []\<rparr>)"

abbreviation "demo_recall g \<equiv> recall demo_recaller 0 g demo_indexed ''hi'' 5 demo_opts"

abbreviation "demo_keyword_arm \<equiv> [(''a'', Fin True 1)]"

lemma demo_recall_arms:
  "demo_recall g = recall_arms demo_recaller 0 g [(''a'', Fin False 0)] demo_keyword_arm 5 demo_opts"
proof -
  have "embed_one (rc_embedder demo_recaller) ''hi'' = Inr 2" by code_simp
  moreover have "vector_search (rc_knn demo_recaller) demo_indexed 2 FUSION_FETCH = Inr [(''a'', Fin False 0)]" by code_simp
  moreover have "keyword_search (rc_bm25 demo_recaller) demo_indexed ''hi'' FUSION_FETCH = Inr demo_keyword_arm" by code_simp
  ultimately show ?thesis by (simp add: recall_def resolve_arms_def)
qed

lemma recall_arms_ok:
  assumes "session_events_ordered (g_log g) = Inr evs"
  shows "\<exists>hits. recall_arms rc now g va ka k opts = Inr hits"
  using assms by (auto simp: recall_arms_def surface_of_def Let_def split_def)

lemma demo_recalled:
  obtains h where "demo_recall demo_engine = Inr [h]" "ht_event_id h = ''a''" "ht_sources h = [Vector, Keyword]" "ht_kind h = MEMORY_T"
proof -
  have "map_sum id (map (\<lambda>h. (ht_event_id h, ht_sources h, ht_kind h)))
      (recall_arms demo_recaller 0 demo_engine [(''a'', Fin False 0)] demo_keyword_arm 5 demo_opts)
    = Inr [(''a'', [Vector, Keyword], MEMORY_T)]" by code_simp
  then show ?thesis
    using that unfolding demo_recall_arms [symmetric] by (cases "demo_recall demo_engine") (auto simp: map_eq_Cons_conv)
qed

theorem recall_forgets_witness:
  "\<exists>h. demo_recall demo_engine = Inr [h] \<and> ht_event_id h = ''a'' \<and> ht_sources h = [Vector, Keyword]
     \<and> ''a'' \<notin> superseded_ids [] \<union> sm_retired_notes (session_marks_of [])"
proof (rule demo_recalled)
  fix h assume h: "demo_recall demo_engine = Inr [h]" "ht_event_id h = ''a''" "ht_sources h = [Vector, Keyword]" "ht_kind h = MEMORY_T"
  have "session_events_ordered (g_log demo_engine) = Inr []" by code_simp
  then have "''a'' \<notin> superseded_ids [] \<union> sm_retired_notes (session_marks_of [])"
    using recall_forgets [OF h(1), of h "[]"] h(2,4) by simp
  then show ?thesis using h by blast
qed

theorem retired_note_not_recalled_witness:
  "\<exists>hits. demo_recall demo_retired = Inr hits \<and> ''a'' \<notin> ht_event_id ` set hits"
proof -
  have "snd (retire_memory demo_settings (''r'', ''t'') ''a'' None demo_engine) = Inr ''r''" by code_simp
  then have ret: "retire_memory demo_settings (''r'', ''t'') ''a'' None demo_engine = (demo_retired, Inr ''r'')"
    by (simp add: demo_retired_def prod_eq_iff)
  have "list_all row_ok (g_log demo_engine)" by code_simp
  then have ok: "\<forall>r\<in>set (g_log demo_engine). row_ok r" by (simp add: list_all_iff)
  have "is_ok (session_events_ordered (g_log demo_retired))" by code_simp
  then obtain evs where "session_events_ordered (g_log demo_retired) = Inr evs" by (auto simp: is_ok_iff)
  then obtain hits where "demo_recall demo_retired = Inr hits" unfolding demo_recall_arms using recall_arms_ok by blast
  then show ?thesis using retired_note_not_recalled [OF ret ok] by blast
qed

definition demo_arm :: "(string \<times> float) list" where
  "demo_arm = [(''a'', Fin False 0), (''b'', Fin False 0)]"

theorem recall_deterministic_witness:
  "recall_arms (demo_recaller\<lparr>rc_order := rev\<rparr>) 0 demo_engine (rev demo_arm) [(''a'', Fin True 1)] 5 demo_opts
     = recall_arms demo_recaller 0 demo_engine demo_arm [(''a'', Fin True 1)] 5 demo_opts"
  by (rule recall_deterministic) (simp_all add: demo_arm_def demo_recaller_def)

theorem recall_top_k_witness:
  "\<exists>su top. candidate_surface demo_recaller 0 demo_engine demo_arm [] demo_opts = Inr su
     \<and> projr (recall_arms demo_recaller 0 demo_engine demo_arm [] 1 demo_opts) = map fst top
     \<and> sorted_wrt (\<lambda>p q. candidate_key demo_recaller demo_engine q \<le> candidate_key demo_recaller demo_engine p) top"
proof -
  have "is_ok (recall_arms demo_recaller 0 demo_engine demo_arm [] 1 demo_opts)" by code_simp
  then have "recall_arms demo_recaller 0 demo_engine demo_arm [] 1 demo_opts
      = Inr (projr (recall_arms demo_recaller 0 demo_engine demo_arm [] 1 demo_opts))" by (auto simp: is_ok_iff)
  from recall_top_k [OF this] show ?thesis by (simp add: demo_recaller_def) blast
qed

end
