(* ===== verification/Chunks.thy ===== *)
theory Chunks
  imports Prelude
begin

text \<open>
  Text chunking (\<open>chunk.rs\<close>).  The code works on \<open>chars()\<close>, so a text here is the list of its Unicode scalar
  values.
\<close>

section \<open>Splitting into blocks\<close>

type_synonym chars = "nat list"

abbreviation "CHUNK_BUDGET_CHARS \<equiv> (600 :: nat)"
abbreviation "CHUNK_OVERLAP_CHARS \<equiv> (100 :: nat)"

definition LF2 :: chars where
  "LF2 = [10, 10]"

definition CRLF2 :: chars where
  "CRLF2 = [13, 10, 13, 10]"

abbreviation "BLOCK_SEPARATOR \<equiv> LF2"

text \<open>\<open>char::is_whitespace\<close>, \<open>str::trim\<close> and \<open>str::split\<close> with a non-empty pattern.\<close>

definition is_whitespace :: "nat \<Rightarrow> bool" where
  "is_whitespace c \<longleftrightarrow> 9 \<le> c \<and> c \<le> 13 \<or> c = 32 \<or> c = 133 \<or> c = 160 \<or> c = 5760 \<or> 8192 \<le> c \<and> c \<le> 8202
     \<or> c = 8232 \<or> c = 8233 \<or> c = 8239 \<or> c = 8287 \<or> c = 12288"

definition trim_chars :: "chars \<Rightarrow> chars" where
  "trim_chars s = rev (dropWhile is_whitespace (rev (dropWhile is_whitespace s)))"

function split_on :: "chars \<Rightarrow> chars \<Rightarrow> chars \<Rightarrow> chars list" where
  "split_on p acc [] = [rev acc]"
| "split_on p acc (c # s) =
     (if p \<noteq> [] \<and> take (length p) (c # s) = p then rev acc # split_on p [] (drop (length p) (c # s))
      else split_on p (c # acc) s)"
  by pat_completeness auto
termination
  by (relation "measure (\<lambda>(_, _, s). length s)") (auto simp: length_greater_0_conv [symmetric] simp del: length_greater_0_conv)

definition split_into_blocks :: "chars \<Rightarrow> chars list" where
  "split_into_blocks text = filter (\<lambda>b. b \<noteq> [])
     (map trim_chars (concat (map (split_on CRLF2 []) (split_on LF2 [] text))))"

section \<open>Packing\<close>

definition flush :: "chars \<Rightarrow> chars list \<Rightarrow> chars list" where
  "flush current chunks = (if current = [] then chunks else chunks @ [current])"

definition overlap_tail :: "chars list \<Rightarrow> chars" where
  "overlap_tail chunks = (if chunks = [] then []
     else drop (length (last chunks) - CHUNK_OVERLAP_CHARS) (last chunks))"

lemma length_overlap_tail: "length (overlap_tail chunks) \<le> CHUNK_OVERLAP_CHARS"
  by (auto simp: overlap_tail_def)

text \<open>The first argument is the part of the block from the position on.\<close>

function emit_block_with_overlap :: "chars \<Rightarrow> chars list \<Rightarrow> chars list" where
  "emit_block_with_overlap rest chunks =
     (if rest = [] then chunks
      else let carried = overlap_tail chunks; room = CHUNK_BUDGET_CHARS - length carried in
        emit_block_with_overlap (drop room rest) (chunks @ [carried @ take room rest]))"
  by pat_completeness auto
termination
proof (relation "measure (length \<circ> fst)")
  fix rest :: chars and chunks x xa
  assume "rest \<noteq> []" "x = overlap_tail chunks" "xa = CHUNK_BUDGET_CHARS - length x"
  then show "((drop xa rest, chunks @ [x @ take xa rest]), (rest, chunks)) \<in> measure (length \<circ> fst)"
    using length_overlap_tail [of chunks] by (cases rest) auto
qed simp

declare emit_block_with_overlap.simps [simp del]

definition pack_block :: "chars \<Rightarrow> chars \<times> chars list \<Rightarrow> chars \<times> chars list" where
  "pack_block block = (\<lambda>(current, chunks).
     let joined_len = length current + (if current = [] then 0 else length BLOCK_SEPARATOR) + length block in
     if joined_len \<le> CHUNK_BUDGET_CHARS
     then ((if current = [] then block else current @ BLOCK_SEPARATOR @ block), chunks)
     else ([], emit_block_with_overlap block (flush current chunks)))"

definition chunk_text :: "chars \<Rightarrow> chars list" where
  "chunk_text text =
     (if trim_chars text = [] then []
      else if length text \<le> CHUNK_BUDGET_CHARS then [text]
      else case fold pack_block (split_into_blocks text) ([], []) of (current, chunks) \<Rightarrow> flush current chunks)"

section \<open>Nothing is lost and nothing is too long\<close>

text \<open>A chunk is what it carries over from the chunk before, which is a suffix of that, followed by fresh text.\<close>

definition chunks_of :: "(chars \<times> chars) list \<Rightarrow> chars list" where
  "chunks_of ps = map (\<lambda>(carried, fresh). carried @ fresh) ps"

definition carries :: "(chars \<times> chars) list \<Rightarrow> bool" where
  "carries ps \<longleftrightarrow> (\<forall>i < length ps. fst (ps ! i) = [] \<or> fst (ps ! i) = overlap_tail (take i (chunks_of ps)))"

definition fits :: "chars \<Rightarrow> bool" where
  "fits c \<longleftrightarrow> c \<noteq> [] \<and> length c \<le> CHUNK_BUDGET_CHARS"

text \<open>The blocks one after the other, some of them joined by a separator.\<close>

definition joined :: "chars list \<Rightarrow> chars \<Rightarrow> bool" where
  "joined blocks s \<longleftrightarrow> (\<exists>seps. length seps = length blocks \<and> set seps \<subseteq> {[], BLOCK_SEPARATOR} \<and> s = concat (map2 (@) seps blocks))"

lemma joined_snoc: "joined blocks s \<Longrightarrow> sep \<in> {[], BLOCK_SEPARATOR} \<Longrightarrow> joined (blocks @ [b]) (s @ sep @ b)"
  unfolding joined_def
proof (elim exE conjE)
  fix seps assume "length seps = length blocks" "set seps \<subseteq> {[], BLOCK_SEPARATOR}" "s = concat (map2 (@) seps blocks)" "sep \<in> {[], BLOCK_SEPARATOR}"
  then show "\<exists>seps. length seps = length (blocks @ [b]) \<and> set seps \<subseteq> {[], BLOCK_SEPARATOR} \<and> s @ sep @ b = concat (map2 (@) seps (blocks @ [b]))"
    by (intro exI [of _ "seps @ [sep]"]) simp
qed

lemma carries_snoc:
  assumes "carries ps" "c = [] \<or> c = overlap_tail (chunks_of ps)"
  shows "carries (ps @ [(c, f)])"
  using assms by (auto simp: carries_def nth_append chunks_of_def less_Suc_eq)

lemma emit_keeps:
  assumes "chunks = chunks_of ps" "carries ps" "list_all fits chunks"
  shows "\<exists>ps'. emit_block_with_overlap rest chunks = chunks_of (ps @ ps') \<and> carries (ps @ ps')
    \<and> list_all fits (emit_block_with_overlap rest chunks) \<and> concat (map snd ps') = rest"
  using assms
proof (induction rest chunks arbitrary: ps rule: emit_block_with_overlap.induct)
  case (1 rest chunks)
  show ?case
  proof (cases "rest = []")
    case True
    then show ?thesis using "1.prems" by (intro exI [of _ "[]"]) (simp add: emit_block_with_overlap.simps)
  next
    case False
    let ?c = "overlap_tail chunks" and ?room = "CHUNK_BUDGET_CHARS - length (overlap_tail chunks)"
    let ?p = "(?c, take ?room rest)"
    have step: "emit_block_with_overlap rest chunks = emit_block_with_overlap (drop ?room rest) (chunks @ [?c @ take ?room rest])"
      by (subst emit_block_with_overlap.simps) (simp add: False Let_def)
    have "fits (?c @ take ?room rest)"
      using False length_overlap_tail [of chunks] by (simp add: fits_def)
    then obtain ps' where ps': "emit_block_with_overlap rest chunks = chunks_of ((ps @ [?p]) @ ps')" "carries ((ps @ [?p]) @ ps')"
      "list_all fits (emit_block_with_overlap rest chunks)" "concat (map snd ps') = drop ?room rest"
      using "1.IH" [OF False refl refl, of "ps @ [?p]"] "1.prems" carries_snoc [of ps ?c "take ?room rest"] step
      by (auto simp: chunks_of_def)
    then show ?thesis by (intro exI [of _ "?p # ps'"]) simp
  qed
qed

lemma flush_keeps:
  assumes "chunks = chunks_of ps" "carries ps" "list_all fits chunks" "length current \<le> CHUNK_BUDGET_CHARS"
  obtains ps' where "flush current chunks = chunks_of ps'" "carries ps'" "list_all fits (flush current chunks)"
    "concat (map snd ps') = concat (map snd ps) @ current"
proof (cases "current = []")
  case True
  then show ?thesis using that [of ps] assms by (simp add: flush_def)
next
  case False
  then show ?thesis
    using that [of "ps @ [([], current)]"] assms carries_snoc [of ps "[]" current]
    by (simp add: flush_def chunks_of_def fits_def)
qed

lemma pack_keeps:
  assumes "fold pack_block blocks ([], []) = (current, chunks)"
  shows "\<exists>ps. chunks = chunks_of ps \<and> carries ps \<and> list_all fits chunks \<and> length current \<le> CHUNK_BUDGET_CHARS
    \<and> joined blocks (concat (map snd ps) @ current)"
  using assms
proof (induction blocks arbitrary: current chunks rule: rev_induct)
  case Nil
  then show ?case by (intro exI [of _ "[]"]) (simp add: chunks_of_def carries_def joined_def)
next
  case (snoc b blocks)
  obtain cur ch where f: "fold pack_block blocks ([], []) = (cur, ch)" by fastforce
  obtain ps where ps: "ch = chunks_of ps" "carries ps" "list_all fits ch" "length cur \<le> CHUNK_BUDGET_CHARS"
    "joined blocks (concat (map snd ps) @ cur)" using snoc.IH [OF f] by blast
  have run: "pack_block b (cur, ch) = (current, chunks)" using snoc.prems f by simp
  have sep: "(if cur = [] then [] else BLOCK_SEPARATOR) \<in> {[], BLOCK_SEPARATOR}" by simp
  show ?case
  proof (cases "length cur + (if cur = [] then 0 else length BLOCK_SEPARATOR) + length b \<le> CHUNK_BUDGET_CHARS")
    case True
    then have "chunks = ch" "current = cur @ (if cur = [] then [] else BLOCK_SEPARATOR) @ b" "length current \<le> CHUNK_BUDGET_CHARS"
      using run by (auto simp: pack_block_def Let_def split: if_splits)
    then show ?thesis using ps joined_snoc [OF ps(5) sep, of b] by (intro exI [of _ ps]) simp
  next
    case False
    then have c: "current = []" "chunks = emit_block_with_overlap b (flush cur ch)"
      using run by (auto simp: pack_block_def Let_def split: if_splits)
    obtain ps1 where ps1: "flush cur ch = chunks_of ps1" "carries ps1" "list_all fits (flush cur ch)"
      "concat (map snd ps1) = concat (map snd ps) @ cur" using flush_keeps [OF ps(1-4)] by metis
    obtain ps2 where ps2: "chunks = chunks_of (ps1 @ ps2)" "carries (ps1 @ ps2)" "list_all fits chunks" "concat (map snd ps2) = b"
      using emit_keeps [OF ps1(1-3), of b] unfolding c(2) [symmetric] by blast
    have "joined (blocks @ [b]) ((concat (map snd ps) @ cur) @ [] @ b)" using joined_snoc [OF ps(5)] by blast
    then show ?thesis using ps2 ps1(4) c(1) by (intro exI [of _ "ps1 @ ps2"]) simp
  qed
qed

text \<open>C40. Chunking loses nothing and keeps the budget: every chunk holds 1 to 600 characters; it is what it carries over,
  nothing or the last 100 characters of the chunk before, followed by fresh text; and the fresh texts one after the
  other are the text itself when it fits one chunk, and otherwise the blocks in order, some joined by a separator.\<close>

theorem chunk_text_complete:
  assumes "trim_chars text \<noteq> []"
  shows "\<exists>ps. chunk_text text = chunks_of ps \<and> carries ps \<and> list_all fits (chunk_text text)
    \<and> (if length text \<le> CHUNK_BUDGET_CHARS then concat (map snd ps) = text
       else joined (split_into_blocks text) (concat (map snd ps)))"
proof (cases "length text \<le> CHUNK_BUDGET_CHARS")
  case True
  have "text \<noteq> []" using assms by (auto simp: trim_chars_def)
  then show ?thesis using True assms
    by (intro exI [of _ "[([], text)]"]) (simp add: chunk_text_def chunks_of_def carries_def fits_def)
next
  case False
  obtain current chunks where f: "fold pack_block (split_into_blocks text) ([], []) = (current, chunks)" by fastforce
  obtain ps where ps: "chunks = chunks_of ps" "carries ps" "list_all fits chunks" "length current \<le> CHUNK_BUDGET_CHARS"
    "joined (split_into_blocks text) (concat (map snd ps) @ current)" using pack_keeps [OF f] by blast
  have "chunk_text text = flush current chunks" using assms False f by (simp add: chunk_text_def)
  then show ?thesis using flush_keeps [OF ps(1-4)] ps(5) False by metis
qed

section \<open>A chunk that carries nothing\<close>

lemma split_on_run:
  assumes "p \<noteq> []" "hd p \<noteq> x"
  shows "split_on p acc (replicate n x @ s) = split_on p (replicate n x @ acc) s"
proof (induction n arbitrary: acc)
  case (Suc n)
  have "take (length p) (x # replicate n x @ s) \<noteq> p" using assms by (cases p) auto
  then have "split_on p acc (x # replicate n x @ s) = split_on p (x # acc) (replicate n x @ s)"
    by (simp only: split_on.simps) simp
  then show ?case using Suc.IH [of "x # acc"] by (simp add: replicate_app_Cons_same)
qed simp

lemma split_on_hit: "p \<noteq> [] \<Longrightarrow> split_on p acc (p @ s) = rev acc # split_on p [] s"
  by (cases p) auto

lemma dropWhile_run: "\<not> P x \<Longrightarrow> dropWhile P (replicate n x) = replicate n x"
  by (cases n) simp_all

text \<open>Three paragraphs of 400 characters: the second does not fit beside the first and starts a chunk with the last 100
  characters of the first; the third fits an empty chunk, so it becomes one without any of the text before it.\<close>

definition three_paragraphs :: chars where
  "three_paragraphs = replicate 400 97 @ LF2 @ replicate 400 98 @ LF2 @ replicate 400 99"

lemma three_blocks: "split_into_blocks three_paragraphs = [replicate 400 97, replicate 400 98, replicate 400 99]"
proof -
  have hit: "split_on LF2 acc (LF2 @ s) = rev acc # split_on LF2 [] s" for acc s
    by (rule split_on_hit) (simp add: LF2_def)
  have run: "split_on LF2 acc (replicate n x @ s) = split_on LF2 (replicate n x @ acc) s" if "x \<noteq> 10" for acc n x s
    using that by (intro split_on_run) (simp_all add: LF2_def)
  have last: "split_on LF2 [] (replicate n x) = [replicate n x]" if "x \<noteq> 10" for n x
    using run [OF that, of "[]" n "[]"] by simp
  have lf: "split_on LF2 [] three_paragraphs = [replicate 400 97, replicate 400 98, replicate 400 99]"
    unfolding three_paragraphs_def by (simp add: run hit last)
  have cr: "split_on CRLF2 [] (replicate n x) = [replicate n x]" if "x \<noteq> 13" for n x
    using split_on_run [of CRLF2 x "[]" n "[]"] that by (simp add: CRLF2_def)
  have tr: "trim_chars (replicate n x) = replicate n x" if "\<not> is_whitespace x" for n x
    using that by (simp add: trim_chars_def dropWhile_run)
  show ?thesis
    by (simp add: split_into_blocks_def lf cr tr is_whitespace_def)
qed

lemma three_paragraphs_text: "trim_chars three_paragraphs \<noteq> []" "length three_paragraphs = 1204"
proof -
  have "97 \<in> set three_paragraphs" by (simp add: three_paragraphs_def)
  moreover have "\<not> is_whitespace 97" by (simp add: is_whitespace_def)
  ultimately have "dropWhile is_whitespace three_paragraphs \<noteq> []" "hd three_paragraphs = 97"
    by (auto simp: dropWhile_eq_Nil_conv three_paragraphs_def)
  moreover have "97 \<in> set (dropWhile is_whitespace three_paragraphs)"
    using \<open>97 \<in> set three_paragraphs\<close> \<open>\<not> is_whitespace 97\<close>
    by (metis Un_iff set_append set_takeWhileD takeWhile_dropWhile_id)
  ultimately show "trim_chars three_paragraphs \<noteq> []"
    using \<open>\<not> is_whitespace 97\<close> by (auto simp: trim_chars_def dropWhile_eq_Nil_conv)
  show "length three_paragraphs = 1204" by (simp add: three_paragraphs_def LF2_def)
qed

lemma chunk_without_overlap:
  "chunk_text three_paragraphs = [replicate 400 97, replicate 100 97 @ replicate 400 98, replicate 400 99]"
proof -
  have "emit_block_with_overlap (replicate 400 98) [replicate 400 97] = [replicate 400 97, replicate 100 97 @ replicate 400 98]"
    by (subst emit_block_with_overlap.simps) (simp add: emit_block_with_overlap.simps [of "[]"] overlap_tail_def)
  then show ?thesis
    using three_paragraphs_text unfolding chunk_text_def three_blocks by (simp add: pack_block_def flush_def)
qed

theorem chunk_text_complete_witness:
  "\<exists>ps. [replicate 400 97, replicate 100 97 @ replicate 400 98, replicate 400 99] = chunks_of ps
     \<and> joined [replicate 400 97, replicate 400 98, replicate 400 99] (concat (map snd ps))"
  using chunk_text_complete [OF three_paragraphs_text(1)] three_paragraphs_text(2)
  unfolding chunk_without_overlap three_blocks by auto

end
