(* ===== verification/Spec2Isabelle.thy ===== *)
theory Spec2Isabelle
  imports Undo Conflicts Projections AgentPolicy InboxClient Server Cycles Reembed Recall Chunks Prompts
begin

text \<open>
  This library models the Rust crates of the repository: the memory engine \<open>crates/bossclaw-core\<close> (a signed
  event log, the projections and indexes derived from it, and the operations that act on the user's files), the
  protocol of its daemon (\<open>crates/bossclawd-proto\<close> and \<open>crates/bossclawd/src/server.rs\<close>), and the agent inbox of
  \<open>crates/air-rs/src/inbox\<close>.  Everything is a definition that computes; the theorems are proved from
  the definitions alone.  All file names below are under \<open>src/crates\<close>.

  \<^bold>\<open>How the program hangs together.\<close>  Every fact the engine knows is a row of the event log.
  \<open>append\<close> is the only way in: it stamps an event that cites external material, hashes and signs it and
  links it to the row before.  Graph, notes, sessions, conflicts, grants and settings are folds of the
  log; vectors and keyword rows are derived tables that can be rebuilt from it.  A write to a user's file goes
  through \<open>propose_write\<close>, which gives a verdict from the grants, the mandates and the origin of the cited
  events, and then through \<open>execute_write\<close>, which checks the verdict again, captures the old bytes, replaces
  the file atomically and appends the record that \<open>undo_write\<close> later inverts.  Recall reads the indexes and filters
  their hits by the folds.  The detection cycle compares memories and appends conflict proposals, which
  \<open>resolve_conflict\<close> closes.  Other processes reach the engine through the daemon's connection
  handler.  The inbox is separate: a socket client feeds frames to a replayer that removes duplicates, and
  the policy file decides which answers may be sent without a human.

  \<^bold>\<open>Theories and sources.\<close>
  \<^item> \<open>Prelude\<close>, \<open>Ordmap\<close>, \<open>Json\<close>, \<open>Floats\<close>: results of fallible functions, \<open>BTreeMap\<close> (with the contract
    \<open>sorted_map\<close> that the folds use, interpreted on the model of the map), \<open>serde_json::Value\<close>, and \<open>f32\<close> and \<open>f64\<close>.
  \<^item> \<open>Event\<close>, \<open>EventLog\<close>: \<open>event.rs\<close>, \<open>sign.rs\<close>, \<open>error.rs\<close>, \<open>highwater.rs\<close> and the append, read and verify
    functions of \<open>log.rs\<close>.  The events table is the list of its rows.
  \<^item> \<open>Graph\<close>, \<open>Projections\<close>: the folds of \<open>graph.rs\<close> (read and write grants share the contract
    \<open>grant_registry\<close>), the tables that \<open>rebuild_graph\<close> fills and the edge queries.
  \<^item> \<open>FileSystem\<close>, \<open>Actuator\<close>, \<open>Engine\<close>, \<open>Execute\<close>, \<open>Undo\<close>: the file system as a state, \<open>actuator.rs\<close>, and the
    grants, the write gate, the executor and the undo stack of \<open>log.rs\<close>.  The record \<open>engine\<close> is what one \<open>EventLog\<close> owns.
  \<^item> \<open>Proposals\<close>, \<open>Sessions\<close>, \<open>Conflicts\<close>, \<open>Config\<close>: the write proposal queue, captured sessions and notes,
    conflict proposals and their resolution, and the settings, all of \<open>log.rs\<close>.
  \<^item> \<open>VectorIndex\<close>, \<open>Judge\<close>, \<open>Detect\<close>, \<open>Cycles\<close>: \<open>index.rs\<close>, \<open>conflict.rs\<close> and \<open>detect_conflicts_once\<close>.
  \<^item> \<open>Retrieval\<close>, \<open>Reembed\<close>, \<open>Recall\<close>: derived vectors, index rebuilds and searches, the change of the embedding
    model, and \<open>recall.rs\<close> with \<open>EventLog::recall\<close>.
  \<^item> \<open>Prompts\<close>, \<open>Chunks\<close>: the text side of \<open>extract.rs\<close>, \<open>reconcile.rs\<close>, \<open>mandate.rs\<close> and \<open>summarize.rs\<close>, and \<open>chunk.rs\<close>.
  \<^item> \<open>Wire\<close>, \<open>Server\<close>: the length-prefixed codec, the role matrix and the connection loop.
  \<^item> \<open>Replay\<close>, \<open>InboxClient\<close>, \<open>AgentPolicy\<close>: \<open>stores.rs\<close>, \<open>gate.rs\<close>, \<open>archive_reader.rs\<close>, \<open>replay.rs\<close>; \<open>line_parser.rs\<close> and
    \<open>client.rs\<close>; \<open>policy_store.rs\<close>.

  \<^bold>\<open>What the lemmas show.\<close>
  \<^item> Log: every log that append builds is well formed and verifies; external taint reaches everything derived
    from it; a verified tip fixes the history, under two conditions that the verifier does not check; which
    rewritten stores the verifier accepts.
  \<^item> Files: the atomic write, what a verdict and an executed or failed write guarantee, the taint stamp of
    a write's record, undo as the inverse of the last write, and the frame that blocks it.
  \<^item> Folds: the edge fold against its reference, time travel over the bi-temporal edges, shortest hop counts,
    deletion of a session and resolution of a conflict as final, settings as the last successful setting.
  \<^item> Detection and retrieval: what a cycle may propose and that it drains; that recall forgets, which hits it
    returns and in which order; that a migration is crash safe, can succeed and can be completed.
  \<^item> Text: fences that untrusted text cannot break, the critique that only removes, caps, and chunks.
  \<^item> Daemon and inbox: codec, admitted requests, poke limit; exactly-once delivery, framing, the
    client's trace, and the auto-send budget with its gap.
\<close>

text \<open>
  \<^bold>\<open>State, errors and bounds.\<close>  An operation that changes state returns the state it leaves together with its
  result, an error on the left, because several operations change the state before they fail.  Integers
  that the code checks are kept in their range (\<open>i64\<close> and \<open>u32\<close> conversions are branches), \<open>f32\<close> and \<open>f64\<close> round as in
  IEEE 754, and strings are lists of UTF-8 bytes.  Every loop ends by its own measure, with three exceptions that
  are bounded by an argument: \<open>resolve\<close> follows at most 40 symbolic links, the limit at which the
  system call itself gives up; \<open>serve_loop\<close> and \<open>reconnect_loop\<close> run on the finite input they are given, and
  their theorems hold for every input.

  \<^bold>\<open>Faults.\<close>  What can fail on its own is an argument.  \<open>env_faults\<close> lists the system calls and undo transactions that
  fail during a write (open, \<open>fsync\<close>, \<open>statat\<close>, \<open>rename\<close>, \<open>unlink\<close>, the best-effort clean-up, re-open and \<open>fstat\<close>
  of the written file, insert, bind and pop of a frame); \<open>env_writes\<close> gives the outcome of each \<open>write\<close>.  A list of
  \<open>db_call\<close> names the failing statements of an index rebuild and of the collection of old vectors.  Each page of a
  replay is read from a \<open>view\<close> of its own, which may fail or show another archive.  The policy's write, the
  daemon's socket writes and the client's connection outcomes are arguments too.

  \<^bold>\<open>Parameters.\<close>  Crates and services outside the repository are arguments of the definitions that call them:
  SHA-256, Ed25519, multibase, canonical JSON and NFC (the record \<open>crypto\<close>, with \<open>crypto_ok\<close> for what the code relies
  on: the encodings are injective and a signature by the key verifies), the RFC 3339 parser and
  formatter, fresh identifiers and clocks, the embedding model, the reasoner, the graph search of the hnsw crate, bm25,
  the exponential, and the iteration order of a hash map.  The theorems that need a law of one state it.

  \<^bold>\<open>Where the model is coarser than the code.\<close>
  \<^item> A path is UTF-8: \<open>to_string_lossy\<close> is the identity on it, so paths that lossy conversion would merge are outside the
    model.  A path is absolute; \<open>path_starts_with\<close> reads a relative string as if it began at the root.
  \<^item> The payload column of a row is the event itself: what \<open>serde_json\<close> writes it reads back.  A row whose text does
    not parse has no payload.
  \<^item> A NaN has no sign and no payload, so \<open>total_cmp\<close> and \<open>to_bits\<close> do not tell two NaNs apart.
  \<^item> Errors of the store are modelled in the write path, the replay and the index rebuilds (see the faults above).
    Elsewhere a statement of the store does not fail: a failing read returns its error before anything
    changed, and a failing \<open>set_conflict_cursor\<close>, \<open>bump_conflict_pair_error\<close> or \<open>reset_conflict_pair_error\<close> ends a
    detection cycle after the proposals it has appended, or an unretirement after its marker, with the cursor
    where it was.
  \<^item> \<open>load\<close> of the policy file answers with the default for every failed read.  The model reads the file
    that the last write left, so a transient read error, after which the next write would erase the other contacts,
    is no run of the budget theorems.
  \<^item> Locks make each modelled operation one step; another process may change the files between two
    operations, not inside one.

  \<^bold>\<open>Not modelled.\<close>  The evolution tick and the reflection sweep (they compose modelled parts with a
  model's answers), file ingest and watching, the subprocess sandbox, capture sweeps and other timer loops of
  the daemon, key storage, model back ends and HTTP clients, the plain wire types, the MCP adapter, the
  evaluation harness, the desktop application and the bridge.  They are input and output around the modelled
  operations or code of another language.
\<close>

end
